(* ===== verification/Prelude.thy ===== *)
theory Prelude
  imports Main "HOL-Library.Word"
begin

unbundle bit_operations_syntax

text \<open>
  Shared ground of the development.

  \<^item> Machine types: the C types of \<^verbatim>\<open>src/types.h\<close> as words of their width.
  \<^item> The execution type of kernel code. A kernel routine is a function from a state to an
    outcome: it returns a value and a new state (\<open>Ret\<close>), or it stops there (\<open>Stop\<close>): it
    panics, goes to sleep on a channel, spins on a lock that another CPU holds, gives up the CPU for
    now (\<open>Yielded\<close>) or for good, dereferences an address that is not mapped, or writes outside an
    array (\<open>Wild\<close>, undefined behaviour of C).
  \<^item> Byte-addressed memory with 32-bit little-endian loads and stores, as the x86 has.
  \<^item> Closed forms of the table scans that the kernel writes as \<^verbatim>\<open>for\<close> loops.
\<close>

section \<open>Machine types\<close>

type_synonym uchar = "8 word"
type_synonym ushort = "16 word"
type_synonym uint = "32 word"
type_synonym addr = "32 word"
type_synonym memory = "addr \<Rightarrow> uchar"

section \<open>Collections\<close>

named_theorems krun \<open>evaluation of kernel code on a state\<close>
named_theorems kframe \<open>what a routine leaves unchanged\<close>
named_theorems kkeep \<open>parts of the state that a routine keeps on every path\<close>

section \<open>Sleep channels and locks\<close>

text \<open>
  A sleep channel is an address used as a name (\<^verbatim>\<open>void *chan\<close>). The constructors name the
  kernel objects whose addresses the code passes to \<^verbatim>\<open>sleep\<close> and \<^verbatim>\<open>wakeup\<close>;
  \<open>ChanRaw\<close> is any other value, among them the null pointer \<open>ChanRaw 0\<close>.
\<close>

datatype chan =
    ChanRaw addr
  | ChanProc nat
  | ChanLog
  | ChanTicks
  | ChanInput
  | ChanBuf nat
  | ChanBufLock nat
  | ChanInodeLock nat
  | ChanPipeRead addr
  | ChanPipeWrite addr

text \<open>The spin locks of the kernel, named by the object that contains them.\<close>

datatype lockid =
    PtableLock
  | KmemLock
  | BcacheLock
  | IcacheLock
  | FtableLock
  | LogLock
  | IdeLock
  | ConsLock
  | TicksLock
  | PipeLock addr
  | BufLock nat
  | InodeLock nat

section \<open>Outcomes and their sequencing\<close>

datatype stop =
    Panic string
  | Sleeping chan
  | Spinning lockid
  | Noreturn
  | Yielded
  | Wild string
  | Fault addr
  | Diverge

datatype ('s, 'a) outcome = Ret 'a 's | Stop stop 's

type_synonym ('s, 'a) K = "'s \<Rightarrow> ('s, 'a) outcome"

definition ret :: "'a \<Rightarrow> ('s, 'a) K" where
  "ret a s = Ret a s"

definition kbind :: "('s, 'a) K \<Rightarrow> ('a \<Rightarrow> ('s, 'b) K) \<Rightarrow> ('s, 'b) K" where
  "kbind m f s = (case m s of Ret a t \<Rightarrow> f a t | Stop e t \<Rightarrow> Stop e t)"

definition kseq :: "('s, 'a) K \<Rightarrow> ('s, 'b) K \<Rightarrow> ('s, 'b) K" where
  "kseq m n = kbind m (\<lambda>_. n)"

definition kget :: "('s \<Rightarrow> 'a) \<Rightarrow> ('s, 'a) K" where
  "kget f s = Ret (f s) s"

definition kmod :: "('s \<Rightarrow> 's) \<Rightarrow> ('s, unit) K" where
  "kmod f s = Ret () (f s)"

definition kstop :: "stop \<Rightarrow> ('s, 'a) K" where
  "kstop e s = Stop e s"

definition panic :: "string \<Rightarrow> ('s, 'a) K" where
  "panic msg = kstop (Panic msg)"

definition kwhen :: "bool \<Rightarrow> ('s, unit) K \<Rightarrow> ('s, unit) K" where
  "kwhen b m = (if b then m else ret ())"

text \<open>A counted loop without an early exit: the body for each index in turn.\<close>

fun kfor :: "('i \<Rightarrow> ('s, unit) K) \<Rightarrow> 'i list \<Rightarrow> ('s, unit) K" where
  "kfor f [] = ret ()"
| "kfor f (i # is) = kseq (f i) (kfor f is)"

text \<open>The state an execution ends in, whichever way it ends, and the value it returns.\<close>

fun final :: "('s, 'a) outcome \<Rightarrow> 's" where
  "final (Ret a s) = s"
| "final (Stop e s) = s"

fun returns :: "('s, 'a) outcome \<Rightarrow> 'a option" where
  "returns (Ret a s) = Some a"
| "returns (Stop e s) = None"

section \<open>Memory\<close>

definition load32 :: "memory \<Rightarrow> addr \<Rightarrow> uint" where
  "load32 m a =
     ucast (m a) OR push_bit 8 (ucast (m (a + 1)))
     OR push_bit 16 (ucast (m (a + 2))) OR push_bit 24 (ucast (m (a + 3)))"

definition store32 :: "memory \<Rightarrow> addr \<Rightarrow> uint \<Rightarrow> memory" where
  "store32 m a v =
     m(a := ucast v, a + 1 := ucast (drop_bit 8 v),
       a + 2 := ucast (drop_bit 16 v), a + 3 := ucast (drop_bit 24 v))"

text \<open>The bytes at an address, and a memory with a run of bytes replaced.\<close>

definition bytes_at :: "memory \<Rightarrow> addr \<Rightarrow> nat \<Rightarrow> uchar list" where
  "bytes_at m a n = map (\<lambda>i. m (a + of_nat i)) [0..<n]"

definition write_bytes :: "memory \<Rightarrow> addr \<Rightarrow> uchar list \<Rightarrow> memory" where
  "write_bytes m a bs =
     (\<lambda>x. if unat (x - a) < length bs then bs ! unat (x - a) else m x)"

section \<open>Lemmas on outcomes\<close>

lemma ret_run [krun, simp]: "ret a s = Ret a s"
  by (simp add: ret_def)

lemma kget_run [krun, simp]: "kget f s = Ret (f s) s"
  by (simp add: kget_def)

lemma kmod_run [krun, simp]: "kmod f s = Ret () (f s)"
  by (simp add: kmod_def)

lemma kstop_run [krun, simp]: "kstop e s = Stop e s"
  by (simp add: kstop_def)

lemma panic_run [krun, simp]: "panic msg s = Stop (Panic msg) s"
  by (simp add: panic_def)

lemma kbind_run [krun]:
  "kbind m f s = (case m s of Ret a t \<Rightarrow> f a t | Stop e t \<Rightarrow> Stop e t)"
  by (simp add: kbind_def)

lemma kseq_run [krun]:
  "kseq m n s = (case m s of Ret a t \<Rightarrow> n t | Stop e t \<Rightarrow> Stop e t)"
  by (simp add: kseq_def kbind_def)

lemma kwhen_run [krun]: "kwhen b m s = (if b then m s else Ret () s)"
  by (simp add: kwhen_def)

lemma kbind_Ret: "m s = Ret a t \<Longrightarrow> kbind m f s = f a t"
  by (simp add: kbind_def)

lemma kseq_Ret: "m s = Ret a t \<Longrightarrow> kseq m n s = n t"
  by (simp add: kseq_run)

lemma kbind_Stop: "m s = Stop e t \<Longrightarrow> kbind m f s = Stop e t"
  by (simp add: kbind_def)

lemma kseq_Stop: "m s = Stop e t \<Longrightarrow> kseq m n s = Stop e t"
  by (simp add: kseq_run)

lemma kbind_eq_Ret:
  "kbind m f s = Ret b u \<longleftrightarrow> (\<exists>a t. m s = Ret a t \<and> f a t = Ret b u)"
  by (auto simp: kbind_def split: outcome.splits)

lemma kseq_eq_Ret:
  "kseq m n s = Ret b u \<longleftrightarrow> (\<exists>a t. m s = Ret a t \<and> n t = Ret b u)"
  by (auto simp: kseq_run split: outcome.splits)

lemma kbind_assoc: "kbind (kbind m f) g = kbind m (\<lambda>a. kbind (f a) g)"
  by (rule ext) (simp add: kbind_def split: outcome.splits)

lemma kfor_append: "kfor f (xs @ ys) = kseq (kfor f xs) (kfor f ys)"
  by (induction xs) (auto simp: kseq_run fun_eq_iff split: outcome.splits)

text \<open>A counted loop keeps what its body keeps, whichever way it ends.\<close>

lemma kfor_invariant:
  assumes "\<And>i t. i \<in> set is \<Longrightarrow> P t \<Longrightarrow> P (final (f i t))" and "P s"
  shows "P (final (kfor f is s))"
  using assms
proof (induction "is" arbitrary: s)
  case (Cons i "is")
  then have "P (final (f i s))" by simp
  then show ?case
    using Cons by (cases "f i s") (simp_all add: kseq_run)
qed simp

text \<open>A routine keeps a part of the state if no path changes it, whichever way the path ends.\<close>

definition keeps :: "('s \<Rightarrow> 'x) \<Rightarrow> ('s, 'a) K \<Rightarrow> bool" where
  "keeps f m \<longleftrightarrow> (\<forall>s. f (final (m s)) = f s)"

lemma keepsD: "keeps f m \<Longrightarrow> m s = Ret a t \<Longrightarrow> f t = f s"
  unfolding keeps_def by (metis final.simps(1))

lemma keeps_stop: "keeps f m \<Longrightarrow> m s = Stop e t \<Longrightarrow> f t = f s"
  unfolding keeps_def by (metis final.simps(2))

lemma keeps_ret [kkeep]: "keeps f (ret a)" "keeps f (kget g)" "keeps f (kstop e)" "keeps f (panic msg)"
  by (simp_all add: keeps_def)

lemma keeps_mod [kkeep]: "(\<And>s. f (h s) = f s) \<Longrightarrow> keeps f (kmod h)"
  by (simp add: keeps_def)

lemma keeps_bind [kkeep]: "keeps f m \<Longrightarrow> (\<And>a. keeps f (g a)) \<Longrightarrow> keeps f (kbind m g)"
  unfolding keeps_def kbind_def by (auto split: outcome.split) (metis final.simps)+

lemma keeps_seq [kkeep]: "keeps f m \<Longrightarrow> keeps f n \<Longrightarrow> keeps f (kseq m n)"
  by (simp add: kseq_def keeps_bind)

lemma keeps_when [kkeep]: "keeps f m \<Longrightarrow> keeps f (kwhen b m)"
  by (simp add: kwhen_def keeps_ret)

lemma keeps_if [kkeep]: "(b \<Longrightarrow> keeps f m) \<Longrightarrow> (\<not> b \<Longrightarrow> keeps f n) \<Longrightarrow> keeps f (if b then m else n)"
  by simp

lemma keeps_option [kkeep]:
  "(x = None \<Longrightarrow> keeps f m) \<Longrightarrow> (\<And>a. x = Some a \<Longrightarrow> keeps f (g a)) \<Longrightarrow>
     keeps f (case x of None \<Rightarrow> m | Some a \<Rightarrow> g a)"
  by (cases x) simp_all

lemma keeps_for [kkeep]: "(\<And>i. keeps f (g i)) \<Longrightarrow> keeps f (kfor g is)"
  by (induction "is") (simp_all add: keeps_ret keeps_seq)

section \<open>Table scans\<close>

text \<open>
  A loop over the first \<open>n\<close> slots of a table that rewrites the slots satisfying a test, each
  looking only at its own slot, has a closed form.
\<close>

definition scan :: "nat \<Rightarrow> ('a \<Rightarrow> bool) \<Rightarrow> ('a \<Rightarrow> 'a) \<Rightarrow> (nat \<Rightarrow> 'a) \<Rightarrow> nat \<Rightarrow> 'a" where
  "scan n P u f = fold (\<lambda>i g. if P (g i) then g(i := u (g i)) else g) [0..<n] f"

lemma scan_nth: "scan n P u f i = (if i < n \<and> P (f i) then u (f i) else f i)"
proof (induction n arbitrary: i)
  case 0
  then show ?case by (simp add: scan_def)
next
  case (Suc n)
  have "scan (Suc n) P u f =
      (let g = scan n P u f in if P (g n) then g(n := u (g n)) else g)"
    by (simp add: scan_def Let_def)
  then show ?case
    using Suc.IH by (auto simp: Let_def less_Suc_eq)
qed

lemma scan_eq: "scan n P u f = (\<lambda>i. if i < n \<and> P (f i) then u (f i) else f i)"
  by (rule ext) (rule scan_nth)

lemma find_upt_Some:
  "find P [0..<n] = Some i \<longleftrightarrow> i < n \<and> P i \<and> (\<forall>j<i. \<not> P j)"
  by (auto simp: find_Some_iff)

lemma find_upt_None: "find P [0..<n] = None \<longleftrightarrow> (\<forall>i<n. \<not> P i)"
  by (auto simp: find_None_iff)

section \<open>Lemmas on memory\<close>

lemma bytes_at_length [simp]: "length (bytes_at m a n) = n"
  by (simp add: bytes_at_def)

lemma bytes_at_nth [simp]: "i < n \<Longrightarrow> bytes_at m a n ! i = m (a + of_nat i)"
  by (simp add: bytes_at_def)

lemma unat_lt32: "unat (a :: 32 word) < 4294967296"
  by (rule order_less_le_trans [OF unsigned_less]) simp

lemma unat_of_nat32: "n < 2 ^ 32 \<Longrightarrow> unat (of_nat n :: 32 word) = n"
  by (simp add: unat_of_nat)

lemma bytes_at_write_bytes:
  assumes "length bs \<le> 2 ^ 32"
  shows "bytes_at (write_bytes m a bs) a (length bs) = bs"
proof (rule nth_equalityI)
  fix i assume i: "i < length (bytes_at (write_bytes m a bs) a (length bs))"
  then have "i < 2 ^ 32" using assms by simp
  then have "unat (of_nat i :: 32 word) = i" by (rule unat_of_nat32)
  with i show "bytes_at (write_bytes m a bs) a (length bs) ! i = bs ! i"
    by (simp add: write_bytes_def)
qed simp

lemma write_bytes_outside:
  "length bs \<le> unat (x - a) \<Longrightarrow> write_bytes m a bs x = m x"
  by (simp add: write_bytes_def)

lemma write_bytes_Nil [simp]: "write_bytes m a [] = m"
  by (simp add: write_bytes_def)

text \<open>Aligned 32-bit accesses do not overlap unless they are at the same address.\<close>

definition aligned4 :: "addr \<Rightarrow> bool" where
  "aligned4 a \<longleftrightarrow> 4 dvd unat a"

lemma unat_aligned_add:
  assumes "aligned4 a" and "k < 4"
  shows "unat (a + of_nat k) = unat a + k"
proof -
  have "unat a < 2 ^ 32" using unat_lt32 [of a] by simp
  with assms have "unat a + k < 2 ^ 32"
    unfolding aligned4_def by (elim dvdE) simp
  then show ?thesis
    using assms(2) by (simp add: unat_word_ariths unat_of_nat)
qed

lemma aligned_add_inj:
  assumes "aligned4 a" "aligned4 b" "k < 4" "l < 4" "a + of_nat k = b + of_nat l"
  shows "a = b \<and> k = l"
proof -
  have "unat a + k = unat b + l"
    using assms by (metis unat_aligned_add)
  with assms(1-4) have "unat a = unat b \<and> k = l"
    unfolding aligned4_def by (elim dvdE) (simp, arith)
  then show ?thesis by (simp add: word_unat_eq_iff)
qed

lemma load32_store32_same: "load32 (store32 m a v) a = v"
proof -
  have d: "a + 1 \<noteq> a" "a + 2 \<noteq> a" "a + 3 \<noteq> a" "a + 1 \<noteq> a + 2" "a + 1 \<noteq> a + 3" "a + 2 \<noteq> a + 3"
    by simp_all
  have "bit (load32 (store32 m a v) a) n = bit v n" if "n < 32" for n
  proof -
    consider "n < 8" | "8 \<le> n" "n < 16" | "16 \<le> n" "n < 24" | "24 \<le> n" by linarith
    then show ?thesis
      using that unfolding load32_def store32_def
      by cases (auto simp: bit_or_iff bit_push_bit_iff bit_ucast_iff bit_drop_bit_eq)
  qed
  then show ?thesis by (auto intro: bit_word_eqI)
qed

lemma load32_store32_other:
  assumes "aligned4 a" "aligned4 b" "a \<noteq> b"
  shows "load32 (store32 m a v) b = load32 m b"
proof -
  have n: "b + of_nat l \<noteq> a + of_nat k" if "k < 4" "l < 4" for k l
    using aligned_add_inj [OF assms(1,2) that] assms(3) by metis
  have "b + of_nat l \<noteq> a \<and> b + of_nat l \<noteq> a + 1 \<and> b + of_nat l \<noteq> a + 2 \<and> b + of_nat l \<noteq> a + 3"
    if "l < 4" for l
    using n [of 0 l] n [of 1 l] n [of 2 l] n [of 3 l] that by simp
  from this [of 0] this [of 1] this [of 2] this [of 3] show ?thesis
    by (simp add: load32_def store32_def)
qed

lemma load32_store32:
  assumes "aligned4 a" "aligned4 b"
  shows "load32 (store32 m a v) b = (if a = b then v else load32 m b)"
  using assms by (simp add: load32_store32_same load32_store32_other)

end
