(* ===== verification/Params.thy ===== *)
theory Params
  imports Prelude
begin

text \<open>
  The compile-time constants of the kernel: \<^verbatim>\<open>src/param.h\<close>, \<^verbatim>\<open>src/memlayout.h\<close> and the
  macros of \<^verbatim>\<open>src/mmu.h\<close> that take virtual addresses and page-table entries apart. The
  lemmas relate the bit arithmetic of the macros to division and remainder by the page size.
\<close>

section \<open>param.h\<close>

definition NPROC :: nat where "NPROC = 64"
definition KSTACKSIZE :: uint where "KSTACKSIZE = 4096"
definition NCPU :: nat where "NCPU = 8"
definition NOFILE :: nat where "NOFILE = 16"
definition NFILE :: nat where "NFILE = 100"
definition NINODE :: nat where "NINODE = 50"
definition NDEV :: nat where "NDEV = 10"
definition ROOTDEV :: uint where "ROOTDEV = 1"
definition MAXARG :: nat where "MAXARG = 32"
definition MAXOPBLOCKS :: nat where "MAXOPBLOCKS = 10"
definition LOGSIZE :: nat where "LOGSIZE = MAXOPBLOCKS * 3"
definition NBUF :: nat where "NBUF = MAXOPBLOCKS * 3"
definition FSSIZE :: nat where "FSSIZE = 1000"

lemmas param_defs =
  NPROC_def KSTACKSIZE_def NCPU_def NOFILE_def NFILE_def NINODE_def NDEV_def ROOTDEV_def
  MAXARG_def MAXOPBLOCKS_def LOGSIZE_def NBUF_def FSSIZE_def

section \<open>memlayout.h\<close>

definition EXTMEM :: uint where "EXTMEM = 0x100000"
definition PHYSTOP :: uint where "PHYSTOP = 0xE000000"
definition DEVSPACE :: uint where "DEVSPACE = 0xFE000000"
definition KERNBASE :: uint where "KERNBASE = 0x80000000"
definition KERNLINK :: uint where "KERNLINK = KERNBASE + EXTMEM"

definition V2P :: "addr \<Rightarrow> uint" where "V2P a = a - KERNBASE"
definition P2V :: "uint \<Rightarrow> addr" where "P2V a = a + KERNBASE"

lemmas memlayout_defs = EXTMEM_def PHYSTOP_def DEVSPACE_def KERNBASE_def KERNLINK_def

section \<open>mmu.h\<close>

definition SEG_KCODE :: nat where "SEG_KCODE = 1"
definition SEG_KDATA :: nat where "SEG_KDATA = 2"
definition SEG_UCODE :: nat where "SEG_UCODE = 3"
definition SEG_UDATA :: nat where "SEG_UDATA = 4"
definition SEG_TSS :: nat where "SEG_TSS = 5"
definition DPL_USER :: uint where "DPL_USER = 3"
definition FL_IF :: uint where "FL_IF = 0x200"

definition PGSIZE :: uint where "PGSIZE = 4096"
definition NPDENTRIES :: nat where "NPDENTRIES = 1024"
definition NPTENTRIES :: nat where "NPTENTRIES = 1024"

definition PDX :: "addr \<Rightarrow> uint" where "PDX va = drop_bit 22 va AND 0x3FF"
definition PTX :: "addr \<Rightarrow> uint" where "PTX va = drop_bit 12 va AND 0x3FF"
definition PGADDR :: "uint \<Rightarrow> uint \<Rightarrow> uint \<Rightarrow> addr" where
  "PGADDR d t o' = push_bit 22 d OR push_bit 12 t OR o'"

definition PGROUNDUP :: "uint \<Rightarrow> uint" where
  "PGROUNDUP sz = (sz + PGSIZE - 1) AND NOT (PGSIZE - 1)"
definition PGROUNDDOWN :: "uint \<Rightarrow> uint" where
  "PGROUNDDOWN a = a AND NOT (PGSIZE - 1)"

definition PTE_P :: uint where "PTE_P = 1"
definition PTE_W :: uint where "PTE_W = 2"
definition PTE_U :: uint where "PTE_U = 4"
definition PTE_ADDR :: "uint \<Rightarrow> uint" where "PTE_ADDR pte = pte AND NOT 0xFFF"
definition PTE_FLAGS :: "uint \<Rightarrow> uint" where "PTE_FLAGS pte = pte AND 0xFFF"

lemmas pte_defs = PTE_P_def PTE_W_def PTE_U_def PTE_ADDR_def PTE_FLAGS_def

section \<open>Addresses and pages\<close>

definition pgaligned :: "uint \<Rightarrow> bool" where
  "pgaligned a \<longleftrightarrow> 4096 dvd unat a"

lemma V2P_P2V [simp]: "V2P (P2V a) = a" and P2V_V2P [simp]: "P2V (V2P a) = a"
  by (simp_all add: V2P_def P2V_def)

lemma mask12: "(0xFFF :: uint) = mask 12"
  by (simp add: mask_eq_exp_minus_1)

lemma and_not_fff: "(a :: uint) AND - 4096 = push_bit 12 (drop_bit 12 a)"
proof -
  have "(- 4096 :: uint) = NOT (mask 12)" by (simp add: mask_eq_exp_minus_1)
  moreover have "a AND NOT (mask 12) = push_bit 12 (drop_bit 12 a)"
    by (rule bit_word_eqI)
      (auto simp: bit_and_iff bit_not_iff bit_mask_iff bit_push_bit_iff bit_drop_bit_eq)
  ultimately show ?thesis by simp
qed

lemma PGROUNDDOWN_shift: "PGROUNDDOWN a = push_bit 12 (drop_bit 12 a)"
  by (simp add: PGROUNDDOWN_def PGSIZE_def and_not_fff)

lemma unat_shift12: "unat (push_bit 12 (drop_bit 12 (a :: uint))) = unat a div 4096 * 4096"
proof -
  have "unat a div 4096 * 4096 < 2 ^ 32"
    using unat_lt32 [of a] by simp
  then show ?thesis
    by (simp add: push_bit_eq_mult drop_bit_eq_div unat_word_ariths unat_div)
qed

lemma unat_PGROUNDDOWN: "unat (PGROUNDDOWN a) = unat a div 4096 * 4096"
  by (simp add: PGROUNDDOWN_shift unat_shift12)

lemma unat_PTE_ADDR: "unat (PTE_ADDR a) = unat a div 4096 * 4096"
  by (simp add: PTE_ADDR_def and_not_fff unat_shift12)

lemma pgaligned_PGROUNDDOWN [simp]: "pgaligned (PGROUNDDOWN a)"
  by (simp add: pgaligned_def unat_PGROUNDDOWN)

lemma pgaligned_PTE_ADDR [simp]: "pgaligned (PTE_ADDR a)"
  by (simp add: pgaligned_def unat_PTE_ADDR)

lemma PGROUNDUP_down: "PGROUNDUP sz = PGROUNDDOWN (sz + 4095)"
  by (simp add: PGROUNDUP_def PGROUNDDOWN_def PGSIZE_def add.commute)

lemma pgaligned_PGROUNDUP [simp]: "pgaligned (PGROUNDUP a)"
  by (simp add: PGROUNDUP_down)

text \<open>Rounding up does not wrap below the last page of the address space.\<close>

lemma unat_PGROUNDUP:
  assumes "unat sz + 4095 < 2 ^ 32"
  shows "unat (PGROUNDUP sz) = (unat sz + 4095) div 4096 * 4096"
  using assms by (simp add: PGROUNDUP_down unat_PGROUNDDOWN unat_word_ariths)

lemma PGROUNDDOWN_aligned: "pgaligned a \<Longrightarrow> PGROUNDDOWN a = a"
  by (simp add: word_unat_eq_iff unat_PGROUNDDOWN pgaligned_def)

lemma PGROUNDDOWN_le: "PGROUNDDOWN a \<le> a"
  by (simp add: word_le_nat_alt unat_PGROUNDDOWN div_times_less_eq_dividend)

lemma pgaligned_0 [simp]: "pgaligned 0"
  by (simp add: pgaligned_def)

lemma pgaligned_aligned4: "pgaligned a \<Longrightarrow> aligned4 a"
  unfolding pgaligned_def aligned4_def by (rule dvd_trans [of _ 4096]) simp_all

lemma unat_and_3ff: "unat ((x :: uint) AND 0x3FF) = unat x mod 1024"
proof -
  have "(0x3FF :: uint) = mask 10" by (simp add: mask_eq_exp_minus_1)
  then have "x AND 0x3FF = take_bit 10 x" by (simp only: take_bit_eq_mask)
  then show ?thesis by (simp add: take_bit_eq_mod unat_mod)
qed

lemma unat_PDX: "unat (PDX va) = unat va div 2 ^ 22"
proof -
  have "unat va < 1024 * 2 ^ 22" using unat_lt32 [of va] by simp
  then have "unat va div 2 ^ 22 < 1024" by (simp add: less_mult_imp_div_less)
  then show ?thesis by (simp add: PDX_def unat_and_3ff drop_bit_eq_div unat_div)
qed

lemma unat_PTX: "unat (PTX va) = unat va div 4096 mod 1024"
  by (simp add: PTX_def unat_and_3ff drop_bit_eq_div unat_div)

lemma unat_PDX_less [simp]: "unat (PDX va) < 1024"
  by (simp add: PDX_def unat_and_3ff)

lemma unat_PTX_less [simp]: "unat (PTX va) < 1024"
  by (simp add: PTX_def unat_and_3ff)

text \<open>The three-part structure of a virtual address: the parts determine it.\<close>

lemma PGADDR_parts: "PGADDR (PDX va) (PTX va) (va AND 0xFFF) = va"
proof -
  have m10: "(0x3FF :: uint) = mask 10" by (simp add: mask_eq_exp_minus_1)
  have "bit (PGADDR (PDX va) (PTX va) (va AND 0xFFF)) n = bit va n" if "n < 32" for n
  proof -
    consider "n < 12" | "12 \<le> n" "n < 22" | "22 \<le> n" by linarith
    then show ?thesis
      using that unfolding PGADDR_def PDX_def PTX_def mask12 m10
      by cases (auto simp: bit_or_iff bit_and_iff bit_push_bit_iff bit_drop_bit_eq bit_mask_iff)
  qed
  then show ?thesis by (auto intro: bit_word_eqI)
qed

lemma page_index_inj:
  assumes "PDX a = PDX b" and "PTX a = PTX b"
  shows "PGROUNDDOWN a = PGROUNDDOWN b"
proof -
  have "unat a div 2 ^ 22 = unat b div 2 ^ 22"
    using assms(1) by (metis unat_PDX)
  moreover have "unat a div 4096 mod 1024 = unat b div 4096 mod 1024"
    using assms(2) by (metis unat_PTX)
  moreover have "unat x div 4096 = unat x div 2 ^ 22 * 1024 + unat x div 4096 mod 1024" for x :: uint
    by (simp add: div_mult2_eq [of "unat x" 4096 1024, simplified] mult.commute)
  ultimately have "unat a div 4096 = unat b div 4096" by metis
  then show ?thesis by (simp add: word_unat_eq_iff unat_PGROUNDDOWN)
qed

end
