(* ===== verification/Spinlock.thy ===== *)
theory Spinlock
  imports Params
begin

text \<open>
  CPUs and spin locks: \<^verbatim>\<open>struct cpu\<close> and \<^verbatim>\<open>mycpu\<close> (\<^verbatim>\<open>src/proc.h\<close>, \<^verbatim>\<open>src/proc.c\<close>) and
  \<^verbatim>\<open>src/spinlock.c\<close>.

  The machine state \<open>mach\<close> has the memory, the CPUs and the locks. The code runs on the CPU
  whose local APIC answers \<open>m_lapicid\<close>; each CPU has its own interrupt flag. A lock taken by
  another CPU makes \<open>acquire\<close> spin: the run stops with \<open>Spinning\<close>, and the same call is
  repeated when that CPU has moved on. The debugging fields of a lock other than its name and
  its CPU (the recorded call stack \<^verbatim>\<open>pcs\<close>) are not kept; \<open>getcallerpcs\<close>, which fills them,
  is modelled on its own.

  Lemmas: closed forms of \<open>pushcli\<close>, \<open>popcli\<close>, \<open>holding\<close>, \<open>acquire\<close> and \<open>release\<close>; nesting
  of \<open>pushcli\<close> and \<open>popcli\<close>; the lock discipline of interleaved CPUs.
\<close>

section \<open>State\<close>

record segdesc =
  sd_lim_15_0 :: uint
  sd_base_15_0 :: uint
  sd_base_23_16 :: uint
  sd_type :: uint
  sd_s :: uint
  sd_dpl :: uint
  sd_p :: uint
  sd_lim_19_16 :: uint
  sd_avl :: uint
  sd_rsv1 :: uint
  sd_db :: uint
  sd_g :: uint
  sd_base_31_24 :: uint

record cpu =
  c_apicid :: uchar
  c_scheduler :: addr
  c_ts_esp0 :: uint
  c_ts_ss0 :: uint
  c_ts_iomb :: uint
  c_gdt :: "nat \<Rightarrow> segdesc"
  c_started :: bool
  c_ncli :: int
  c_intena :: bool
  c_proc :: "nat option"

record spinlock =
  lk_locked :: bool
  lk_name :: string
  lk_cpu :: "nat option"

record mach =
  m_mem :: memory
  m_IF :: "uchar \<Rightarrow> bool"
  m_lapicid :: uchar
  m_cr3 :: "uchar \<Rightarrow> uint"
  m_ncpu :: nat
  m_cpus :: "nat \<Rightarrow> cpu"
  m_locks :: "lockid \<Rightarrow> spinlock"

section \<open>The executing CPU\<close>

definition cpuno :: "'a mach_scheme \<Rightarrow> nat option" where
  "cpuno s = find (\<lambda>i. c_apicid (m_cpus s i) = m_lapicid s) [0..<m_ncpu s]"

definition readeflags_IF :: "('a mach_scheme, bool) K" where
  "readeflags_IF = kget (\<lambda>s. m_IF s (m_lapicid s))"

definition cli :: "('a mach_scheme, unit) K" where
  "cli = kmod (\<lambda>s. s\<lparr>m_IF := (m_IF s)(m_lapicid s := False)\<rparr>)"

definition sti :: "('a mach_scheme, unit) K" where
  "sti = kmod (\<lambda>s. s\<lparr>m_IF := (m_IF s)(m_lapicid s := True)\<rparr>)"

definition upd_cpu :: "nat \<Rightarrow> (cpu \<Rightarrow> cpu) \<Rightarrow> ('a mach_scheme, unit) K" where
  "upd_cpu c f = kmod (\<lambda>s. s\<lparr>m_cpus := (m_cpus s)(c := f (m_cpus s c))\<rparr>)"

definition mycpu :: "('a mach_scheme, nat) K" where
  "mycpu = kbind readeflags_IF (\<lambda>i.
     if i then panic ''mycpu called with interrupts enabled''
     else kbind (kget cpuno) (\<lambda>r. case r of Some c \<Rightarrow> ret c | None \<Rightarrow> panic ''unknown apicid''))"

definition cpuid :: "('a mach_scheme, nat) K" where
  "cpuid = mycpu"

section \<open>pushcli and popcli\<close>

definition pushcli :: "('a mach_scheme, unit) K" where
  "pushcli =
     kbind readeflags_IF (\<lambda>eflags.
     kseq cli (
     kbind mycpu (\<lambda>c.
     kbind (kget (\<lambda>s. c_ncli (m_cpus s c))) (\<lambda>n.
     kseq (kwhen (n = 0) (upd_cpu c (\<lambda>k. k\<lparr>c_intena := eflags\<rparr>)))
          (upd_cpu c (\<lambda>k. k\<lparr>c_ncli := c_ncli k + 1\<rparr>))))))"

definition popcli :: "('a mach_scheme, unit) K" where
  "popcli =
     kbind readeflags_IF (\<lambda>i.
     if i then panic ''popcli - interruptible''
     else
       kbind mycpu (\<lambda>c.
       kseq (upd_cpu c (\<lambda>k. k\<lparr>c_ncli := c_ncli k - 1\<rparr>)) (
       kbind (kget (\<lambda>s. m_cpus s c)) (\<lambda>k.
       if c_ncli k < 0 then panic ''popcli''
       else kwhen (c_ncli k = 0 \<and> c_intena k) sti))))"

definition myproc :: "('a mach_scheme, nat option) K" where
  "myproc =
     kseq pushcli (
     kbind mycpu (\<lambda>c.
     kbind (kget (\<lambda>s. c_proc (m_cpus s c))) (\<lambda>p.
     kseq popcli (ret p))))"

section \<open>Locks\<close>

definition initlock :: "lockid \<Rightarrow> string \<Rightarrow> ('a mach_scheme, unit) K" where
  "initlock l name = kmod (\<lambda>s. s\<lparr>m_locks := (m_locks s)
     (l := \<lparr>lk_locked = False, lk_name = name, lk_cpu = None\<rparr>)\<rparr>)"

definition holding :: "lockid \<Rightarrow> ('a mach_scheme, bool) K" where
  "holding l =
     kseq pushcli (
     kbind mycpu (\<lambda>c.
     kbind (kget (\<lambda>s. lk_locked (m_locks s l) \<and> lk_cpu (m_locks s l) = Some c)) (\<lambda>r.
     kseq popcli (ret r))))"

definition upd_lock :: "lockid \<Rightarrow> (spinlock \<Rightarrow> spinlock) \<Rightarrow> ('a mach_scheme, unit) K" where
  "upd_lock l f = kmod (\<lambda>s. s\<lparr>m_locks := (m_locks s)(l := f (m_locks s l))\<rparr>)"

text \<open>
  The atomic exchange \<^verbatim>\<open>xchg(&lk->locked, 1)\<close> stores 1 and returns the old value; a CPU
  that gets 1 back has changed nothing and tries again.
\<close>

definition acquire :: "lockid \<Rightarrow> ('a mach_scheme, unit) K" where
  "acquire l =
     kseq pushcli (
     kbind (holding l) (\<lambda>h.
     if h then panic ''acquire''
     else
       kbind (kget (\<lambda>s. lk_locked (m_locks s l))) (\<lambda>b.
       if b then kstop (Spinning l)
       else
         kseq (upd_lock l (\<lambda>k. k\<lparr>lk_locked := True\<rparr>)) (
         kbind mycpu (\<lambda>c.
         upd_lock l (\<lambda>k. k\<lparr>lk_cpu := Some c\<rparr>))))))"

definition release :: "lockid \<Rightarrow> ('a mach_scheme, unit) K" where
  "release l =
     kbind (holding l) (\<lambda>h.
     if \<not> h then panic ''release''
     else
       kseq (upd_lock l (\<lambda>k. k\<lparr>lk_cpu := None\<rparr>)) (
       kseq (upd_lock l (\<lambda>k. k\<lparr>lk_locked := False\<rparr>)) popcli))"

definition lock_free :: "'a mach_scheme \<Rightarrow> lockid \<Rightarrow> bool" where
  "lock_free s l \<longleftrightarrow> \<not> lk_locked (m_locks s l) \<and> lk_cpu (m_locks s l) = None"

definition holds :: "'a mach_scheme \<Rightarrow> nat \<Rightarrow> lockid \<Rightarrow> bool" where
  "holds s c l \<longleftrightarrow> lk_locked (m_locks s l) \<and> lk_cpu (m_locks s l) = Some c"

text \<open>A routine repeated \<open>n\<close> times.\<close>

primrec times :: "nat \<Rightarrow> ('s, unit) K \<Rightarrow> ('s, unit) K" where
  "times 0 m = ret ()"
| "times (Suc n) m = kseq m (times n m)"

text \<open>
  CPUs taking turns: at any moment another CPU may be the executing one, and the executing CPU
  takes a lock that is free or releases one it holds.
\<close>

inductive cpu_step :: "mach \<Rightarrow> mach \<Rightarrow> bool" where
  switch: "cpu_step s (s\<lparr>m_lapicid := a\<rparr>)"
| acquires: "acquire l s = Ret () t \<Longrightarrow> cpu_step s t"
| releases: "release l s = Ret () t \<Longrightarrow> cpu_step s t"

definition cpus_boot :: "mach \<Rightarrow> bool" where
  "cpus_boot s \<longleftrightarrow> inj_on (\<lambda>c. c_apicid (m_cpus s c)) {..<m_ncpu s}
     \<and> (\<forall>l. lock_free s l)
     \<and> (\<forall>c<m_ncpu s. c_ncli (m_cpus s c) = 0
          \<and> c_intena (m_cpus s c) = m_IF s (c_apicid (m_cpus s c)))"

inductive cpu_reach :: "mach \<Rightarrow> bool" where
  boot: "cpus_boot s \<Longrightarrow> cpu_reach s"
| step: "cpu_reach s \<Longrightarrow> cpu_step s t \<Longrightarrow> cpu_reach t"

text \<open>\<^verbatim>\<open>getcallerpcs\<close>: the saved program counters along the frame-pointer chain.\<close>

fun getcallerpcs_walk :: "memory \<Rightarrow> uint \<Rightarrow> nat \<Rightarrow> uint list" where
  "getcallerpcs_walk m ebp 0 = []"
| "getcallerpcs_walk m ebp (Suc n) =
     (if ebp = 0 \<or> ebp < KERNBASE \<or> ebp = 0xFFFFFFFF then replicate (Suc n) 0
      else load32 m (ebp + 4) # getcallerpcs_walk m (load32 m ebp) n)"

definition getcallerpcs :: "memory \<Rightarrow> addr \<Rightarrow> uint list" where
  "getcallerpcs m v = getcallerpcs_walk m (v - 8) 10"

section \<open>Closed forms\<close>

definition push_cpu :: "bool \<Rightarrow> cpu \<Rightarrow> cpu" where
  "push_cpu i k = k\<lparr>c_intena := (if c_ncli k = 0 then i else c_intena k), c_ncli := c_ncli k + 1\<rparr>"

definition pop_cpu :: "cpu \<Rightarrow> cpu" where
  "pop_cpu k = k\<lparr>c_ncli := c_ncli k - 1\<rparr>"

text \<open>
  What the code needs of the executing CPU: it is in the table, its nesting depth is not
  negative, interrupts are off while the depth is positive, and outside every critical
  section the saved flag is the flag itself (as it is after every \<open>popcli\<close> to depth 0).
\<close>

definition cur :: "'a mach_scheme \<Rightarrow> nat" where
  "cur s = the (cpuno s)"

definition IF_on :: "'a mach_scheme \<Rightarrow> bool" where
  "IF_on s = m_IF s (m_lapicid s)"

definition cpu_ok :: "'a mach_scheme \<Rightarrow> bool" where
  "cpu_ok s \<longleftrightarrow> cpuno s \<noteq> None \<and> 0 \<le> c_ncli (m_cpus s (cur s))
     \<and> (0 < c_ncli (m_cpus s (cur s)) \<longrightarrow> \<not> IF_on s)
     \<and> (c_ncli (m_cpus s (cur s)) = 0 \<longrightarrow> c_intena (m_cpus s (cur s)) = IF_on s)"

definition pushed :: "'a mach_scheme \<Rightarrow> 'a mach_scheme" where
  "pushed s = s\<lparr>m_IF := (m_IF s)(m_lapicid s := False),
     m_cpus := (m_cpus s)(cur s := push_cpu (IF_on s) (m_cpus s (cur s)))\<rparr>"

definition popped :: "'a mach_scheme \<Rightarrow> 'a mach_scheme" where
  "popped s = s\<lparr>m_IF := (m_IF s)(m_lapicid s :=
       IF_on s \<or> c_ncli (m_cpus s (cur s)) = 1 \<and> c_intena (m_cpus s (cur s))),
     m_cpus := (m_cpus s)(cur s := pop_cpu (m_cpus s (cur s)))\<rparr>"

text \<open>The states after a successful \<open>acquire\<close> and \<open>release\<close>.\<close>

definition acquired :: "lockid \<Rightarrow> 'a mach_scheme \<Rightarrow> 'a mach_scheme" where
  "acquired l s = (pushed s)\<lparr>m_locks := (m_locks s)
     (l := (m_locks s l)\<lparr>lk_locked := True, lk_cpu := Some (cur s)\<rparr>)\<rparr>"

definition released :: "lockid \<Rightarrow> 'a mach_scheme \<Rightarrow> 'a mach_scheme" where
  "released l s = popped (s\<lparr>m_locks := (m_locks s)
     (l := (m_locks s l)\<lparr>lk_cpu := None, lk_locked := False\<rparr>)\<rparr>)"

lemma push_cpu_simps [simp]:
  "c_apicid (push_cpu i k) = c_apicid k" "c_ncli (push_cpu i k) = c_ncli k + 1"
  "c_proc (push_cpu i k) = c_proc k"
  "c_intena (push_cpu i k) = (if c_ncli k = 0 then i else c_intena k)"
  by (simp_all add: push_cpu_def)

lemma pop_cpu_simps [simp]:
  "c_apicid (pop_cpu k) = c_apicid k" "c_ncli (pop_cpu k) = c_ncli k - 1"
  "c_proc (pop_cpu k) = c_proc k" "c_intena (pop_cpu k) = c_intena k"
  by (simp_all add: pop_cpu_def)

lemma cpuno_cong:
  assumes "\<And>i. c_apicid (m_cpus t i) = c_apicid (m_cpus s i)"
    and "m_lapicid t = m_lapicid s" "m_ncpu t = m_ncpu s"
  shows "cpuno t = cpuno s"
  using assms by (simp add: cpuno_def)

lemma cpuno_upd [simp]:
  "c_apicid k = c_apicid (m_cpus s c) \<Longrightarrow> cpuno (s\<lparr>m_cpus := (m_cpus s)(c := k)\<rparr>) = cpuno s"
  "cpuno (s\<lparr>m_IF := f\<rparr>) = cpuno s"
  "cpuno (s\<lparr>m_locks := L\<rparr>) = cpuno s"
  "cpuno (s\<lparr>m_mem := m\<rparr>) = cpuno s"
  "cpuno (s\<lparr>m_cr3 := x\<rparr>) = cpuno s"
  by (auto intro!: cpuno_cong)

lemma cpuno_pushed [simp]: "cpuno (pushed s) = cpuno s"
  and cpuno_popped [simp]: "cpuno (popped s) = cpuno s"
  by (auto simp: pushed_def popped_def intro!: cpuno_cong)

lemma cur_simps [simp]:
  "cur (pushed s) = cur s" "cur (popped s) = cur s" "cur (s\<lparr>m_locks := L\<rparr>) = cur s"
  "cur (s\<lparr>m_mem := m\<rparr>) = cur s" "cur (s\<lparr>m_IF := f\<rparr>) = cur s" "cur (s\<lparr>m_cr3 := x\<rparr>) = cur s"
  by (simp_all add: cur_def)

lemma IF_on_simps [simp]:
  "\<not> IF_on (pushed s)" "IF_on (s\<lparr>m_locks := L\<rparr>) = IF_on s" "IF_on (s\<lparr>m_mem := m\<rparr>) = IF_on s"
  "IF_on (s\<lparr>m_cpus := C\<rparr>) = IF_on s" "IF_on (s\<lparr>m_cr3 := x\<rparr>) = IF_on s"
  by (simp_all add: IF_on_def pushed_def)

lemma pushed_simps [simp]:
  "m_locks (pushed s) = m_locks s" "m_mem (pushed s) = m_mem s"
  "m_lapicid (pushed s) = m_lapicid s" "m_ncpu (pushed s) = m_ncpu s" "m_cr3 (pushed s) = m_cr3 s"
  "m_cpus (pushed s) (cur s) = push_cpu (IF_on s) (m_cpus s (cur s))"
  by (auto simp: pushed_def)

lemma popped_simps [simp]:
  "m_locks (popped s) = m_locks s" "m_mem (popped s) = m_mem s"
  "m_lapicid (popped s) = m_lapicid s" "m_ncpu (popped s) = m_ncpu s" "m_cr3 (popped s) = m_cr3 s"
  "m_cpus (popped s) (cur s) = pop_cpu (m_cpus s (cur s))"
  by (auto simp: popped_def)

lemma mycpu_run [krun]: "cpuno s \<noteq> None \<Longrightarrow> \<not> IF_on s \<Longrightarrow> mycpu s = Ret (cur s) s"
  by (auto simp: mycpu_def readeflags_IF_def kbind_run IF_on_def cur_def)

lemma pushcli_run [krun]:
  assumes "cpuno s \<noteq> None"
  shows "pushcli s = Ret () (pushed s)"
proof -
  let ?t = "s\<lparr>m_IF := (m_IF s)(m_lapicid s := False)\<rparr>"
  have "mycpu ?t = Ret (cur s) ?t"
    using assms mycpu_run [of ?t] by (simp add: IF_on_def)
  then show ?thesis
    by (simp add: pushcli_def readeflags_IF_def cli_def upd_cpu_def kbind_run kseq_run kwhen_run
        pushed_def push_cpu_def IF_on_def)
qed

lemma popcli_run [krun]:
  assumes "cpuno s \<noteq> None" "\<not> IF_on s" "0 < c_ncli (m_cpus s (cur s))"
  shows "popcli s = Ret () (popped s)"
proof -
  have "m_IF s (m_lapicid s) = False" using assms(2) by (simp add: IF_on_def)
  then show ?thesis
    using assms mycpu_run [OF assms(1,2)]
    by (simp add: popcli_def readeflags_IF_def sti_def upd_cpu_def kbind_run kseq_run kwhen_run
        popped_def pop_cpu_def fun_upd_idem)
qed

lemma cpu_okD:
  assumes "cpu_ok s"
  shows "cpuno s \<noteq> None" "0 \<le> c_ncli (m_cpus s (cur s))"
    "0 < c_ncli (m_cpus s (cur s)) \<Longrightarrow> \<not> IF_on s"
  using assms by (simp_all add: cpu_ok_def)

lemma cpu_ok_pushed [simp]: "cpu_ok s \<Longrightarrow> cpu_ok (pushed s)"
  by (simp add: cpu_ok_def)

lemma cpu_ok_locks [simp]: "cpu_ok (s\<lparr>m_locks := L\<rparr>) = cpu_ok s"
  and cpu_ok_mem [simp]: "cpu_ok (s\<lparr>m_mem := m\<rparr>) = cpu_ok s"
  and cpu_ok_cr3 [simp]: "cpu_ok (s\<lparr>m_cr3 := x\<rparr>) = cpu_ok s"
  by (simp_all add: cpu_ok_def)

lemma popped_pushed:
  assumes "cpu_ok s"
  shows "popped (pushed s) = s"
proof -
  have k: "pop_cpu (push_cpu (IF_on s) (m_cpus s (cur s))) = m_cpus s (cur s)"
    using assms by (simp add: cpu_ok_def pop_cpu_def push_cpu_def)
  have i: "c_ncli (m_cpus s (cur s)) + 1 = 1 \<and>
      c_intena (push_cpu (IF_on s) (m_cpus s (cur s))) \<longleftrightarrow> m_IF s (m_lapicid s)"
    using assms by (auto simp: cpu_ok_def IF_on_def)
  have c: "m_cpus (pushed s) = (m_cpus s)(cur s := push_cpu (IF_on s) (m_cpus s (cur s)))"
    and f: "m_IF (pushed s) = (m_IF s)(m_lapicid s := False)"
    by (simp_all add: pushed_def)
  have "m_cpus (popped (pushed s)) = m_cpus s"
    unfolding popped_def using k by (simp add: c)
  moreover have "m_IF (popped (pushed s)) = m_IF s"
    unfolding popped_def using i by (simp add: c f fun_upd_idem)
  ultimately show ?thesis
    by (simp add: popped_def pushed_def)
qed

lemma myproc_run [krun]:
  assumes "cpu_ok s"
  shows "myproc s = Ret (c_proc (m_cpus s (cur s))) s"
  using assms cpu_okD [OF assms]
  by (simp add: myproc_def kseq_run kbind_run pushcli_run popcli_run mycpu_run popped_pushed)

lemma holding_run [krun]:
  assumes "cpu_ok s"
  shows "holding l s = Ret (holds s (cur s) l) s"
  using assms cpu_okD [OF assms]
  by (simp add: holding_def kseq_run kbind_run pushcli_run popcli_run mycpu_run popped_pushed
      holds_def)

lemma holds_simps [simp]:
  "holds (pushed s) c l = holds s c l" "holds (popped s) c l = holds s c l"
  by (simp_all add: holds_def)

lemma acquire_run [krun]:
  assumes "cpu_ok s" "\<not> lk_locked (m_locks s l)"
  shows "acquire l s = Ret () (acquired l s)"
  using assms cpu_okD [OF assms(1)]
  by (simp add: acquire_def kseq_run kbind_run pushcli_run holding_run holds_def upd_lock_def
      mycpu_run acquired_def)

lemma acquire_held:
  assumes "cpu_ok s" "holds s (cur s) l"
  shows "acquire l s = Stop (Panic ''acquire'') (pushed s)"
  using assms cpu_okD [OF assms(1)]
  by (simp add: acquire_def kseq_run kbind_run pushcli_run holding_run)

lemma acquire_spin:
  assumes "cpu_ok s" "lk_locked (m_locks s l)" "\<not> holds s (cur s) l"
  shows "acquire l s = Stop (Spinning l) (pushed s)"
  using assms cpu_okD [OF assms(1)]
  by (simp add: acquire_def kseq_run kbind_run pushcli_run holding_run)

lemma release_run [krun]:
  assumes "cpu_ok s" "holds s (cur s) l" "0 < c_ncli (m_cpus s (cur s))"
  shows "release l s = Ret () (released l s)"
  using assms cpu_okD [OF assms(1)]
  by (simp add: release_def kseq_run kbind_run holding_run upd_lock_def popcli_run released_def)

lemma release_not_held:
  "cpu_ok s \<Longrightarrow> \<not> holds s (cur s) l \<Longrightarrow> release l s = Stop (Panic ''release'') s"
  by (simp add: release_def kbind_run holding_run)

lemma lock_free_simps [simp]:
  "lock_free (s\<lparr>m_mem := m\<rparr>) l = lock_free s l" "lock_free (s\<lparr>m_cpus := C\<rparr>) l = lock_free s l"
  "lock_free (s\<lparr>m_cr3 := x\<rparr>) l = lock_free s l"
  "l' \<noteq> l \<Longrightarrow> lock_free (acquired l s) l' = lock_free s l'"
  by (simp_all add: lock_free_def acquired_def)

lemma acquired_simps [simp]:
  "cpu_ok s \<Longrightarrow> cpu_ok (acquired l s)" "holds (acquired l s) (cur s) l"
  "cpuno (acquired l s) = cpuno s" "cur (acquired l s) = cur s" "m_mem (acquired l s) = m_mem s"
  "m_lapicid (acquired l s) = m_lapicid s" "m_ncpu (acquired l s) = m_ncpu s"
  "m_cr3 (acquired l s) = m_cr3 s"
  "c_ncli (m_cpus (acquired l s) (cur s)) = c_ncli (m_cpus s (cur s)) + 1"
  "c_proc (m_cpus (acquired l s) (cur s)) = c_proc (m_cpus s (cur s))"
  "l' \<noteq> l \<Longrightarrow> m_locks (acquired l s) l' = m_locks s l'" "\<not> IF_on (acquired l s)"
  by (simp_all add: acquired_def holds_def)

lemma acquire_ok [krun]: "cpu_ok s \<Longrightarrow> lock_free s l \<Longrightarrow> acquire l s = Ret () (acquired l s)"
  by (simp add: acquire_run lock_free_def)

lemma released_acquired:
  assumes "cpu_ok s" "lock_free s l"
  shows "released l (acquired l s) = s"
proof -
  have "released l (acquired l s) = popped ((pushed s)\<lparr>m_locks := m_locks s\<rparr>)"
    using assms(2) by (simp add: released_def acquired_def lock_free_def fun_upd_idem)
  also have "\<dots> = popped (pushed s)"
    by (simp add: pushed_def)
  finally show ?thesis by (simp add: popped_pushed assms(1))
qed

lemma release_acquired [krun]:
  assumes "cpu_ok s" "lock_free s l"
  shows "release l (acquired l s) = Ret () s"
  using assms cpu_okD(2) [OF assms(1)] by (simp add: release_run released_acquired)

text \<open>
  A critical section whose body leaves the CPUs and the locks alone has the body's effect on
  the rest of the state and nothing else. Field updates move under \<open>acquired\<close>.
\<close>

lemma acquired_mem [kframe]: "(acquired l s)\<lparr>m_mem := m\<rparr> = acquired l (s\<lparr>m_mem := m\<rparr>)"
  and acquired_cr3 [kframe]: "(acquired l s)\<lparr>m_cr3 := x\<rparr> = acquired l (s\<lparr>m_cr3 := x\<rparr>)"
proof -
  have 1: "pushed (s\<lparr>m_mem := m\<rparr>) = (pushed s)\<lparr>m_mem := m\<rparr>"
    and 2: "pushed (s\<lparr>m_cr3 := x\<rparr>) = (pushed s)\<lparr>m_cr3 := x\<rparr>"
    by (simp_all add: pushed_def IF_on_def cur_def)
  show "(acquired l s)\<lparr>m_mem := m\<rparr> = acquired l (s\<lparr>m_mem := m\<rparr>)"
    and "(acquired l s)\<lparr>m_cr3 := x\<rparr> = acquired l (s\<lparr>m_cr3 := x\<rparr>)"
    by (simp_all add: acquired_def 1 2)
qed

text \<open>Two locks held at once may have been taken in either order, and either may be released first.\<close>

lemma acquired_commute:
  assumes "l \<noteq> l'"
  shows "acquired l (acquired l' s) = acquired l' (acquired l s)"
proof -
  have "pushed (u\<lparr>m_locks := L\<rparr>) = (pushed u)\<lparr>m_locks := L\<rparr>" for u :: "'a mach_scheme" and L
    by (simp add: pushed_def IF_on_def cur_def)
  then show ?thesis
    using assms by (simp add: acquired_def fun_upd_twist)
qed

lemma release_under:
  assumes "cpu_ok s" "lock_free s l" "l \<noteq> l'"
  shows "release l (acquired l' (acquired l s)) = Ret () (acquired l' s)"
  using assms release_acquired [of "acquired l' s" l] by (simp add: acquired_commute [of l' l])

text \<open>Taking and releasing locks changes the CPUs, the interrupt flags and the locks, and nothing else.\<close>

definition beyond_cpus :: "('a mach_scheme \<Rightarrow> 'x) \<Rightarrow> bool" where
  "beyond_cpus f \<longleftrightarrow> (\<forall>s C. f (s\<lparr>m_cpus := C\<rparr>) = f s) \<and> (\<forall>s I. f (s\<lparr>m_IF := I\<rparr>) = f s)
     \<and> (\<forall>s L. f (s\<lparr>m_locks := L\<rparr>) = f s)"

lemma keeps_cpu [kkeep]:
  assumes "beyond_cpus f"
  shows "keeps f cli" "keeps f sti" "keeps f (upd_cpu c g)" "keeps f (upd_lock l h)" "keeps f mycpu"
  using assms unfolding cli_def sti_def upd_cpu_def upd_lock_def mycpu_def readeflags_IF_def beyond_cpus_def
  by (auto intro!: kkeep)

lemma keeps_locking [kkeep]:
  assumes "beyond_cpus f"
  shows "keeps f pushcli" "keeps f popcli" "keeps f myproc" "keeps f (holding l)" "keeps f (acquire l)"
    "keeps f (release l)"
  using assms
  unfolding acquire_def release_def holding_def myproc_def pushcli_def popcli_def readeflags_IF_def
  by (auto intro!: kkeep)

section \<open>Nesting of interrupt-disabling sections\<close>

lemma cpu_ok_pushed_pow: "cpu_ok s \<Longrightarrow> cpu_ok ((pushed ^^ n) s)"
  by (induction n) simp_all

lemma times_pushcli: "cpu_ok s \<Longrightarrow> times n pushcli s = Ret () ((pushed ^^ n) s)"
proof (induction n arbitrary: s)
  case (Suc n)
  then show ?case
    by (simp add: kseq_run pushcli_run cpu_okD(1) funpow_swap1)
qed simp

lemma times_popcli: "cpu_ok s \<Longrightarrow> times n popcli ((pushed ^^ n) s) = Ret () s"
proof (induction n)
  case (Suc n)
  have ok: "cpu_ok ((pushed ^^ n) s)" using Suc.prems by (rule cpu_ok_pushed_pow)
  have "popcli (pushed ((pushed ^^ n) s)) = Ret () ((pushed ^^ n) s)"
    using cpu_okD [OF ok] popped_pushed [OF ok] by (simp add: popcli_run)
  then show ?case using Suc by (simp add: kseq_run)
qed simp

section \<open>The lock discipline of interleaved CPUs\<close>

definition discipline :: "mach \<Rightarrow> bool" where
  "discipline s \<longleftrightarrow> inj_on (\<lambda>c. c_apicid (m_cpus s c)) {..<m_ncpu s}
     \<and> (\<forall>l. lock_free s l \<or> (\<exists>c<m_ncpu s. holds s c l))
     \<and> (\<forall>c<m_ncpu s. finite {l. holds s c l} \<and> c_ncli (m_cpus s c) = int (card {l. holds s c l})
          \<and> (0 < c_ncli (m_cpus s c) \<longrightarrow> \<not> m_IF s (c_apicid (m_cpus s c)))
          \<and> (c_ncli (m_cpus s c) = 0 \<longrightarrow> c_intena (m_cpus s c) = m_IF s (c_apicid (m_cpus s c))))"

lemma discipline_boot: "cpus_boot s \<Longrightarrow> discipline s"
  by (auto simp: cpus_boot_def discipline_def lock_free_def holds_def)

lemma cpuno_Some: "cpuno s = Some c \<Longrightarrow> c < m_ncpu s \<and> c_apicid (m_cpus s c) = m_lapicid s"
  by (auto simp: cpuno_def find_upt_Some)

lemma discipline_cpu_ok:
  assumes "discipline s" "cpuno s \<noteq> None"
  shows "cpu_ok s" "cur s < m_ncpu s" "c_apicid (m_cpus s (cur s)) = m_lapicid s"
proof -
  obtain c where c: "cpuno s = Some c" using assms(2) by auto
  then show "cur s < m_ncpu s" "c_apicid (m_cpus s (cur s)) = m_lapicid s"
    using cpuno_Some [OF c] by (simp_all add: cur_def)
  then show "cpu_ok s"
    using assms unfolding cpu_ok_def discipline_def IF_on_def by auto
qed

lemma pushcli_no_cpu: "cpuno s = None \<Longrightarrow> \<exists>t. pushcli s = Stop (Panic ''unknown apicid'') t"
  by (simp add: pushcli_def readeflags_IF_def cli_def kbind_run kseq_run mycpu_def)

lemma acquire_Ret:
  assumes "discipline s" "acquire l s = Ret () t"
  shows "lock_free s l \<and> cpuno s \<noteq> None \<and> t = acquired l s"
proof -
  have c: "cpuno s \<noteq> None"
    using assms(2) pushcli_no_cpu [of s] by (auto simp: acquire_def kseq_run split: outcome.splits)
  note ok = discipline_cpu_ok [OF assms(1) c]
  have "\<not> lk_locked (m_locks s l)"
    using assms(2) acquire_spin [OF ok(1)] acquire_held [OF ok(1)] by fastforce
  then show ?thesis
    using assms c acquire_run [OF ok(1)] by (auto simp: discipline_def holds_def)
qed

lemma release_Ret:
  assumes "discipline s" "release l s = Ret () t"
  shows "holds s (cur s) l \<and> cpuno s \<noteq> None \<and> t = released l s"
proof -
  have c: "cpuno s \<noteq> None"
    using assms(2) pushcli_no_cpu [of s]
    by (auto simp: release_def holding_def kbind_run kseq_run split: outcome.splits)
  note ok = discipline_cpu_ok [OF assms(1) c]
  have h: "holds s (cur s) l"
    using assms(2) release_not_held [OF ok(1)] by fastforce
  then have "0 < card {l. holds s (cur s) l}"
    using assms(1) ok(2) by (auto simp: discipline_def card_gt_0_iff)
  then have "0 < c_ncli (m_cpus s (cur s))"
    using assms(1) ok(2) by (simp add: discipline_def)
  then show ?thesis using assms(2) c h release_run [OF ok(1) h] by simp
qed

lemma held_acquired:
  assumes "lock_free s l"
  shows "{k. holds (acquired l s) c k} = (if c = cur s then insert l {k. holds s c k} else {k. holds s c k})"
  using assms by (auto simp: holds_def acquired_def lock_free_def)

lemma held_released:
  assumes "holds s (cur s) l"
  shows "{k. holds (released l s) c k} = {k. holds s c k} - {l}"
  by (auto simp: holds_def released_def)

lemma m_cpus_acquired: "m_cpus (acquired l s) = (m_cpus s)(cur s := push_cpu (IF_on s) (m_cpus s (cur s)))"
  and m_IF_acquired: "m_IF (acquired l s) = (m_IF s)(m_lapicid s := False)"
  by (simp_all add: acquired_def pushed_def)

lemma m_cpus_released: "m_cpus (released l s) = (m_cpus s)(cur s := pop_cpu (m_cpus s (cur s)))"
  and m_IF_released: "m_IF (released l s) = (m_IF s)(m_lapicid s :=
       IF_on s \<or> c_ncli (m_cpus s (cur s)) = 1 \<and> c_intena (m_cpus s (cur s)))"
  by (simp_all add: released_def popped_def IF_on_def)

lemma cpu_fields_step [simp]:
  "m_ncpu (released l s) = m_ncpu s"
  "c_apicid (m_cpus (acquired l s) c) = c_apicid (m_cpus s c)"
  "c_apicid (m_cpus (released l s) c) = c_apicid (m_cpus s c)"
  by (simp_all add: acquired_def released_def pushed_def popped_def)

lemma other_apicid:
  assumes "discipline s" "cpuno s \<noteq> None" "c < m_ncpu s" "c \<noteq> cur s"
  shows "c_apicid (m_cpus s c) \<noteq> m_lapicid s"
  using discipline_cpu_ok [OF assms(1,2)] assms
  by (metis (no_types, lifting) discipline_def inj_on_eq_iff lessThan_iff)

lemma discipline_acquired:
  assumes d: "discipline s" and c: "cpuno s \<noteq> None" and l: "lock_free s l"
  shows "discipline (acquired l s)"
proof -
  note ok = discipline_cpu_ok [OF d c]
  have nl: "\<not> holds s k l" for k using l by (simp add: lock_free_def holds_def)
  have locks: "lock_free (acquired l s) k \<or> (\<exists>x<m_ncpu s. holds (acquired l s) x k)" for k
  proof (cases "k = l")
    case False
    then show ?thesis using d by (simp add: discipline_def holds_def)
  qed (use ok in auto)
  have "finite {k. holds (acquired l s) x k}
      \<and> c_ncli (m_cpus (acquired l s) x) = int (card {k. holds (acquired l s) x k})
      \<and> (0 < c_ncli (m_cpus (acquired l s) x) \<longrightarrow> \<not> m_IF (acquired l s) (c_apicid (m_cpus s x)))
      \<and> (c_ncli (m_cpus (acquired l s) x) = 0 \<longrightarrow>
            c_intena (m_cpus (acquired l s) x) = m_IF (acquired l s) (c_apicid (m_cpus s x)))"
    if x: "x < m_ncpu s" for x
  proof (cases "x = cur s")
    case True
    then show ?thesis
      using d x ok nl by (simp add: held_acquired [OF l] m_cpus_acquired m_IF_acquired discipline_def)
  next
    case False
    then show ?thesis
      using d x other_apicid [OF d c x False]
      by (simp add: held_acquired [OF l] m_cpus_acquired m_IF_acquired discipline_def)
  qed
  then show ?thesis
    using d locks unfolding discipline_def by simp
qed

lemma discipline_released:
  assumes d: "discipline s" and c: "cpuno s \<noteq> None" and h: "holds s (cur s) l"
  shows "discipline (released l s)"
proof -
  note ok = discipline_cpu_ok [OF d c]
  have nl: "k = cur s" if "holds s k l" for k using h that by (simp add: holds_def)
  have locks: "lock_free (released l s) k \<or> (\<exists>x<m_ncpu s. holds (released l s) x k)" for k
  proof (cases "k = l")
    case True
    then show ?thesis by (simp add: lock_free_def released_def)
  next
    case False
    then show ?thesis using d by (simp add: discipline_def holds_def lock_free_def released_def)
  qed
  have n: "c_ncli (m_cpus s (cur s)) = int (card {k. holds s (cur s) k})"
    "finite {k. holds s (cur s) k}"
    using d ok(2) by (simp_all add: discipline_def)
  have card: "int (card ({k. holds s (cur s) k} - {l})) = c_ncli (m_cpus s (cur s)) - 1"
    using n h card_Suc_Diff1 [OF n(2), of l] by simp
  have "finite {k. holds (released l s) x k}
      \<and> c_ncli (m_cpus (released l s) x) = int (card {k. holds (released l s) x k})
      \<and> (0 < c_ncli (m_cpus (released l s) x) \<longrightarrow> \<not> m_IF (released l s) (c_apicid (m_cpus s x)))
      \<and> (c_ncli (m_cpus (released l s) x) = 0 \<longrightarrow>
            c_intena (m_cpus (released l s) x) = m_IF (released l s) (c_apicid (m_cpus s x)))"
    if x: "x < m_ncpu s" for x
  proof (cases "x = cur s")
    case True
    have "\<not> IF_on s" using ok(1) n card by (auto simp: cpu_ok_def)
    with True show ?thesis
      using n card ok by (simp add: held_released [OF h] m_cpus_released m_IF_released)
  next
    case False
    then have "{k. holds s x k} - {l} = {k. holds s x k}" using nl [of x] by auto
    then show ?thesis
      using d x other_apicid [OF d c x False] False
      by (simp add: held_released [OF h] m_cpus_released m_IF_released discipline_def)
  qed
  then show ?thesis
    using d locks unfolding discipline_def by simp
qed

lemma discipline_step:
  assumes "cpu_step s t" "discipline s"
  shows "discipline t"
  using assms
proof cases
  case (switch a)
  then show ?thesis using assms(2) by (simp add: discipline_def lock_free_def holds_def)
next
  case (acquires l)
  then show ?thesis using acquire_Ret [OF assms(2)] discipline_acquired [OF assms(2)] by metis
next
  case (releases l)
  then show ?thesis using release_Ret [OF assms(2)] discipline_released [OF assms(2)] by metis
qed

lemma discipline_reach: "cpu_reach s \<Longrightarrow> discipline s"
  by (induction rule: cpu_reach.induct) (auto intro: discipline_boot discipline_step)

section \<open>Properties\<close>

text \<open>
  A machine with two CPUs and all locks free, the first CPU executing with interrupts on: an
  input for the examples below.
\<close>

definition two_cpus :: mach where
  "two_cpus = \<lparr>m_mem = (\<lambda>_. 0), m_IF = (\<lambda>_. True), m_lapicid = 0, m_cr3 = (\<lambda>_. 0), m_ncpu = 2,
     m_cpus = (\<lambda>i. \<lparr>c_apicid = of_nat i, c_scheduler = 0, c_ts_esp0 = 0, c_ts_ss0 = 0, c_ts_iomb = 0,
        c_gdt = (\<lambda>_. \<lparr>sd_lim_15_0 = 0, sd_base_15_0 = 0, sd_base_23_16 = 0, sd_type = 0, sd_s = 0,
          sd_dpl = 0, sd_p = 0, sd_lim_19_16 = 0, sd_avl = 0, sd_rsv1 = 0, sd_db = 0, sd_g = 0,
          sd_base_31_24 = 0\<rparr>),
        c_started = True, c_ncli = 0, c_intena = True, c_proc = None\<rparr>),
     m_locks = (\<lambda>_. \<lparr>lk_locked = False, lk_name = '''', lk_cpu = None\<rparr>)\<rparr>"

lemma two_cpus_cpuno: "cpuno two_cpus = Some 0"
  by (simp add: cpuno_def two_cpus_def upt_rec)

lemma two_cpus_ok: "cpu_ok two_cpus" "lock_free two_cpus l" "cpus_boot two_cpus"
proof -
  show "cpu_ok two_cpus"
    using two_cpus_cpuno by (simp add: cpu_ok_def cur_def IF_on_def two_cpus_def)
  show "lock_free two_cpus l" by (simp add: lock_free_def two_cpus_def)
  have "inj_on (\<lambda>c. of_nat c :: 8 word) {..<2}"
    by (auto simp: inj_on_def less_2_cases_iff)
  then show "cpus_boot two_cpus"
    by (auto simp: cpus_boot_def two_cpus_def lock_free_def)
qed

lemma pushed_pow:
  "c_ncli (m_cpus ((pushed ^^ k) s) (cur s)) = c_ncli (m_cpus s (cur s)) + int k
   \<and> cur ((pushed ^^ k) s) = cur s"
proof (induction k)
  case (Suc k)
  then show ?case using pushed_simps(6) [of "(pushed ^^ k) s"] by simp
qed simp





text \<open>
  C34. What \<open>acquire\<close> does, in each of the three cases: a free lock is taken and a following
  \<open>release\<close> restores the state exactly; a lock this CPU already holds makes it panic; a lock
  of another CPU makes it spin with interrupts off.
\<close>

theorem acquire_cases:
  assumes "cpu_ok s"
  shows "(lock_free s l \<longrightarrow> kseq (acquire l) (release l) s = Ret () s)
    \<and> (holds s (cur s) l \<longrightarrow> acquire l s = Stop (Panic ''acquire'') (pushed s))
    \<and> (holds s d l \<and> d \<noteq> cur s \<longrightarrow> acquire l s = Stop (Spinning l) (pushed s))"
proof -
  have "kseq (acquire l) (release l) s = Ret () s" if "lock_free s l"
    using that assms by (simp add: kseq_run acquire_ok release_acquired)
  moreover have "acquire l s = Stop (Spinning l) (pushed s)" if "holds s d l" "d \<noteq> cur s"
    using that by (intro acquire_spin [OF assms]) (auto simp: holds_def)
  ultimately show ?thesis using acquire_held [OF assms] by blast
qed

theorem acquire_cases_witness:
  "kseq (acquire KmemLock) (release KmemLock) two_cpus = Ret () two_cpus
   \<and> acquire KmemLock (acquired KmemLock two_cpus)
       = Stop (Panic ''acquire'') (pushed (acquired KmemLock two_cpus))"
  using acquire_cases [OF two_cpus_ok(1), of KmemLock]
    acquire_cases [OF acquired_simps(1) [OF two_cpus_ok(1)], of KmemLock KmemLock]
    two_cpus_ok(2) acquired_simps(2,4) [of KmemLock two_cpus] by simp

end
