(* ===== verification/Strings.thy ===== *)
theory Strings
  imports Params
begin

text \<open>
  The kernel's memory and string routines, \<^verbatim>\<open>src/string.c\<close>, over byte-addressed memory.
  A loop that counts down an unsigned \<^verbatim>\<open>n\<close> is a recursion on the number of iterations
  left; pointers are 32-bit addresses and wrap around. Loops that only a NUL byte ends
  (\<^verbatim>\<open>strlen\<close>) are partial. \<open>cstr\<close> relates a pointer to the string it denotes.
\<close>

section \<open>Fills\<close>

primrec stosb :: "memory \<Rightarrow> addr \<Rightarrow> uint \<Rightarrow> nat \<Rightarrow> memory" where
  "stosb m a c 0 = m"
| "stosb m a c (Suc n) = stosb (m(a := ucast c)) (a + 1) c n"

primrec stosl :: "memory \<Rightarrow> addr \<Rightarrow> uint \<Rightarrow> nat \<Rightarrow> memory" where
  "stosl m a v 0 = m"
| "stosl m a v (Suc n) = stosl (store32 m a v) (a + 4) v n"

definition memset :: "memory \<Rightarrow> addr \<Rightarrow> uint \<Rightarrow> uint \<Rightarrow> memory" where
  "memset m dst c n =
     (if dst mod 4 = 0 \<and> n mod 4 = 0
      then let c = c AND 0xFF
           in stosl m dst (push_bit 24 c OR push_bit 16 c OR push_bit 8 c OR c) (unat (n div 4))
      else stosb m dst c (unat n))"

section \<open>Comparison and copying\<close>

fun memcmp :: "memory \<Rightarrow> addr \<Rightarrow> addr \<Rightarrow> nat \<Rightarrow> int" where
  "memcmp m s1 s2 0 = 0"
| "memcmp m s1 s2 (Suc n) =
     (if m s1 \<noteq> m s2 then uint (m s1) - uint (m s2) else memcmp m (s1 + 1) (s2 + 1) n)"

text \<open>\<^verbatim>\<open>*--d = *--s\<close> and \<^verbatim>\<open>*d++ = *s++\<close>, \<open>n\<close> times.\<close>

primrec copy_down :: "memory \<Rightarrow> addr \<Rightarrow> addr \<Rightarrow> nat \<Rightarrow> memory" where
  "copy_down m d s 0 = m"
| "copy_down m d s (Suc n) = copy_down (m(d - 1 := m (s - 1))) (d - 1) (s - 1) n"

primrec copy_up :: "memory \<Rightarrow> addr \<Rightarrow> addr \<Rightarrow> nat \<Rightarrow> memory" where
  "copy_up m d s 0 = m"
| "copy_up m d s (Suc n) = copy_up (m(d := m s)) (d + 1) (s + 1) n"

definition memmove :: "memory \<Rightarrow> addr \<Rightarrow> addr \<Rightarrow> uint \<Rightarrow> memory" where
  "memmove m dst src n =
     (if src < dst \<and> src + n > dst
      then copy_down m (dst + n) (src + n) (unat n)
      else copy_up m dst src (unat n))"

definition memcpy :: "memory \<Rightarrow> addr \<Rightarrow> addr \<Rightarrow> uint \<Rightarrow> memory" where
  "memcpy m dst src n = memmove m dst src n"

section \<open>Strings\<close>

fun strncmp :: "memory \<Rightarrow> addr \<Rightarrow> addr \<Rightarrow> nat \<Rightarrow> int" where
  "strncmp m p q 0 = 0"
| "strncmp m p q (Suc n) =
     (if m p \<noteq> 0 \<and> m p = m q then strncmp m (p + 1) (q + 1) n else uint (m p) - uint (m q))"

text \<open>
  \<^verbatim>\<open>strncpy\<close> copies until it has copied a NUL or \<open>n\<close> bytes, then pads with NULs.
\<close>

primrec strncpy_pad :: "memory \<Rightarrow> addr \<Rightarrow> nat \<Rightarrow> memory" where
  "strncpy_pad m s 0 = m"
| "strncpy_pad m s (Suc n) = strncpy_pad (m(s := 0)) (s + 1) n"

fun strncpy_copy :: "memory \<Rightarrow> addr \<Rightarrow> addr \<Rightarrow> nat \<Rightarrow> memory" where
  "strncpy_copy m s t 0 = m"
| "strncpy_copy m s t (Suc n) =
     (let c = m t; m' = m(s := c)
      in if c \<noteq> 0 then strncpy_copy m' (s + 1) (t + 1) n else strncpy_pad m' (s + 1) n)"

definition strncpy :: "memory \<Rightarrow> addr \<Rightarrow> addr \<Rightarrow> int \<Rightarrow> memory" where
  "strncpy m s t n = strncpy_copy m s t (nat n)"

text \<open>
  \<^verbatim>\<open>safestrcpy\<close> copies at most \<open>n - 1\<close> bytes and always writes a final NUL.
\<close>

fun safestrcpy_copy :: "memory \<Rightarrow> addr \<Rightarrow> addr \<Rightarrow> nat \<Rightarrow> memory" where
  "safestrcpy_copy m s t 0 = m(s := 0)"
| "safestrcpy_copy m s t (Suc n) =
     (let c = m t; m' = m(s := c)
      in if c \<noteq> 0 then safestrcpy_copy m' (s + 1) (t + 1) n else m'(s + 1 := 0))"

definition safestrcpy :: "memory \<Rightarrow> addr \<Rightarrow> addr \<Rightarrow> int \<Rightarrow> memory" where
  "safestrcpy m s t n = (if n \<le> 0 then m else safestrcpy_copy m s t (nat (n - 1)))"

partial_function (option) strlen_from :: "memory \<Rightarrow> addr \<Rightarrow> nat \<Rightarrow> nat option" where
  "strlen_from m s n = (if m (s + of_nat n) = 0 then Some n else strlen_from m s (Suc n))"

definition strlen :: "memory \<Rightarrow> addr \<Rightarrow> nat option" where
  "strlen m s = strlen_from m s 0"

text \<open>A pointer and the NUL-terminated string it points to.\<close>

definition cstr :: "memory \<Rightarrow> addr \<Rightarrow> uchar list \<Rightarrow> bool" where
  "cstr m a bs \<longleftrightarrow> 0 \<notin> set bs \<and> bytes_at m a (length bs) = bs \<and> m (a + of_nat (length bs)) = 0"

section \<open>Closed forms of the fills\<close>

lemma unat_minus_1: "unat (- 1 :: uint) = 4294967295"
  by (simp add: unsigned_minus_1_eq_mask mask_eq_exp_minus_1)

lemma unat_pred: "(w :: uint) \<noteq> 0 \<Longrightarrow> unat (w - 1) = unat w - 1"
  by (simp add: unat_minus_one)

lemma unat_diff_Suc:
  fixes x a :: uint
  assumes "x \<noteq> a"
  shows "unat (x - a) < Suc n \<longleftrightarrow> unat (x - (a + 1)) < n"
proof -
  have nz: "x - a \<noteq> 0" using assms by simp
  then have "unat (x - a) \<noteq> 0" by (simp add: unat_eq_0)
  moreover have "unat (x - (a + 1)) = unat (x - a) - 1"
    using unat_pred [OF nz] by (simp add: algebra_simps)
  ultimately show ?thesis by arith
qed

lemma stosb_eq:
  assumes "n \<le> 2 ^ 32"
  shows "stosb m a c n = (\<lambda>x. if unat (x - a) < n then ucast c else m x)"
  using assms
proof (induction n arbitrary: m a)
  case (Suc n)
  then have "stosb m a c (Suc n) =
      (\<lambda>x. if unat (x - (a + 1)) < n then ucast c else (m(a := ucast c)) x)"
    by simp
  also have "\<dots> = (\<lambda>x. if unat (x - a) < Suc n then ucast c else m x)"
    by (rule ext, case_tac "x = a") (simp_all add: unat_diff_Suc)
  finally show ?case .
qed (simp add: fun_eq_iff)

lemma stosb_add: "stosb m a c (n + k) = stosb (stosb m a c n) (a + of_nat n) c k"
  by (induction n arbitrary: m a) (simp_all add: add.assoc)

text \<open>A word whose four bytes agree fills like its byte.\<close>

lemma store32_uniform:
  assumes "ucast (drop_bit 8 v) = (ucast v :: uchar)" "ucast (drop_bit 16 v) = (ucast v :: uchar)"
    "ucast (drop_bit 24 v) = (ucast v :: uchar)"
  shows "store32 m a v = stosb m a v 4"
  using assms by (simp add: store32_def numeral_eq_Suc add.assoc)

lemma stosl_uniform:
  assumes "ucast (drop_bit 8 v) = (ucast v :: uchar)" "ucast (drop_bit 16 v) = (ucast v :: uchar)"
    "ucast (drop_bit 24 v) = (ucast v :: uchar)"
  shows "stosl m a v n = stosb m a v (4 * n)"
proof (induction n arbitrary: m a)
  case (Suc n)
  have "stosb m a v (4 * Suc n) = stosb (stosb m a v 4) (a + 4) v (4 * n)"
    using stosb_add [of m a v 4 "4 * n"] by (simp add: add.commute)
  then show ?case using Suc by (simp add: store32_uniform [OF assms])
qed simp

lemma stosb_ucast: "ucast c = (ucast d :: uchar) \<Longrightarrow> stosb m a c n = stosb m a d n"
  by (induction n arbitrary: m a) simp_all

lemma memset_pattern:
  fixes c :: uint
  defines "w \<equiv> push_bit 24 (c AND 0xFF) OR push_bit 16 (c AND 0xFF) OR push_bit 8 (c AND 0xFF)
    OR (c AND 0xFF)"
  shows "ucast w = (ucast c :: uchar)" "ucast (drop_bit 8 w) = (ucast c :: uchar)"
    "ucast (drop_bit 16 w) = (ucast c :: uchar)" "ucast (drop_bit 24 w) = (ucast c :: uchar)"
proof -
  have m: "(0xFF :: uint) = mask 8" by (simp add: mask_eq_exp_minus_1)
  show "ucast w = (ucast c :: uchar)" "ucast (drop_bit 8 w) = (ucast c :: uchar)"
    "ucast (drop_bit 16 w) = (ucast c :: uchar)" "ucast (drop_bit 24 w) = (ucast c :: uchar)"
    unfolding w_def m
    by (rule bit_word_eqI, auto simp: bit_or_iff bit_push_bit_iff bit_ucast_iff bit_drop_bit_eq
      bit_and_iff bit_mask_iff)+
qed

lemma memset_stosb: "memset m dst c n = stosb m dst c (unat n)"
proof (cases "dst mod 4 = 0 \<and> n mod 4 = 0")
  case True
  have "unat (n mod 4) = unat n mod 4" by (simp add: unat_mod)
  with True have "unat n mod 4 = 0" by simp
  then have d: "4 * unat (n div 4) = unat n"
    by (simp add: unat_div) presburger
  define w where "w = push_bit 24 (c AND 0xFF) OR push_bit 16 (c AND 0xFF)
    OR push_bit 8 (c AND 0xFF) OR (c AND 0xFF)"
  note pat = memset_pattern [of c, folded w_def]
  have "memset m dst c n = stosl m dst w (unat (n div 4))"
    unfolding memset_def Let_def w_def by (rule if_P [OF True])
  also have "\<dots> = stosb m dst c (unat n)"
    using stosl_uniform [of w m dst "unat (n div 4)"] pat d stosb_ucast [OF pat(1)] by simp
  finally show ?thesis .
next
  case False
  show ?thesis unfolding memset_def Let_def by (rule if_not_P [OF False])
qed

lemma memset_eq: "memset m dst c n = write_bytes m dst (replicate (unat n) (ucast c))"
  using unat_lt32 [of n] by (auto simp: memset_stosb stosb_eq write_bytes_def fun_eq_iff)

section \<open>Copies\<close>

lemma word_minus_Suc: "(x :: uint) \<noteq> a \<Longrightarrow> unat (x - a) = Suc (unat (x - (a + 1)))"
proof -
  assume "x \<noteq> a"
  then have nz: "x - a \<noteq> 0" by simp
  then have "unat (x - a) \<noteq> 0" by (simp add: unat_eq_0)
  then show ?thesis using unat_pred [OF nz] by (simp add: algebra_simps)
qed

lemma copy_up_eq:
  assumes "n \<le> 2 ^ 32"
    and "\<And>i j. i < j \<Longrightarrow> j < n \<Longrightarrow> d + of_nat i \<noteq> s + of_nat j"
  shows "copy_up m d s n = (\<lambda>x. if unat (x - d) < n then m (s + (x - d)) else m x)"
  using assms
proof (induction n arbitrary: m d s)
  case (Suc n)
  have pre: "d + 1 + of_nat i \<noteq> s + 1 + of_nat j" if "i < j" "j < n" for i j
    using Suc.prems(2) [of "Suc i" "Suc j"] that by (simp add: algebra_simps)
  have "copy_up m d s (Suc n) = (\<lambda>x. if unat (x - (d + 1)) < n
      then (m(d := m s)) (s + 1 + (x - (d + 1))) else (m(d := m s)) x)"
    unfolding copy_up.simps by (rule Suc.IH) (use Suc.prems(1) pre in auto)
  also have "\<dots> = (\<lambda>x. if unat (x - d) < Suc n then m (s + (x - d)) else m x)"
  proof
    fix x
    show "(if unat (x - (d + 1)) < n
      then (m(d := m s)) (s + 1 + (x - (d + 1))) else (m(d := m s)) x) =
      (if unat (x - d) < Suc n then m (s + (x - d)) else m x)"
    proof (cases "x = d")
      case True
      then show ?thesis using Suc.prems(1) by simp
    next
      case False
      have "s + (x - d) \<noteq> d" if "unat (x - d) < Suc n"
        using Suc.prems(2) [of 0 "unat (x - d)"] False that by (auto simp: unat_gt_0)
      then show ?thesis
        using False by (auto simp: unat_diff_Suc algebra_simps)
    qed
  qed
  finally show ?case .
qed (simp add: fun_eq_iff)

lemma copy_down_eq:
  assumes "n \<le> 2 ^ 32"
    and "\<And>i j. i < j \<Longrightarrow> j < n \<Longrightarrow> d - 1 - of_nat i \<noteq> s - 1 - of_nat j"
  shows "copy_down m d s n = (\<lambda>x. if unat (d - 1 - x) < n then m (s - (d - x)) else m x)"
  using assms
proof (induction n arbitrary: m d s)
  case (Suc n)
  let ?m = "m(d - 1 := m (s - 1))"
  have pre: "(d - 1) - 1 - of_nat i \<noteq> (s - 1) - 1 - of_nat j" if "i < j" "j < n" for i j
    using Suc.prems(2) [of "Suc i" "Suc j"] that by (simp add: algebra_simps)
  have "copy_down m d s (Suc n) =
      (\<lambda>x. if unat (d - 1 - 1 - x) < n then ?m (s - 1 - (d - 1 - x)) else ?m x)"
    unfolding copy_down.simps by (rule Suc.IH) (use Suc.prems(1) pre in auto)
  also have "\<dots> = (\<lambda>x. if unat (d - 1 - x) < Suc n then m (s - (d - x)) else m x)"
  proof
    fix x
    show "(if unat (d - 1 - 1 - x) < n then ?m (s - 1 - (d - 1 - x)) else ?m x) =
      (if unat (d - 1 - x) < Suc n then m (s - (d - x)) else m x)"
    proof (cases "x = d - 1")
      case True
      then show ?thesis using Suc.prems(1) by simp
    next
      case False
      then have S: "unat (d - 1 - x) = Suc (unat (d - 1 - 1 - x))"
        using word_minus_Suc [of "d - 1" x] by (simp add: algebra_simps)
      have "s - (d - x) \<noteq> d - 1" if "unat (d - 1 - x) < Suc n"
        using Suc.prems(2) [of 0 "unat (d - 1 - x)"] S that by (auto simp: algebra_simps)
      then show ?thesis
        using False S by (auto simp: algebra_simps)
    qed
  qed
  finally show ?case .
qed (simp add: fun_eq_iff)

lemma unat_add_of_nat:
  fixes a :: uint
  assumes "unat a + n < 2 ^ 32"
  shows "unat (a + of_nat n) = unat a + n"
  using assms by (simp add: unat_word_ariths unat_of_nat)

lemma unat_flip:
  fixes w n :: uint
  assumes "n \<noteq> 0"
  shows "unat (n - 1 - w) < unat n \<longleftrightarrow> unat w < unat n"
proof -
  have "unat n \<noteq> 0" using assms by (simp add: unat_eq_0)
  then show ?thesis
    using unat_lt32 [of n] unat_lt32 [of w] unat_pred [OF assms]
    by (auto simp: unat_sub_if')
qed

lemma word_add_neq:
  fixes a b :: uint
  assumes "unat a + i < 2 ^ 32" "unat b + j < 2 ^ 32" "unat a + i \<noteq> unat b + j"
  shows "a + of_nat i \<noteq> b + of_nat j"
  using assms by (metis unat_add_of_nat)

lemma write_bytes_bytes_at:
  "write_bytes m d (bytes_at m s n) = (\<lambda>x. if unat (x - d) < n then m (s + (x - d)) else m x)"
  by (auto simp: write_bytes_def fun_eq_iff)

lemma copy_up_correct:
  assumes "unat src + n < 2 ^ 32" "unat dst + n \<le> 2 ^ 32"
    and "unat dst \<le> unat src \<or> unat src + n \<le> unat dst"
  shows "copy_up m dst src n = write_bytes m dst (bytes_at m src n)"
  unfolding write_bytes_bytes_at
proof (rule copy_up_eq)
  fix i j assume "i < j" "j < n"
  then show "dst + of_nat i \<noteq> src + of_nat j"
    using assms by (intro word_add_neq) auto
qed (use assms in simp)

lemma copy_down_correct:
  assumes "unat src + unat n < 2 ^ 32" "unat dst + unat n \<le> 2 ^ 32" "src < dst"
  shows "copy_down m (dst + n) (src + n) (unat n) = write_bytes m dst (bytes_at m src (unat n))"
proof (cases "n = 0")
  case True
  then show ?thesis by (simp add: bytes_at_def)
next
  case False
  then have pos: "0 < unat n" by (simp add: unat_gt_0)
  have lt: "unat src < unat dst" using assms(3) by (simp add: word_less_nat_alt)
  have e: "a + n - 1 - of_nat k = a + of_nat (unat n - 1 - k)" if "k < unat n" for a :: uint and k
  proof -
    have "of_nat (unat n - 1 - k) = (n - 1 - of_nat k :: uint)"
      using that pos by (simp add: of_nat_diff)
    then show ?thesis by (simp add: algebra_simps)
  qed
  have "copy_down m (dst + n) (src + n) (unat n) =
      (\<lambda>x. if unat (dst + n - 1 - x) < unat n then m (src + n - (dst + n - x)) else m x)"
  proof (rule copy_down_eq)
    fix i j assume "i < j" "j < unat n"
    then have "dst + of_nat (unat n - 1 - i) \<noteq> src + of_nat (unat n - 1 - j)"
      using assms(1,2) lt by (intro word_add_neq) auto
    then show "dst + n - 1 - of_nat i \<noteq> src + n - 1 - of_nat j"
      using e [of i dst] e [of j src] \<open>i < j\<close> \<open>j < unat n\<close> by (metis less_trans)
  qed (use unat_lt32 [of n] in simp)
  also have "\<dots> = (\<lambda>x. if unat (x - dst) < unat n then m (src + (x - dst)) else m x)"
  proof
    fix x
    have "dst + n - 1 - x = n - 1 - (x - dst)" "src + n - (dst + n - x) = src + (x - dst)"
      by (simp_all add: algebra_simps)
    then show "(if unat (dst + n - 1 - x) < unat n then m (src + n - (dst + n - x)) else m x) =
        (if unat (x - dst) < unat n then m (src + (x - dst)) else m x)"
      using unat_flip [OF False, of "x - dst"] by presburger
  qed
  also have "\<dots> = write_bytes m dst (bytes_at m src (unat n))"
    by (simp add: write_bytes_bytes_at)
  finally show ?thesis .
qed

lemma memmove_eq:
  assumes "unat src + unat n < 2 ^ 32" "unat dst + unat n \<le> 2 ^ 32"
  shows "memmove m dst src n = write_bytes m dst (bytes_at m src (unat n))"
proof (cases "src < dst \<and> src + n > dst")
  case True
  then show ?thesis using assms copy_down_correct by (simp add: memmove_def)
next
  case False
  have "unat (src + n) = unat src + unat n"
    using assms(1) by (simp add: unat_word_ariths)
  with False have "unat dst \<le> unat src \<or> unat src + unat n \<le> unat dst"
    by (auto simp: word_less_nat_alt)
  moreover have "memmove m dst src n = copy_up m dst src (unat n)"
    unfolding memmove_def by (rule if_not_P [OF False])
  ultimately show ?thesis
    using assms copy_up_correct by simp
qed

section \<open>String routines on C strings\<close>

lemma cstr_nth: "cstr m a bs \<Longrightarrow> i < length bs \<Longrightarrow> m (a + of_nat i) = bs ! i \<and> bs ! i \<noteq> 0"
  unfolding cstr_def by (metis bytes_at_nth nth_mem)

lemma cstr_Nil: "cstr m a [] \<longleftrightarrow> m a = 0"
  by (simp add: cstr_def bytes_at_def)

lemma cstr_Cons: "cstr m a (b # bs) \<longleftrightarrow> b \<noteq> 0 \<and> m a = b \<and> cstr m (a + 1) bs"
proof -
  have "bytes_at m a (Suc n) = m a # bytes_at m (a + 1) n" for n
    by (simp add: bytes_at_def upt_conv_Cons map_Suc_upt [symmetric] add.assoc del: upt_Suc)
  then show ?thesis by (auto simp: cstr_def add.assoc)
qed

lemma strlen_from_cstr: "cstr m s bs \<Longrightarrow> n \<le> length bs \<Longrightarrow> strlen_from m s n = Some (length bs)"
proof (induction "length bs - n" arbitrary: n)
  case 0
  then show ?case by (simp add: strlen_from.simps cstr_def)
next
  case (Suc k)
  then have "n < length bs" by simp
  with Suc show ?case
    by (subst strlen_from.simps) (use cstr_nth in fastforce)
qed

lemma strncmp_cstr:
  "cstr m p bs \<Longrightarrow> cstr m q cs \<Longrightarrow> strncmp m p q n = 0 \<longleftrightarrow> take n bs = take n cs"
proof (induction n arbitrary: p q bs cs)
  case (Suc n)
  show ?case
    using Suc by (cases bs; cases cs) (auto simp: cstr_Nil cstr_Cons uint_0_iff word_uint_eq_iff [symmetric])
qed simp

text \<open>
  The destination of \<^verbatim>\<open>strncpy\<close> and \<^verbatim>\<open>safestrcpy\<close> must not overlap the source string.
\<close>

definition apart :: "addr \<Rightarrow> nat \<Rightarrow> addr \<Rightarrow> nat \<Rightarrow> bool" where
  "apart s n t k \<longleftrightarrow> (\<forall>i<n. \<forall>j<k. s + of_nat i \<noteq> t + of_nat j)"

lemma apart_Suc:
  assumes "apart s (Suc n) t (Suc k)"
  shows "apart (s + 1) n (t + 1) k" and "\<And>j. j < Suc k \<Longrightarrow> t + of_nat j \<noteq> s"
proof -
  have a: "s + of_nat i \<noteq> t + of_nat j" if "i < Suc n" "j < Suc k" for i j
    using assms that unfolding apart_def by blast
  have "s + 1 + of_nat i \<noteq> t + 1 + of_nat j" if "i < n" "j < k" for i j
    using a [of "Suc i" "Suc j"] that by (simp add: algebra_simps)
  then show "apart (s + 1) n (t + 1) k" by (simp add: apart_def)
  show "t + of_nat j \<noteq> s" if "j < Suc k" for j
    using a [of 0 j] that by simp
qed

lemma cstr_upd:
  assumes "cstr m t bs" and "\<And>j. j \<le> length bs \<Longrightarrow> t + of_nat j \<noteq> x"
  shows "cstr (m(x := c)) t bs"
proof -
  have "bytes_at (m(x := c)) t (length bs) = bytes_at m t (length bs)"
    using assms(2) by (auto simp: bytes_at_def)
  then show ?thesis using assms by (auto simp: cstr_def)
qed

lemma write_bytes_Cons:
  assumes "length bs < 2 ^ 32"
  shows "write_bytes m s (b # bs) = write_bytes (m(s := b)) (s + 1) bs"
proof
  fix x
  show "write_bytes m s (b # bs) x = write_bytes (m(s := b)) (s + 1) bs x"
    using assms
    by (cases "x = s") (auto simp: write_bytes_def word_minus_Suc unat_minus_1)
qed

lemma strncpy_pad_eq: "n \<le> 2 ^ 32 \<Longrightarrow> strncpy_pad m s n = write_bytes m s (replicate n 0)"
proof (induction n arbitrary: m s)
  case (Suc n)
  then show ?case by (simp add: write_bytes_Cons)
qed simp

lemma strncpy_copy_eq:
  assumes "cstr m t bs" "n \<le> 2 ^ 32" "apart s n t (Suc (length bs))"
  shows "strncpy_copy m s t n = write_bytes m s (take n (bs @ replicate n 0))"
  using assms
proof (induction n arbitrary: m s t bs)
  case (Suc n)
  show ?case
  proof (cases bs)
    case Nil
    then show ?thesis
      using Suc.prems by (simp add: cstr_Nil strncpy_pad_eq write_bytes_Cons)
  next
    case (Cons b cs)
    note ap = apart_Suc [OF Suc.prems(3)]
    have c: "b \<noteq> 0" "m t = b" "cstr m (t + 1) cs"
      using Suc.prems(1) Cons by (simp_all add: cstr_Cons)
    have "t + 1 + of_nat j \<noteq> s" if "j \<le> length cs" for j
      using ap(2) [of "Suc j"] that Cons by (simp add: algebra_simps)
    with c(3) have "cstr (m(s := b)) (t + 1) cs" by (rule cstr_upd)
    then have "strncpy_copy (m(s := b)) (s + 1) (t + 1) n =
        write_bytes (m(s := b)) (s + 1) (take n (cs @ replicate n 0))"
      by (rule Suc.IH) (use Suc.prems(2) ap(1) Cons in auto)
    moreover have "take n (cs @ 0 # replicate n 0) = take n (cs @ replicate n 0)"
      by (simp add: replicate_Suc [symmetric] del: replicate_Suc)
    ultimately show ?thesis
      using c Cons Suc.prems(2) by (simp add: Let_def write_bytes_Cons)
  qed
qed simp

lemma safestrcpy_copy_cstr:
  assumes "cstr m t bs" "n < 2 ^ 32" "apart s (Suc n) t (Suc (length bs))"
  shows "cstr (safestrcpy_copy m s t n) s (take n bs)"
    and "\<And>x. n < unat (x - s) \<Longrightarrow> safestrcpy_copy m s t n x = m x"
proof -
  have "cstr (safestrcpy_copy m s t n) s (take n bs) \<and>
    (\<forall>x. n < unat (x - s) \<longrightarrow> safestrcpy_copy m s t n x = m x)"
    using assms
  proof (induction n arbitrary: m s t bs)
    case 0
    then show ?case by (auto simp: cstr_Nil)
  next
    case (Suc n)
    show ?case
    proof (cases bs)
      case Nil
      then have "m t = 0" using Suc.prems(1) by (simp add: cstr_Nil)
      then show ?thesis
        using Nil word_minus_Suc [of _ s] by (auto simp: cstr_Nil Let_def)
    next
      case (Cons b cs)
      note ap = apart_Suc [OF Suc.prems(3)]
      have c: "b \<noteq> 0" "m t = b" "cstr m (t + 1) cs"
        using Suc.prems(1) Cons by (simp_all add: cstr_Cons)
      have "t + 1 + of_nat j \<noteq> s" if "j \<le> length cs" for j
        using ap(2) [of "Suc j"] that Cons by (simp add: algebra_simps)
      with c(3) have "cstr (m(s := b)) (t + 1) cs" by (rule cstr_upd)
      then have ih: "cstr (safestrcpy_copy (m(s := b)) (s + 1) (t + 1) n) (s + 1) (take n cs) \<and>
          (\<forall>x. n < unat (x - (s + 1)) \<longrightarrow>
             safestrcpy_copy (m(s := b)) (s + 1) (t + 1) n x = (m(s := b)) x)"
        by (rule Suc.IH) (use Suc.prems(2) ap(1) Cons in auto)
      have "n < unat (s - (s + 1))"
        using Suc.prems(2) by (simp add: unat_minus_1)
      with ih have "safestrcpy_copy (m(s := b)) (s + 1) (t + 1) n s = b" by simp
      moreover have "x \<noteq> s \<and> n < unat (x - (s + 1))" if "Suc n < unat (x - s)" for x
        using that word_minus_Suc [of x s] by (cases "x = s") auto
      ultimately show ?thesis
        using ih c Cons by (auto simp: Let_def cstr_Cons)
    qed
  qed
  then show "cstr (safestrcpy_copy m s t n) s (take n bs)"
    and "\<And>x. n < unat (x - s) \<Longrightarrow> safestrcpy_copy m s t n x = m x"
    by blast+
qed

section \<open>Properties\<close>

text \<open>
  C21. \<open>memmove\<close> copies the source bytes as they were before the call, whichever way the two ranges
  overlap, and changes nothing else. (The source range must end below the top of the address
  space, since the overlap test compares \<^verbatim>\<open>s + n\<close> with the destination.)
\<close>

theorem memmove_copies:
  assumes "unat src + unat n < 2 ^ 32" "unat dst + unat n \<le> 2 ^ 32"
  shows "bytes_at (memmove m dst src n) dst (unat n) = bytes_at m src (unat n)
    \<and> (\<forall>x. unat n \<le> unat (x - dst) \<longrightarrow> memmove m dst src n x = m x)"
proof -
  have "unat n \<le> 2 ^ 32" using unat_lt32 [of n] by simp
  then show ?thesis
    using memmove_eq [OF assms] bytes_at_write_bytes [of "bytes_at m src (unat n)" m dst]
    by (simp add: write_bytes_outside)
qed

theorem memmove_copies_witness:
  "bytes_at (memmove (\<lambda>x. ucast x) 101 100 3) 101 3 = [100, 101, 102]
   \<and> memmove (\<lambda>x. ucast x) 101 100 3 104 = 104"
proof -
  have "bytes_at (\<lambda>x. ucast x) 100 3 = ([100, 101, 102] :: uchar list)"
    by (simp add: bytes_at_def numeral_3_eq_3)
  moreover have "unat (3 :: uint) \<le> unat (104 - 101 :: uint)" by simp
  ultimately show ?thesis
    using memmove_copies [of 100 3 101 "\<lambda>x. ucast x"] by simp
qed

text \<open>
  C38. The fast path of \<open>memset\<close>, which stores words when the address and the length are multiples
  of four, writes the same memory as the byte loop.
\<close>

theorem memset_fast_path: "memset m dst c n = stosb m dst c (unat n)"
  by (rule memset_stosb)

text \<open>
  \<open>safestrcpy\<close> leaves in the destination the longest prefix of the source string that fits in
  \<open>n\<close> bytes, always NUL-terminated, and writes nothing beyond the \<open>n\<close> bytes.
\<close>

theorem safestrcpy_truncates:
  assumes "0 < n" "n \<le> 2 ^ 32" "cstr m t bs" "apart s (nat n) t (Suc (length bs))"
  shows "cstr (safestrcpy m s t n) s (take (nat n - 1) bs)
    \<and> (\<forall>x. nat n \<le> unat (x - s) \<longrightarrow> safestrcpy m s t n x = m x)"
proof -
  have n: "Suc (nat (n - 1)) = nat n" "nat (n - 1) < 2 ^ 32" using assms(1,2) by simp_all
  have "apart s (Suc (nat (n - 1))) t (Suc (length bs))" using assms(4) n(1) by simp
  note c = safestrcpy_copy_cstr [OF assms(3) n(2) this]
  have "nat n - 1 = nat (n - 1)" using n(1) by simp
  moreover have "nat (n - 1) < unat (x - s)" if "nat n \<le> unat (x - s)" for x
    using that n(1) by linarith
  ultimately show ?thesis
    using assms(1) c by (simp add: safestrcpy_def)
qed

theorem safestrcpy_truncates_witness:
  "cstr (safestrcpy (\<lambda>x. if x = 200 then 97 else if x = 201 then 98 else if x = 202 then 99 else 0) 100 200 3)
     100 [97, 98]"
proof -
  let ?m = "(\<lambda>x. if x = 200 then 97 else if x = 201 then 98 else if x = 202 then 99 else 0) :: memory"
  have "cstr ?m 200 [97, 98, 99]" by (simp add: cstr_Cons cstr_Nil)
  moreover have "apart 100 (nat 3) 200 (Suc (length [97, 98, 99 :: uchar]))"
    by (auto simp: apart_def less_Suc_eq numeral_3_eq_3)
  ultimately show ?thesis
    using safestrcpy_truncates [of 3 ?m 200 "[97, 98, 99]" 100] by simp
qed

end
