(* ===== verification/Kalloc.thy ===== *)
theory Kalloc
  imports Spinlock Strings
begin

text \<open>
  The physical page allocator, \<^verbatim>\<open>src/kalloc.c\<close>.

  Free pages are linked through their first word in memory (\<^verbatim>\<open>struct run\<close>), and the model
  keeps them there: \<open>flist\<close> says which pages the chain from the list head goes through. The
  state adds \<^verbatim>\<open>kmem\<close> and the linker symbol \<^verbatim>\<open>end\<close>. \<open>kalloc\<close> and \<open>kfree\<close> are shown to be
  the pop and the push of a stack of pages, through the locale \<open>page_stack\<close>.
\<close>

section \<open>State\<close>

record kmem =
  km_use_lock :: bool
  km_freelist :: addr

record kmach = mach +
  st_kmem :: kmem
  st_end :: addr
  st_klog :: "string list"

text \<open>
  Messages that the kernel prints. The other components print through \<open>kprint\<close>, which keeps the
  format strings in the order of the calls; \<^verbatim>\<open>cprintf\<close> itself is modelled with the console.
\<close>

definition kprint :: "string \<Rightarrow> ('a kmach_scheme, unit) K" where
  "kprint msg = kmod (\<lambda>s. s\<lparr>st_klog := st_klog s @ [msg]\<rparr>)"

section \<open>Operations\<close>

definition kmem_lock :: "('a kmach_scheme, unit) K" where
  "kmem_lock = kbind (kget (\<lambda>s. km_use_lock (st_kmem s))) (\<lambda>u. kwhen u (acquire KmemLock))"

definition kmem_unlock :: "('a kmach_scheme, unit) K" where
  "kmem_unlock = kbind (kget (\<lambda>s. km_use_lock (st_kmem s))) (\<lambda>u. kwhen u (release KmemLock))"

definition kfree :: "addr \<Rightarrow> ('a kmach_scheme, unit) K" where
  "kfree v =
     (if v = 0 then panic ''kfree: attempt to free null pointer''
      else kbind (kget st_end) (\<lambda>e.
        if v mod PGSIZE \<noteq> 0 \<or> v < e \<or> V2P v \<ge> PHYSTOP then panic ''kfree''
        else
          kseq (kmod (\<lambda>s. s\<lparr>m_mem := memset (m_mem s) v 1 PGSIZE\<rparr>)) (
          kseq kmem_lock (
          kseq (kmod (\<lambda>s. s\<lparr>m_mem := store32 (m_mem s) v (km_freelist (st_kmem s))\<rparr>)) (
          kseq (kmod (\<lambda>s. s\<lparr>st_kmem := (st_kmem s)\<lparr>km_freelist := v\<rparr>\<rparr>))
               kmem_unlock)))))"

definition kalloc :: "('a kmach_scheme, addr) K" where
  "kalloc =
     kseq kmem_lock (
     kbind (kget (\<lambda>s. km_freelist (st_kmem s))) (\<lambda>r.
     kseq (kwhen (r \<noteq> 0)
            (kmod (\<lambda>s. s\<lparr>st_kmem := (st_kmem s)\<lparr>km_freelist := load32 (m_mem s) r\<rparr>\<rparr>))) (
     kseq kmem_unlock (ret r))))"

text \<open>
  The loop of \<open>freerange\<close>. It advances by a page per turn and stops at the end of the range or
  at the panic of \<open>kfree\<close> above \<^verbatim>\<open>PHYSTOP\<close>; the fuel is the number of pages between the
  two addresses, plus one.
\<close>

primrec freerange_loop :: "nat \<Rightarrow> addr \<Rightarrow> addr \<Rightarrow> ('a kmach_scheme, unit) K" where
  "freerange_loop 0 p vend = kstop Diverge"
| "freerange_loop (Suc n) p vend =
     (if p + PGSIZE \<le> vend then kseq (kfree p) (freerange_loop n (p + PGSIZE) vend) else ret ())"

definition freerange :: "addr \<Rightarrow> addr \<Rightarrow> ('a kmach_scheme, unit) K" where
  "freerange vstart vend =
     (let p = PGROUNDUP vstart in freerange_loop (Suc (unat (vend - p) div 4096)) p vend)"

definition kinit1 :: "addr \<Rightarrow> addr \<Rightarrow> ('a kmach_scheme, unit) K" where
  "kinit1 vstart vend =
     kseq (initlock KmemLock ''kmem'') (
     kseq (kmod (\<lambda>s. s\<lparr>st_kmem := (st_kmem s)\<lparr>km_use_lock := False\<rparr>\<rparr>))
          (freerange vstart vend))"

definition kinit2 :: "addr \<Rightarrow> addr \<Rightarrow> ('a kmach_scheme, unit) K" where
  "kinit2 vstart vend =
     kseq (freerange vstart vend)
          (kmod (\<lambda>s. s\<lparr>st_kmem := (st_kmem s)\<lparr>km_use_lock := True\<rparr>\<rparr>))"

section \<open>Pages and the free list\<close>

definition kpage :: "addr \<Rightarrow> addr \<Rightarrow> bool" where
  "kpage e p \<longleftrightarrow> p \<noteq> 0 \<and> pgaligned p \<and> e \<le> p \<and> V2P p < PHYSTOP"

fun flist :: "memory \<Rightarrow> addr \<Rightarrow> addr list \<Rightarrow> bool" where
  "flist m a [] = (a = 0)"
| "flist m a (p # ps) = (a = p \<and> p \<noteq> 0 \<and> flist m (load32 m p) ps)"

definition free_pages :: "'a kmach_scheme \<Rightarrow> addr list \<Rightarrow> bool" where
  "free_pages s ps \<longleftrightarrow> flist (m_mem s) (km_freelist (st_kmem s)) ps \<and> distinct ps
     \<and> (\<forall>p\<in>set ps. kpage (st_end s) p)"

text \<open>The allocator can run: the CPU is in order and its lock, once in use, is free.\<close>

definition kmem_ready :: "'a kmach_scheme \<Rightarrow> bool" where
  "kmem_ready s \<longleftrightarrow> cpu_ok s \<and> (km_use_lock (st_kmem s) \<longrightarrow> lock_free s KmemLock)"

section \<open>Memory by pages\<close>

text \<open>Two memories agree on the page that contains an address.\<close>

definition page_eq :: "addr \<Rightarrow> memory \<Rightarrow> memory \<Rightarrow> bool" where
  "page_eq a m m' \<longleftrightarrow> (\<forall>x. PGROUNDDOWN x = PGROUNDDOWN a \<longrightarrow> m x = m' x)"

lemma page_eq_refl [simp]: "page_eq a m m"
  by (simp add: page_eq_def)

lemma page_eq_trans: "page_eq a m m' \<Longrightarrow> page_eq a m' m'' \<Longrightarrow> page_eq a m m''"
  by (simp add: page_eq_def)

lemma page_eq_sym: "page_eq a m m' \<Longrightarrow> page_eq a m' m"
  by (simp add: page_eq_def)

lemma PGROUNDDOWN_add4:
  assumes "aligned4 a" "k < 4"
  shows "PGROUNDDOWN (a + of_nat k) = PGROUNDDOWN a"
proof -
  obtain q where q: "unat a = 4 * q" using assms(1) by (auto simp: aligned4_def)
  have "(4 * q + k) div 4096 = q div 1024"
    using assms(2) div_mult2_eq [of "4 * q + k" 4 1024] by simp
  then have "(unat a + k) div 4096 = unat a div 4096" using q by simp
  then show ?thesis
    by (simp add: word_unat_eq_iff unat_PGROUNDDOWN unat_aligned_add [OF assms])
qed

lemma PGROUNDDOWN_add_1_2_3:
  assumes "aligned4 a"
  shows "PGROUNDDOWN (a + 1) = PGROUNDDOWN a" "PGROUNDDOWN (a + 2) = PGROUNDDOWN a"
    "PGROUNDDOWN (a + 3) = PGROUNDDOWN a"
  using PGROUNDDOWN_add4 [OF assms, of 1] PGROUNDDOWN_add4 [OF assms, of 2]
    PGROUNDDOWN_add4 [OF assms, of 3] by simp_all

lemma load32_page_eq:
  assumes "page_eq a m m'" "aligned4 a"
  shows "load32 m a = load32 m' a"
  using assms(1) PGROUNDDOWN_add_1_2_3 [OF assms(2)] by (simp add: load32_def page_eq_def)

lemma store32_page_eq:
  assumes "aligned4 a" "PGROUNDDOWN a \<noteq> PGROUNDDOWN b"
  shows "page_eq b (store32 m a v) m"
  unfolding page_eq_def store32_def
  using PGROUNDDOWN_add_1_2_3 [OF assms(1)] assms(2) by auto

lemma pgaligned_add_page:
  assumes "pgaligned v" "k < 4096"
  shows "unat (v + of_nat k) = unat v + k" "PGROUNDDOWN (v + of_nat k) = v"
proof -
  obtain q where q: "unat v = 4096 * q" using assms(1) by (auto simp: pgaligned_def)
  have "unat v + k < 2 ^ 32" using unat_lt32 [of v] q assms(2) by simp
  then show u: "unat (v + of_nat k) = unat v + k"
    using assms(2) by (simp add: unat_word_ariths unat_of_nat)
  show "PGROUNDDOWN (v + of_nat k) = v"
    using assms(2) q u by (simp add: word_unat_eq_iff unat_PGROUNDDOWN)
qed

lemma page_offset:
  assumes "pgaligned v"
  shows "unat (x - v) < 4096 \<longleftrightarrow> PGROUNDDOWN x = v"
proof
  assume "unat (x - v) < 4096"
  then show "PGROUNDDOWN x = v"
    using pgaligned_add_page(2) [OF assms, of "unat (x - v)"] by simp
next
  assume p: "PGROUNDDOWN x = v"
  have "unat v \<le> unat x" using PGROUNDDOWN_le [of x] p by (simp add: word_le_nat_alt)
  then have "unat (x - v) = unat x - unat v" by (simp add: unat_sub_if')
  also have "\<dots> < 4096" using p by (auto simp: unat_PGROUNDDOWN)
  finally show "unat (x - v) < 4096" .
qed

lemma memset_page_eq:
  assumes "pgaligned v" "PGROUNDDOWN b \<noteq> v"
  shows "page_eq b (memset m v c PGSIZE) m"
  using assms page_offset [OF assms(1)]
  by (auto simp: page_eq_def memset_eq write_bytes_def PGSIZE_def)

section \<open>Frame of the allocator state\<close>

lemma kmem_frame [simp]:
  "cpuno (s\<lparr>st_kmem := k\<rparr>) = cpuno s" "cur (s\<lparr>st_kmem := k\<rparr>) = cur s"
  "cpu_ok (s\<lparr>st_kmem := k\<rparr>) = cpu_ok s" "lock_free (s\<lparr>st_kmem := k\<rparr>) l = lock_free s l"
  "holds (s\<lparr>st_kmem := k\<rparr>) c l = holds s c l"
  by (simp_all add: cpuno_def cur_def cpu_ok_def lock_free_def holds_def IF_on_def)

lemma klog_frame [simp]:
  "cpuno (s\<lparr>st_klog := g\<rparr>) = cpuno s" "cur (s\<lparr>st_klog := g\<rparr>) = cur s"
  "cpu_ok (s\<lparr>st_klog := g\<rparr>) = cpu_ok s" "lock_free (s\<lparr>st_klog := g\<rparr>) l = lock_free s l"
  "holds (s\<lparr>st_klog := g\<rparr>) c l = holds s c l"
  by (simp_all add: cpuno_def cur_def cpu_ok_def lock_free_def holds_def IF_on_def)

lemma acquired_kmem [kframe]: "(acquired l s)\<lparr>st_kmem := k\<rparr> = acquired l (s\<lparr>st_kmem := k\<rparr>)"
  and acquired_klog [kframe]: "(acquired l s)\<lparr>st_klog := g\<rparr> = acquired l (s\<lparr>st_klog := g\<rparr>)"
  by (simp_all add: acquired_def pushed_def IF_on_def)

lemma acquired_kmem_simps [simp]:
  "st_kmem (acquired l s) = st_kmem s" "st_end (acquired l s) = st_end s"
  "st_klog (acquired l s) = st_klog s"
  by (simp_all add: acquired_def pushed_def)

lemma kmem_ready_simps [simp]:
  "kmem_ready (s\<lparr>m_mem := m\<rparr>) = kmem_ready s"
  "km_use_lock k = km_use_lock (st_kmem s) \<Longrightarrow> kmem_ready (s\<lparr>st_kmem := k\<rparr>) = kmem_ready s"
  "kmem_ready (s\<lparr>st_klog := g\<rparr>) = kmem_ready s"
  by (simp_all add: kmem_ready_def)

section \<open>Closed forms\<close>

lemma mod_pgaligned: "v mod PGSIZE = 0 \<longleftrightarrow> pgaligned v"
  by (simp add: pgaligned_def PGSIZE_def word_unat_eq_iff unat_mod dvd_eq_mod_eq_0)

lemma kalloc_run [krun]:
  assumes "kmem_ready s"
  shows "kalloc s = Ret (km_freelist (st_kmem s))
     (if km_freelist (st_kmem s) = 0 then s
      else s\<lparr>st_kmem := (st_kmem s)\<lparr>km_freelist := load32 (m_mem s) (km_freelist (st_kmem s))\<rparr>\<rparr>)"
  using assms
  by (auto simp: kalloc_def kmem_lock_def kmem_unlock_def kmem_ready_def kbind_run kseq_run
      kwhen_run acquire_ok release_acquired kframe)

lemma kfree_run [krun]:
  assumes "kmem_ready s" "kpage (st_end s) v"
  shows "kfree v s = Ret ()
     (s\<lparr>m_mem := store32 (memset (m_mem s) v 1 PGSIZE) v (km_freelist (st_kmem s)),
        st_kmem := (st_kmem s)\<lparr>km_freelist := v\<rparr>\<rparr>)"
  using assms mod_pgaligned [of v]
  by (auto simp: kfree_def kpage_def kmem_lock_def kmem_unlock_def kmem_ready_def kbind_run kseq_run
      kwhen_run acquire_ok release_acquired kframe)

lemma kfree_bad:
  assumes "\<not> kpage (st_end s) v"
  shows "\<exists>msg. kfree v s = Stop (Panic msg) s"
  using assms mod_pgaligned [of v] by (auto simp: kfree_def kpage_def kbind_run)

section \<open>The free list as a stack\<close>

lemma kpage_aligned4 [simp]: "kpage e p \<Longrightarrow> aligned4 p"
  by (simp add: kpage_def pgaligned_aligned4)

lemma kpage_rounddown [simp]: "kpage e p \<Longrightarrow> PGROUNDDOWN p = p"
  by (simp add: kpage_def PGROUNDDOWN_aligned)

lemma flist_page_eq:
  assumes "flist m a ps" "\<And>p. p \<in> set ps \<Longrightarrow> aligned4 p \<and> page_eq p m m'"
  shows "flist m' a ps"
  using assms
proof (induction ps arbitrary: a)
  case (Cons p ps)
  have "load32 m p = load32 m' p" using Cons.prems(2) [of p] by (simp add: load32_page_eq)
  then show ?case using Cons by simp
qed simp

lemma kfree_other_page:
  assumes "kpage e v" "PGROUNDDOWN b \<noteq> v"
  shows "page_eq b (store32 (memset m v c PGSIZE) v x) m"
proof -
  have "page_eq b (store32 (memset m v c PGSIZE) v x) (memset m v c PGSIZE)"
    using assms by (intro store32_page_eq) auto
  moreover have "page_eq b (memset m v c PGSIZE) m"
    using assms by (intro memset_page_eq) (auto simp: kpage_def)
  ultimately show ?thesis by (rule page_eq_trans)
qed

lemma kalloc_free_pages:
  assumes "kmem_ready s" "free_pages s (p # ps)"
  shows "\<exists>k. kalloc s = Ret p (s\<lparr>st_kmem := k\<rparr>) \<and> km_use_lock k = km_use_lock (st_kmem s)
    \<and> free_pages (s\<lparr>st_kmem := k\<rparr>) ps"
  using assms kalloc_run [OF assms(1)] by (auto simp: free_pages_def)

lemma kalloc_no_pages: "kmem_ready s \<Longrightarrow> free_pages s [] \<Longrightarrow> kalloc s = Ret 0 s"
  by (simp add: kalloc_run free_pages_def)

lemma kfree_free_pages:
  assumes "kmem_ready s" "free_pages s ps" "kpage (st_end s) v" "v \<notin> set ps"
  shows "\<exists>m k. kfree v s = Ret () (s\<lparr>m_mem := m, st_kmem := k\<rparr>)
    \<and> km_use_lock k = km_use_lock (st_kmem s)
    \<and> free_pages (s\<lparr>m_mem := m, st_kmem := k\<rparr>) (v # ps)
    \<and> (\<forall>b. PGROUNDDOWN b \<noteq> v \<longrightarrow> page_eq b m (m_mem s))"
proof -
  let ?m = "store32 (memset (m_mem s) v 1 PGSIZE) v (km_freelist (st_kmem s))"
  let ?k = "(st_kmem s)\<lparr>km_freelist := v\<rparr>"
  have "flist ?m (km_freelist (st_kmem s)) ps"
  proof (rule flist_page_eq)
    fix p assume p: "p \<in> set ps"
    then have "kpage (st_end s) p" "p \<noteq> v" using assms by (auto simp: free_pages_def)
    then show "aligned4 p \<and> page_eq p (m_mem s) ?m"
      using kfree_other_page [OF assms(3)] by (metis kpage_aligned4 kpage_rounddown page_eq_sym)
  qed (use assms in \<open>simp add: free_pages_def\<close>)
  moreover have "load32 ?m v = km_freelist (st_kmem s)" by (rule load32_store32_same)
  moreover have "v \<noteq> 0" using assms(3) by (simp add: kpage_def)
  ultimately have "free_pages (s\<lparr>m_mem := ?m, st_kmem := ?k\<rparr>) (v # ps)"
    using assms by (simp add: free_pages_def)
  then show ?thesis
    using kfree_run [OF assms(1,3)] kfree_other_page [OF assms(3)]
    by (intro exI [of _ ?m] exI [of _ ?k]) simp
qed

text \<open>Taking pages one after another, and giving them back.\<close>

primrec take_pages :: "('s, addr) K \<Rightarrow> nat \<Rightarrow> ('s, addr list) K" where
  "take_pages al 0 = ret []"
| "take_pages al (Suc n) = kbind al (\<lambda>p. kbind (take_pages al n) (\<lambda>ps. ret (p # ps)))"

text \<open>
  The contract of a page allocator: a stack of distinct pages, from which allocation takes the
  top and answers null when it is empty, and on which freeing pushes.
\<close>

locale page_stack =
  fixes al :: "('s, addr) K" and fr :: "addr \<Rightarrow> ('s, unit) K"
    and stack :: "'s \<Rightarrow> addr list \<Rightarrow> bool" and usable :: "'s \<Rightarrow> addr \<Rightarrow> bool"
  assumes al_empty: "stack s [] \<Longrightarrow> al s = Ret 0 s"
    and al_top: "stack s (p # ps) \<Longrightarrow> \<exists>t. al s = Ret p t \<and> stack t ps \<and> usable t = usable s"
    and fr_push: "stack s ps \<Longrightarrow> usable s p \<Longrightarrow> p \<notin> set ps
      \<Longrightarrow> \<exists>t. fr p s = Ret () t \<and> stack t (p # ps) \<and> usable t = usable s"
    and stack_distinct: "stack s ps \<Longrightarrow> distinct ps"
    and stack_usable: "stack s ps \<Longrightarrow> p \<in> set ps \<Longrightarrow> usable s p"
begin

lemma take_pages_stack:
  "stack s ps \<Longrightarrow> n \<le> length ps \<Longrightarrow>
     \<exists>t. take_pages al n s = Ret (take n ps) t \<and> stack t (drop n ps) \<and> usable t = usable s"
proof (induction n arbitrary: s ps)
  case (Suc n)
  then obtain p qs where ps: "ps = p # qs" by (cases ps) auto
  then obtain t where t: "al s = Ret p t" "stack t qs" "usable t = usable s"
    using al_top Suc.prems by blast
  obtain u where "take_pages al n t = Ret (take n qs) u" "stack u (drop n qs)" "usable u = usable t"
    using Suc.IH [OF t(2)] Suc.prems(2) ps by auto
  then show ?case using t ps by (simp add: kbind_run)
qed simp

lemma free_all_stack:
  "stack s ps \<Longrightarrow> distinct qs \<Longrightarrow> set qs \<inter> set ps = {} \<Longrightarrow> (\<forall>q\<in>set qs. usable s q) \<Longrightarrow>
     \<exists>t. kfor fr qs s = Ret () t \<and> stack t (rev qs @ ps) \<and> usable t = usable s"
proof (induction qs arbitrary: s ps)
  case (Cons q qs)
  then have "usable s q" "q \<notin> set ps" by simp_all
  then obtain t where t: "fr q s = Ret () t" "stack t (q # ps)" "usable t = usable s"
    using fr_push [OF Cons.prems(1)] by blast
  have "distinct qs" "set qs \<inter> set (q # ps) = {}" "\<forall>q\<in>set qs. usable t q"
    using Cons.prems t(3) by auto
  then obtain u where "kfor fr qs t = Ret () u" "stack u (rev qs @ q # ps)" "usable u = usable t"
    using Cons.IH [OF t(2)] by blast
  then show ?case using t by (simp add: kseq_run)
qed simp

lemma take_then_free:
  assumes "stack s ps" "n \<le> length ps"
  shows "\<exists>qs t u. take_pages al n s = Ret qs t \<and> length qs = n \<and> distinct qs
    \<and> kfor fr (rev qs) t = Ret () u \<and> stack u ps"
proof -
  obtain t where t: "take_pages al n s = Ret (take n ps) t" "stack t (drop n ps)" "usable t = usable s"
    using take_pages_stack [OF assms] by blast
  have d: "distinct ps" using stack_distinct [OF assms(1)] .
  have "set (rev (take n ps)) \<inter> set (drop n ps) = {}"
    using set_take_disj_set_drop_if_distinct [OF d, of n n] by simp
  moreover have "\<forall>q\<in>set (rev (take n ps)). usable t q"
    using stack_usable [OF assms(1)] t(3) by (auto dest: in_set_takeD)
  moreover have "distinct (rev (take n ps))" using d by simp
  ultimately obtain u where u: "kfor fr (rev (take n ps)) t = Ret () u"
      "stack u (rev (rev (take n ps)) @ drop n ps)"
    using free_all_stack [OF t(2)] by blast
  have "length (take n ps) = n" "distinct (take n ps)" "stack u ps"
    using d u(2) assms(2) by simp_all
  then show ?thesis using t(1) u(1) by blast
qed

end

interpretation kmem_stack: page_stack kalloc kfree
  "\<lambda>s ps. kmem_ready s \<and> free_pages s ps" "\<lambda>s p. kpage (st_end s) p"
proof (unfold_locales, goal_cases)
  case (1 s)
  then show ?case using kalloc_no_pages by blast
next
  case (2 s p ps)
  then obtain k where "kalloc s = Ret p (s\<lparr>st_kmem := k\<rparr>)"
    "km_use_lock k = km_use_lock (st_kmem s)" "free_pages (s\<lparr>st_kmem := k\<rparr>) ps"
    using kalloc_free_pages by blast
  then show ?case using 2 by (intro exI [of _ "s\<lparr>st_kmem := k\<rparr>"]) simp
next
  case (3 s ps p)
  then obtain m k where "kfree p s = Ret () (s\<lparr>m_mem := m, st_kmem := k\<rparr>)"
    "km_use_lock k = km_use_lock (st_kmem s)" "free_pages (s\<lparr>m_mem := m, st_kmem := k\<rparr>) (p # ps)"
    using kfree_free_pages by blast
  then show ?case using 3 by (intro exI [of _ "s\<lparr>m_mem := m, st_kmem := k\<rparr>"]) simp
qed (auto simp: free_pages_def)

section \<open>Initialisation\<close>

lemma unat_add_small: "unat a + k < 2 ^ 32 \<Longrightarrow> unat (a + of_nat k :: uint) = unat a + k"
  by (simp add: unat_word_ariths unat_of_nat)

text \<open>The pages that \<open>freerange\<close> finds from an aligned address on, in the order it frees them.\<close>

definition page_run :: "addr \<Rightarrow> nat \<Rightarrow> addr list" where
  "page_run p n = map (\<lambda>i. p + of_nat (4096 * i)) [0..<n]"

lemma page_run_Suc: "page_run p (Suc n) = p # page_run (p + 4096) n"
  by (simp add: page_run_def upt_conv_Cons map_Suc_upt [symmetric] o_def distrib_left ac_simps
      del: upt_Suc map_Suc_upt)

lemma page_run_above:
  assumes "unat p + 4096 * n < 2 ^ 32" "q \<in> set (page_run p n)"
  shows "unat p \<le> unat q"
proof -
  from assms(2) obtain i where i: "i < n" "q = p + of_nat (4096 * i)"
    by (auto simp: page_run_def)
  then have "unat p + 4096 * i < 2 ^ 32" using assms(1) by simp
  then show ?thesis unfolding i(2) by (subst unat_add_small) simp_all
qed

lemma freerange_loop_run:
  assumes "kmem_ready s" "free_pages s ps" "n < fuel"
    "\<forall>q\<in>set (page_run p n). kpage (st_end s) q \<and> q \<notin> set ps"
    "unat p + 4096 * n \<le> unat vend" "unat vend < unat p + 4096 * Suc n" "unat vend + 4096 < 2 ^ 32"
  shows "\<exists>m k. freerange_loop fuel p vend s = Ret () (s\<lparr>m_mem := m, st_kmem := k\<rparr>)
    \<and> km_use_lock k = km_use_lock (st_kmem s)
    \<and> free_pages (s\<lparr>m_mem := m, st_kmem := k\<rparr>) (rev (page_run p n) @ ps)"
  using assms
proof (induction n arbitrary: s ps p fuel)
  case 0
  then obtain f where f: "fuel = Suc f" by (cases fuel) auto
  have "unat (p + 4096) = unat p + 4096" using 0 unat_add_small [of p 4096] by simp
  then have "\<not> p + PGSIZE \<le> vend" using 0 by (simp add: word_le_nat_alt PGSIZE_def)
  then have "freerange_loop fuel p vend s = Ret () (s\<lparr>m_mem := m_mem s, st_kmem := st_kmem s\<rparr>)"
    by (simp add: f)
  then show ?case using 0 by (intro exI [of _ "m_mem s"] exI [of _ "st_kmem s"]) (simp add: page_run_def)
next
  case (Suc n)
  then obtain f where f: "fuel = Suc f" by (cases fuel) auto
  have u: "unat (p + 4096) = unat p + 4096"
    using Suc.prems unat_lt32 [of vend] unat_add_small [of p 4096] by simp
  have le: "p + PGSIZE \<le> vend" using Suc.prems u by (simp add: word_le_nat_alt PGSIZE_def)
  obtain m k where k: "kfree p s = Ret () (s\<lparr>m_mem := m, st_kmem := k\<rparr>)"
    "km_use_lock k = km_use_lock (st_kmem s)" "free_pages (s\<lparr>m_mem := m, st_kmem := k\<rparr>) (p # ps)"
    using kfree_free_pages [OF Suc.prems(1,2), of p] Suc.prems(4) by (auto simp: page_run_Suc)
  have "p \<notin> set (page_run (p + 4096) n)"
    using page_run_above [of "p + 4096" n p] u Suc.prems(5) unat_lt32 [of vend] by auto
  then have "\<forall>q\<in>set (page_run (p + 4096) n). kpage (st_end s) q \<and> q \<notin> set (p # ps)"
    using Suc.prems(4) by (auto simp: page_run_Suc)
  then obtain m' k' where "freerange_loop f (p + 4096) vend (s\<lparr>m_mem := m, st_kmem := k\<rparr>)
      = Ret () (s\<lparr>m_mem := m', st_kmem := k'\<rparr>)"
    "km_use_lock k' = km_use_lock k"
    "free_pages (s\<lparr>m_mem := m', st_kmem := k'\<rparr>) (rev (page_run (p + 4096) n) @ p # ps)"
    using Suc.IH [OF _ k(3), of f "p + 4096"] Suc.prems u f k(2) by auto
  then show ?case using le k by (auto simp: f kseq_run page_run_Suc PGSIZE_def)
qed

lemma freerange_run:
  assumes "kmem_ready s" "free_pages s ps"
    "unat (PGROUNDUP vstart) \<le> unat vend" "unat vend + 4096 < 2 ^ 32"
    "n = (unat vend - unat (PGROUNDUP vstart)) div 4096"
    "\<forall>q\<in>set (page_run (PGROUNDUP vstart) n). kpage (st_end s) q \<and> q \<notin> set ps"
  shows "\<exists>m k. freerange vstart vend s = Ret () (s\<lparr>m_mem := m, st_kmem := k\<rparr>)
    \<and> km_use_lock k = km_use_lock (st_kmem s)
    \<and> free_pages (s\<lparr>m_mem := m, st_kmem := k\<rparr>) (rev (page_run (PGROUNDUP vstart) n) @ ps)"
proof -
  let ?p = "PGROUNDUP vstart"
  have "unat (vend - ?p) = unat vend - unat ?p" using assms(3) by (simp add: unat_sub_if')
  moreover have "unat ?p + 4096 * n \<le> unat vend" "unat vend < unat ?p + 4096 * Suc n"
    using assms(3,5) by simp_all
  ultimately show ?thesis
    unfolding freerange_def Let_def using assms by (intro freerange_loop_run) simp_all
qed

text \<open>The loop never runs out of fuel: it ends, or \<open>kfree\<close> panics.\<close>

lemma kfree_outcomes:
  assumes "kmem_ready s"
  shows "(\<exists>t. kfree p s = Ret () t \<and> kmem_ready t \<and> kpage (st_end s) p) \<or> (\<exists>msg t. kfree p s = Stop (Panic msg) t)"
  using kfree_run [OF assms, of p] kfree_bad [of s p] assms by (cases "kpage (st_end s) p") auto

lemma freerange_loop_ends:
  assumes "kmem_ready s" "unat (vend - p) div 4096 < fuel"
  shows "(\<exists>t. freerange_loop fuel p vend s = Ret () t)
    \<or> (\<exists>msg t. freerange_loop fuel p vend s = Stop (Panic msg) t)"
  using assms
proof (induction fuel arbitrary: s p)
  case (Suc f)
  show ?case
  proof (cases "p + PGSIZE \<le> vend")
    case True
    from kfree_outcomes [OF Suc.prems(1), of p] show ?thesis
    proof (elim disjE exE conjE)
      fix t assume t: "kfree p s = Ret () t" "kmem_ready t" "kpage (st_end s) p"
      have "unat p < 2 ^ 32 - 4096"
      proof -
        have "unat (p - KERNBASE) < unat PHYSTOP" using t(3) by (simp add: kpage_def V2P_def word_less_nat_alt)
        then show ?thesis by (simp add: unat_sub_if' KERNBASE_def PHYSTOP_def split: if_splits)
      qed
      then have u: "unat (p + 4096) = unat p + 4096" using unat_add_small [of p 4096] by simp
      have "unat p + 4096 \<le> unat vend" using True u by (simp add: word_le_nat_alt PGSIZE_def)
      then have "unat (vend - p) = unat vend - unat p"
        "unat (vend - (p + 4096)) = unat vend - unat p - 4096"
        using u by (simp_all add: unat_sub_if')
      then have "unat (vend - (p + 4096)) div 4096 < f"
        using Suc.prems(2) \<open>unat p + 4096 \<le> unat vend\<close> by simp
      from Suc.IH [OF t(2) this] show ?thesis using t(1) True by (auto simp: kseq_run PGSIZE_def)
    qed (use True in \<open>auto simp: kseq_run\<close>)
  qed simp
qed simp

section \<open>Properties\<close>

text \<open>A machine with no page on the free list yet and a kernel that ends at 1 MB above its base.\<close>

definition boot_kmach :: kmach where
  "boot_kmach = mach.extend two_cpus (kmach.fields \<lparr>km_use_lock = True, km_freelist = 0\<rparr> 0x80100000 [])"

lemma boot_kmach_simps [simp]:
  "st_kmem boot_kmach = \<lparr>km_use_lock = True, km_freelist = 0\<rparr>" "st_end boot_kmach = 0x80100000"
  by (simp_all add: boot_kmach_def kmach.defs mach.defs)

lemma boot_kmach_ready: "kmem_ready boot_kmach" "free_pages boot_kmach []"
proof -
  have [simp]: "cpuno boot_kmach = cpuno two_cpus" "cur boot_kmach = cur two_cpus"
    by (simp_all add: cpuno_def cur_def boot_kmach_def kmach.defs mach.defs)
  show "kmem_ready boot_kmach"
    using two_cpus_ok(1) two_cpus_ok(2) [of KmemLock]
    by (simp add: kmem_ready_def cpu_ok_def lock_free_def IF_on_def)
      (simp add: boot_kmach_def kmach.defs mach.defs)
  show "free_pages boot_kmach []" by (simp add: free_pages_def)
qed

text \<open>
  C33. \<open>kinit2\<close> (through \<open>freerange\<close>) puts every whole page of the range on the free list, each
  once, above the pages that were there, and turns locking on; the loop ends.
\<close>

theorem kinit2_frees_range:
  assumes "kmem_ready s" "free_pages s ps"
    and "unat (PGROUNDUP vstart) \<le> unat vend" "unat vend + 4096 < 2 ^ 32"
    and "n = (unat vend - unat (PGROUNDUP vstart)) div 4096"
    and "\<forall>q\<in>set (page_run (PGROUNDUP vstart) n). kpage (st_end s) q \<and> q \<notin> set ps"
  shows "\<exists>t. kinit2 vstart vend s = Ret () t \<and> km_use_lock (st_kmem t)
    \<and> free_pages t (rev (page_run (PGROUNDUP vstart) n) @ ps)"
  using freerange_run [OF assms] by (auto simp: kinit2_def kseq_run free_pages_def)

theorem kinit2_frees_range_witness:
  "\<exists>t. kinit2 0x80100001 0x80103FFF boot_kmach = Ret () t \<and> km_use_lock (st_kmem t)
    \<and> free_pages t [0x80102000, 0x80101000]"
proof -
  have r: "PGROUNDUP 0x80100001 = 0x80101000" by (simp add: PGROUNDUP_def PGSIZE_def)
  have p: "page_run 0x80101000 2 = [0x80101000, 0x80102000]"
    by (simp add: page_run_def numeral_2_eq_2)
  have k: "kpage 0x80100000 0x80101000" "kpage 0x80100000 0x80102000"
    by (simp_all add: kpage_def pgaligned_def V2P_def KERNBASE_def PHYSTOP_def)
  have 1: "unat (PGROUNDUP 0x80100001) \<le> unat (0x80103FFF :: uint)"
    and 2: "unat (0x80103FFF :: uint) + 4096 < 2 ^ 32"
    and 3: "2 = (unat (0x80103FFF :: uint) - unat (PGROUNDUP 0x80100001)) div 4096"
    unfolding r by simp_all
  have 4: "\<forall>q\<in>set (page_run (PGROUNDUP 0x80100001) 2). kpage (st_end boot_kmach) q \<and> q \<notin> set []"
    unfolding r p using k by simp
  from kinit2_frees_range [OF boot_kmach_ready 1 2 3 4] show ?thesis
    unfolding r p by simp
qed

text \<open>
  C3. The allocator is a stack of distinct pages: taking \<open>n\<close> pages that are available succeeds
  with \<open>n\<close> different pages, and freeing them in the opposite order puts the free list back
  to what it was, although \<open>kfree\<close> overwrites each page and \<open>kalloc\<close> follows links kept in
  the pages themselves.
\<close>

theorem kalloc_kfree_stack:
  assumes "kmem_ready s" "free_pages s ps" "n \<le> length ps"
  shows "\<exists>qs t u. take_pages kalloc n s = Ret qs t \<and> length qs = n \<and> distinct qs
    \<and> kfor kfree (rev qs) t = Ret () u \<and> free_pages u ps"
  using kmem_stack.take_then_free [of s ps n] assms by blast

theorem kalloc_kfree_stack_witness:
  "\<exists>v qs t u. kfree 0x80101000 boot_kmach = Ret () v
    \<and> take_pages kalloc 1 v = Ret qs t \<and> length qs = 1
    \<and> kfor kfree (rev qs) t = Ret () u \<and> free_pages u [0x80101000]"
proof -
  have k: "kpage (st_end boot_kmach) 0x80101000"
    by (simp add: kpage_def pgaligned_def V2P_def KERNBASE_def PHYSTOP_def)
  obtain m k where v: "kfree 0x80101000 boot_kmach = Ret () (boot_kmach\<lparr>m_mem := m, st_kmem := k\<rparr>)"
    "km_use_lock k" "free_pages (boot_kmach\<lparr>m_mem := m, st_kmem := k\<rparr>) [0x80101000]"
    using kfree_free_pages [OF boot_kmach_ready k] by auto
  have "kmem_ready (boot_kmach\<lparr>m_mem := m, st_kmem := k\<rparr>)"
    using boot_kmach_ready(1) v(2) by simp
  from kalloc_kfree_stack [OF this v(3), of 1] v(1) show ?thesis by auto
qed

text \<open>
  C39. \<open>freerange\<close> terminates whatever the range, even one that wraps around the address space:
  it returns, or it panics on a page that is not the allocator's.
\<close>

theorem freerange_terminates:
  assumes "kmem_ready s"
  shows "(\<exists>t. freerange vstart vend s = Ret () t) \<or> (\<exists>msg t. freerange vstart vend s = Stop (Panic msg) t)"
  unfolding freerange_def Let_def by (rule freerange_loop_ends [OF assms]) simp

theorem freerange_terminates_witness:
  "(\<exists>t. freerange 0xFFFFFFFF 0x80103000 boot_kmach = Ret () t)
    \<or> (\<exists>msg t. freerange 0xFFFFFFFF 0x80103000 boot_kmach = Stop (Panic msg) t)"
  by (rule freerange_terminates [OF boot_kmach_ready(1)])

end
