(* ===== verification/Vm.thy ===== *)
theory Vm
  imports Kalloc
begin

text \<open>
  Virtual memory, \<^verbatim>\<open>src/vm.c\<close> (\<open>switchuvm\<close> is with the scheduler and \<open>loaduvm\<close> with
  \<open>exec\<close>, whose components they use).

  Page directories and page tables are pages of memory, read and written a word at a time as the
  code does; \<open>translate\<close> is the walk that the hardware performs on them. Kernel code that
  touches a user address goes through the page table in \<^verbatim>\<open>%cr3\<close> (\<open>uload8\<close>, \<open>ustore8\<close>); an
  address that is not mapped there stops the run with \<open>Fault\<close>. A null pointer is address 0 and
  the same rule applies to it.

  What these routines do to the translation is proved in \<open>Paging\<close>.
\<close>

section \<open>State\<close>

record vmach = kmach +
  st_kpgdir :: addr
  st_data :: addr
  st_ts_addr :: "nat \<Rightarrow> addr"
  st_gdtr :: "uchar \<Rightarrow> nat option"
  st_tr :: "uchar \<Rightarrow> uint"

section \<open>Words in memory and the page-table register\<close>

definition kload32 :: "addr \<Rightarrow> ('a vmach_scheme, uint) K" where
  "kload32 a = kget (\<lambda>s. load32 (m_mem s) a)"

definition kstore32 :: "addr \<Rightarrow> uint \<Rightarrow> ('a vmach_scheme, unit) K" where
  "kstore32 a v = kmod (\<lambda>s. s\<lparr>m_mem := store32 (m_mem s) a v\<rparr>)"

definition kmemset :: "addr \<Rightarrow> uint \<Rightarrow> uint \<Rightarrow> ('a vmach_scheme, unit) K" where
  "kmemset a c n = kmod (\<lambda>s. s\<lparr>m_mem := memset (m_mem s) a c n\<rparr>)"

definition kmemmove :: "addr \<Rightarrow> addr \<Rightarrow> uint \<Rightarrow> ('a vmach_scheme, unit) K" where
  "kmemmove d a n = kmod (\<lambda>s. s\<lparr>m_mem := memmove (m_mem s) d a n\<rparr>)"

definition lcr3 :: "uint \<Rightarrow> ('a vmach_scheme, unit) K" where
  "lcr3 v = kmod (\<lambda>s. s\<lparr>m_cr3 := (m_cr3 s)(m_lapicid s := v)\<rparr>)"

section \<open>Segment descriptors\<close>

definition STA_X :: uint where "STA_X = 8"
definition STA_W :: uint where "STA_W = 2"
definition STA_R :: uint where "STA_R = 2"
definition STS_T32A :: uint where "STS_T32A = 9"
definition STS_IG32 :: uint where "STS_IG32 = 0xE"
definition STS_TG32 :: uint where "STS_TG32 = 0xF"

definition SEG :: "uint \<Rightarrow> uint \<Rightarrow> uint \<Rightarrow> uint \<Rightarrow> segdesc" where
  "SEG type base lim dpl =
     \<lparr>sd_lim_15_0 = drop_bit 12 lim AND 0xFFFF, sd_base_15_0 = base AND 0xFFFF,
      sd_base_23_16 = drop_bit 16 base AND 0xFF, sd_type = type, sd_s = 1, sd_dpl = dpl, sd_p = 1,
      sd_lim_19_16 = drop_bit 28 lim, sd_avl = 0, sd_rsv1 = 0, sd_db = 1, sd_g = 1,
      sd_base_31_24 = drop_bit 24 base\<rparr>"

definition SEG16 :: "uint \<Rightarrow> uint \<Rightarrow> uint \<Rightarrow> uint \<Rightarrow> segdesc" where
  "SEG16 type base lim dpl =
     \<lparr>sd_lim_15_0 = lim AND 0xFFFF, sd_base_15_0 = base AND 0xFFFF,
      sd_base_23_16 = drop_bit 16 base AND 0xFF, sd_type = type, sd_s = 1, sd_dpl = dpl, sd_p = 1,
      sd_lim_19_16 = drop_bit 16 lim AND 0xF, sd_avl = 0, sd_rsv1 = 0, sd_db = 1, sd_g = 0,
      sd_base_31_24 = drop_bit 24 base\<rparr>"

definition seginit :: "('a vmach_scheme, unit) K" where
  "seginit =
     kbind cpuid (\<lambda>c.
     kseq (upd_cpu c (\<lambda>k. k\<lparr>c_gdt := (c_gdt k)
             (SEG_KCODE := SEG (STA_X OR STA_R) 0 0xFFFFFFFF 0,
              SEG_KDATA := SEG STA_W 0 0xFFFFFFFF 0,
              SEG_UCODE := SEG (STA_X OR STA_R) 0 0xFFFFFFFF DPL_USER,
              SEG_UDATA := SEG STA_W 0 0xFFFFFFFF DPL_USER)\<rparr>))
          (kmod (\<lambda>s. s\<lparr>st_gdtr := (st_gdtr s)(m_lapicid s := Some c)\<rparr>)))"

section \<open>Page tables\<close>

definition walkpgdir :: "addr \<Rightarrow> addr \<Rightarrow> bool \<Rightarrow> ('a vmach_scheme, addr) K" where
  "walkpgdir pgdir va alloc =
     (let pde = pgdir + 4 * PDX va in
      kbind (kload32 pde) (\<lambda>e.
      if e AND PTE_P \<noteq> 0 then ret (P2V (PTE_ADDR e) + 4 * PTX va)
      else if \<not> alloc then ret 0
      else
        kbind kalloc (\<lambda>pgtab.
        if pgtab = 0 then ret 0
        else
          kseq (kmemset pgtab 0 PGSIZE) (
          kseq (kstore32 pde (V2P pgtab OR PTE_P OR PTE_W OR PTE_U))
               (ret (pgtab + 4 * PTX va))))))"

text \<open>
  The loop of \<open>mappages\<close> leaves when \<open>a\<close> is \<open>lst\<close>. Both are page aligned, so it gets there after
  the number of pages between them, wrap-around included; that number is the fuel.
\<close>

primrec mappages_loop :: "nat \<Rightarrow> addr \<Rightarrow> addr \<Rightarrow> addr \<Rightarrow> uint \<Rightarrow> uint \<Rightarrow> ('a vmach_scheme, int) K" where
  "mappages_loop 0 pgdir a lst pa perm = kstop Diverge"
| "mappages_loop (Suc n) pgdir a lst pa perm =
     kbind (walkpgdir pgdir a True) (\<lambda>pte.
     if pte = 0 then ret (- 1)
     else
       kbind (kload32 pte) (\<lambda>e.
       if e AND PTE_P \<noteq> 0 then panic ''remap''
       else
         kseq (kstore32 pte (pa OR perm OR PTE_P)) (
         if a = lst then ret 0
         else mappages_loop n pgdir (a + PGSIZE) lst (pa + PGSIZE) perm)))"

definition mappages :: "addr \<Rightarrow> addr \<Rightarrow> uint \<Rightarrow> uint \<Rightarrow> uint \<Rightarrow> ('a vmach_scheme, int) K" where
  "mappages pgdir va sz pa perm =
     (let a = PGROUNDDOWN va; lst = PGROUNDDOWN (va + sz - 1)
      in mappages_loop (Suc (unat (lst - a) div 4096)) pgdir a lst pa perm)"

text \<open>
  Freeing the user pages between two sizes. Where a whole page table is missing the loop jumps to
  the last page before the next directory entry. Process sizes are at most \<^verbatim>\<open>KERNBASE\<close>, so the
  address only grows; the fuel is the number of pages below the old size, plus two.
\<close>

primrec deallocuvm_loop :: "nat \<Rightarrow> addr \<Rightarrow> addr \<Rightarrow> uint \<Rightarrow> ('a vmach_scheme, unit) K" where
  "deallocuvm_loop 0 pgdir a oldsz = kstop Diverge"
| "deallocuvm_loop (Suc n) pgdir a oldsz =
     (if a < oldsz
      then
        kbind (walkpgdir pgdir a False) (\<lambda>pte.
        if pte = 0 then deallocuvm_loop n pgdir (PGADDR (PDX a + 1) 0 0 - PGSIZE + PGSIZE) oldsz
        else
          kbind (kload32 pte) (\<lambda>e.
          kseq (kwhen (e AND PTE_P \<noteq> 0)
                 (let pa = PTE_ADDR e
                  in if pa = 0 then panic ''kfree''
                     else kseq (kfree (P2V pa)) (kstore32 pte 0)))
               (deallocuvm_loop n pgdir (a + PGSIZE) oldsz)))
      else ret ())"

definition deallocuvm :: "addr \<Rightarrow> uint \<Rightarrow> uint \<Rightarrow> ('a vmach_scheme, uint) K" where
  "deallocuvm pgdir oldsz newsz =
     (if newsz \<ge> oldsz then ret oldsz
      else kseq (deallocuvm_loop (unat oldsz div 4096 + 2) pgdir (PGROUNDUP newsz) oldsz) (ret newsz))"

definition freevm :: "addr \<Rightarrow> ('a vmach_scheme, unit) K" where
  "freevm pgdir =
     (if pgdir = 0 then panic ''freevm: no pgdir''
      else
        kseq (deallocuvm pgdir KERNBASE 0) (
        kseq (kfor (\<lambda>i.
                kbind (kload32 (pgdir + 4 * of_nat i)) (\<lambda>e.
                kwhen (e AND PTE_P \<noteq> 0) (kfree (P2V (PTE_ADDR e))))) [0..<NPDENTRIES])
             (kfree pgdir)))"

record kmap_entry =
  km_virt :: addr
  km_phys_start :: uint
  km_phys_end :: uint
  km_perm :: uint

definition kmap :: "addr \<Rightarrow> kmap_entry list" where
  "kmap data =
     [\<lparr>km_virt = KERNBASE, km_phys_start = 0, km_phys_end = EXTMEM, km_perm = PTE_W\<rparr>,
      \<lparr>km_virt = KERNLINK, km_phys_start = V2P KERNLINK, km_phys_end = V2P data, km_perm = 0\<rparr>,
      \<lparr>km_virt = data, km_phys_start = V2P data, km_phys_end = PHYSTOP, km_perm = PTE_W\<rparr>,
      \<lparr>km_virt = DEVSPACE, km_phys_start = DEVSPACE, km_phys_end = 0, km_perm = PTE_W\<rparr>]"

fun setupkvm_loop :: "addr \<Rightarrow> kmap_entry list \<Rightarrow> ('a vmach_scheme, addr) K" where
  "setupkvm_loop pgdir [] = ret pgdir"
| "setupkvm_loop pgdir (k # ks) =
     kbind (mappages pgdir (km_virt k) (km_phys_end k - km_phys_start k) (km_phys_start k) (km_perm k))
       (\<lambda>r. if r < 0 then kseq (freevm pgdir) (ret 0) else setupkvm_loop pgdir ks)"

definition setupkvm :: "('a vmach_scheme, addr) K" where
  "setupkvm =
     kbind kalloc (\<lambda>pgdir.
     if pgdir = 0 then ret 0
     else
       kseq (kmemset pgdir 0 PGSIZE) (
       if P2V PHYSTOP > DEVSPACE then panic ''PHYSTOP too high''
       else kbind (kget st_data) (\<lambda>data. setupkvm_loop pgdir (kmap data))))"

definition switchkvm :: "('a vmach_scheme, unit) K" where
  "switchkvm = kbind (kget st_kpgdir) (\<lambda>k. lcr3 (V2P k))"

definition kvmalloc :: "('a vmach_scheme, unit) K" where
  "kvmalloc = kseq (kbind setupkvm (\<lambda>p. kmod (\<lambda>s. s\<lparr>st_kpgdir := p\<rparr>))) switchkvm"

section \<open>User memory\<close>

text \<open>
  \<open>inituvm\<close> does not test the page it gets from \<open>kalloc\<close>. It runs once, under the kernel page
  table, where a write through the null pointer has no mapping.
\<close>

definition inituvm :: "addr \<Rightarrow> addr \<Rightarrow> uint \<Rightarrow> ('a vmach_scheme, unit) K" where
  "inituvm pgdir init sz =
     (if sz \<ge> PGSIZE then panic ''inituvm: more than a page''
      else
        kbind kalloc (\<lambda>mem.
        if mem = 0 then kstop (Fault 0)
        else
          kseq (kmemset mem 0 PGSIZE) (
          kseq (mappages pgdir 0 PGSIZE (V2P mem) (PTE_W OR PTE_U))
               (kmemmove mem init sz))))"

primrec allocuvm_loop :: "nat \<Rightarrow> addr \<Rightarrow> addr \<Rightarrow> uint \<Rightarrow> uint \<Rightarrow> ('a vmach_scheme, uint) K" where
  "allocuvm_loop 0 pgdir a oldsz newsz = kstop Diverge"
| "allocuvm_loop (Suc n) pgdir a oldsz newsz =
     (if a < newsz
      then
        kbind kalloc (\<lambda>mem.
        if mem = 0
        then
          kseq (kprint ''allocuvm out of memory'') (
          kseq (deallocuvm pgdir newsz oldsz) (ret 0))
        else
          kseq (kmemset mem 0 PGSIZE) (
          kbind (mappages pgdir a PGSIZE (V2P mem) (PTE_W OR PTE_U)) (\<lambda>r.
          if r < 0
          then
            kseq (kprint ''allocuvm out of memory (2)'') (
            kseq (deallocuvm pgdir newsz oldsz) (
            kseq (kfree mem) (ret 0)))
          else allocuvm_loop n pgdir (a + PGSIZE) oldsz newsz)))
      else ret newsz)"

definition allocuvm :: "addr \<Rightarrow> uint \<Rightarrow> uint \<Rightarrow> ('a vmach_scheme, uint) K" where
  "allocuvm pgdir oldsz newsz =
     (if newsz \<ge> KERNBASE then ret 0
      else if newsz < oldsz then ret oldsz
      else allocuvm_loop (unat newsz div 4096 + 2) pgdir (PGROUNDUP oldsz) oldsz newsz)"

definition clearpteu :: "addr \<Rightarrow> addr \<Rightarrow> ('a vmach_scheme, unit) K" where
  "clearpteu pgdir uva =
     kbind (walkpgdir pgdir uva False) (\<lambda>pte.
     if pte = 0 then panic ''clearpteu''
     else kbind (kload32 pte) (\<lambda>e. kstore32 pte (e AND NOT PTE_U)))"

primrec copyuvm_loop :: "nat \<Rightarrow> addr \<Rightarrow> addr \<Rightarrow> uint \<Rightarrow> uint \<Rightarrow> ('a vmach_scheme, addr) K" where
  "copyuvm_loop 0 pgdir d i sz = kstop Diverge"
| "copyuvm_loop (Suc n) pgdir d i sz =
     (if i < sz
      then
        kbind (walkpgdir pgdir i False) (\<lambda>pte.
        if pte = 0 then panic ''copyuvm: pte should exist''
        else
          kbind (kload32 pte) (\<lambda>e.
          if e AND PTE_P = 0 then panic ''copyuvm: page not present''
          else
            kbind kalloc (\<lambda>mem.
            if mem = 0 then kseq (freevm d) (ret 0)
            else
              kseq (kmemmove mem (P2V (PTE_ADDR e)) PGSIZE) (
              kbind (mappages d i PGSIZE (V2P mem) (PTE_FLAGS e)) (\<lambda>r.
              if r < 0 then kseq (kfree mem) (kseq (freevm d) (ret 0))
              else copyuvm_loop n pgdir d (i + PGSIZE) sz)))))
      else ret d)"

definition copyuvm :: "addr \<Rightarrow> uint \<Rightarrow> ('a vmach_scheme, addr) K" where
  "copyuvm pgdir sz =
     kbind setupkvm (\<lambda>d. if d = 0 then ret 0 else copyuvm_loop (unat sz div 4096 + 2) pgdir d 0 sz)"

section \<open>Translation\<close>

text \<open>The hardware walk: the kernel address of the byte that a virtual address names.\<close>

definition translate :: "memory \<Rightarrow> addr \<Rightarrow> uint \<Rightarrow> addr \<Rightarrow> addr option" where
  "translate m pgdir need va =
     (let pde = load32 m (pgdir + 4 * PDX va) in
      if pde AND need \<noteq> need then None
      else
        let pte = load32 m (P2V (PTE_ADDR pde) + 4 * PTX va) in
        if pte AND need \<noteq> need then None else Some (P2V (PTE_ADDR pte) + (va AND 0xFFF)))"

definition curdir :: "'a vmach_scheme \<Rightarrow> addr" where
  "curdir s = P2V (m_cr3 s (m_lapicid s))"

definition uload8 :: "addr \<Rightarrow> ('a vmach_scheme, uchar) K" where
  "uload8 va = kbind (kget (\<lambda>s. translate (m_mem s) (curdir s) PTE_P va)) (\<lambda>r.
     case r of None \<Rightarrow> kstop (Fault va) | Some a \<Rightarrow> kget (\<lambda>s. m_mem s a))"

definition ustore8 :: "addr \<Rightarrow> uchar \<Rightarrow> ('a vmach_scheme, unit) K" where
  "ustore8 va b = kbind (kget (\<lambda>s. translate (m_mem s) (curdir s) (PTE_P OR PTE_W) va)) (\<lambda>r.
     case r of None \<Rightarrow> kstop (Fault va) | Some a \<Rightarrow> kmod (\<lambda>s. s\<lparr>m_mem := (m_mem s)(a := b)\<rparr>))"

primrec uload :: "nat \<Rightarrow> addr \<Rightarrow> ('a vmach_scheme, uchar list) K" where
  "uload 0 va = ret []"
| "uload (Suc n) va = kbind (uload8 va) (\<lambda>b. kbind (uload n (va + 1)) (\<lambda>bs. ret (b # bs)))"

primrec ustore :: "uchar list \<Rightarrow> addr \<Rightarrow> ('a vmach_scheme, unit) K" where
  "ustore [] va = ret ()"
| "ustore (b # bs) va = kseq (ustore8 va b) (ustore bs (va + 1))"

text \<open>Little-endian words as byte lists.\<close>

definition le_bytes :: "uint \<Rightarrow> uchar list" where
  "le_bytes v = [ucast v, ucast (drop_bit 8 v), ucast (drop_bit 16 v), ucast (drop_bit 24 v)]"

definition le_word :: "uchar list \<Rightarrow> uint" where
  "le_word bs = ucast (bs ! 0) OR push_bit 8 (ucast (bs ! 1)) OR push_bit 16 (ucast (bs ! 2))
     OR push_bit 24 (ucast (bs ! 3))"

definition uload32 :: "addr \<Rightarrow> ('a vmach_scheme, uint) K" where
  "uload32 va = kbind (uload 4 va) (\<lambda>bs. ret (le_word bs))"

definition ustore32 :: "addr \<Rightarrow> uint \<Rightarrow> ('a vmach_scheme, unit) K" where
  "ustore32 va v = ustore (le_bytes v) va"

text \<open>
  \<open>uva2ka\<close> does not test the entry pointer it gets: where the page table is missing it reads the
  entry through the null pointer, that is, at user address 0 of the current address space.
\<close>

definition uva2ka :: "addr \<Rightarrow> addr \<Rightarrow> ('a vmach_scheme, addr) K" where
  "uva2ka pgdir uva =
     kbind (walkpgdir pgdir uva False) (\<lambda>pte.
     kbind (if pte = 0 then uload32 0 else kload32 pte) (\<lambda>e.
     if e AND PTE_P = 0 then ret 0
     else if e AND PTE_U = 0 then ret 0
     else ret (P2V (PTE_ADDR e))))"

lemma page_offset_lt: "unat (va - PGROUNDDOWN va) < 4096"
  using page_offset [of "PGROUNDDOWN va" va] by simp

text \<open>
  \<open>copyout\<close>. The argument \<open>bs\<close> is the contents of the source buffer (\<^verbatim>\<open>len\<close> bytes from \<^verbatim>\<open>p\<close>);
  each turn copies what fits in the page that contains \<open>va\<close>.
\<close>

function copyout :: "addr \<Rightarrow> addr \<Rightarrow> uchar list \<Rightarrow> ('a vmach_scheme, int) K" where
  "copyout pgdir va bs =
     (if bs = [] then ret 0
      else
        let va0 = PGROUNDDOWN va; n = min (4096 - unat (va - va0)) (length bs) in
        kbind (uva2ka pgdir va0) (\<lambda>pa0.
        if pa0 = 0 then ret (- 1)
        else
          kseq (kmod (\<lambda>s. s\<lparr>m_mem := write_bytes (m_mem s) (pa0 + (va - va0)) (take n bs)\<rparr>))
               (copyout pgdir (va0 + PGSIZE) (drop n bs))))"
  by auto
termination
  by (relation "measure (\<lambda>(_, _, bs). length bs)") (use page_offset_lt in \<open>auto simp: not_less\<close>)

declare copyout.simps [simp del]

end
