(* ===== verification/Paging.thy ===== *)
theory Paging
  imports Vm
begin

text \<open>
  What the routines of \<^verbatim>\<open>src/vm.c\<close> do to an address space.

  A page directory and its tables, which are pages of memory, represent a function from virtual
  pages to entries (\<open>pte_of\<close>); \<open>tables_ok\<close> is the invariant under which they do: the tables are
  different pages, and none is on the free list. \<open>walkpgdir\<close>, \<open>mappages\<close> and \<open>allocuvm\<close> keep the
  invariant (\<open>vm_ready\<close>, \<open>vm_step\<close>) and are updates of that function.
\<close>

section \<open>Page tables as a function\<close>

text \<open>
  The tables of a page directory: which directory entries are present, the page table an entry
  names, and the entry that the two levels hold for a virtual address (0 where there is no table).
\<close>

definition present :: "memory \<Rightarrow> addr \<Rightarrow> uint \<Rightarrow> bool" where
  "present m d x \<longleftrightarrow> load32 m (d + 4 * x) AND PTE_P \<noteq> 0"

definition pgtab :: "memory \<Rightarrow> addr \<Rightarrow> uint \<Rightarrow> addr" where
  "pgtab m d x = P2V (PTE_ADDR (load32 m (d + 4 * x)))"

definition pte_of :: "memory \<Rightarrow> addr \<Rightarrow> addr \<Rightarrow> uint" where
  "pte_of m d va = (if present m d (PDX va) then load32 m (pgtab m d (PDX va) + 4 * PTX va) else 0)"

definition tpages :: "memory \<Rightarrow> addr \<Rightarrow> addr set" where
  "tpages m d = insert d {pgtab m d x |x. unat x < 1024 \<and> present m d x}"

text \<open>A directory whose tables are pages of their own, none of them free.\<close>

definition tables_ok :: "memory \<Rightarrow> addr \<Rightarrow> addr list \<Rightarrow> bool" where
  "tables_ok m d ps \<longleftrightarrow> pgaligned d \<and> tpages m d \<inter> set ps = {} \<and> 0 \<notin> tpages m d
     \<and> (\<forall>x. unat x < 1024 \<longrightarrow> present m d x \<longrightarrow> pgtab m d x \<noteq> d)
     \<and> (\<forall>x y. unat x < 1024 \<longrightarrow> unat y < 1024 \<longrightarrow> present m d x \<longrightarrow> present m d y
          \<longrightarrow> pgtab m d x = pgtab m d y \<longrightarrow> x = y)"

definition vm_ready :: "'a vmach_scheme \<Rightarrow> addr \<Rightarrow> addr list \<Rightarrow> bool" where
  "vm_ready s d ps \<longleftrightarrow> kmem_ready s \<and> free_pages s ps \<and> tables_ok (m_mem s) d ps"

lemma slot_facts:
  assumes "pgaligned d" "unat (x :: uint) < 1024"
  shows "unat (d + 4 * x) = unat d + 4 * unat x" "aligned4 (d + 4 * x)" "PGROUNDDOWN (d + 4 * x) = d"
proof -
  have e: "d + 4 * x = d + of_nat (4 * unat x)" by simp
  have k: "4 * unat x < 4096" using assms(2) by simp
  show u: "unat (d + 4 * x) = unat d + 4 * unat x"
    unfolding e by (rule pgaligned_add_page(1) [OF assms(1) k])
  show "PGROUNDDOWN (d + 4 * x) = d"
    unfolding e by (rule pgaligned_add_page(2) [OF assms(1) k])
  have "4 dvd unat d" using pgaligned_aligned4 [OF assms(1)] by (simp add: aligned4_def)
  then show "aligned4 (d + 4 * x)" unfolding aligned4_def u by simp
qed

lemma slot_inj:
  assumes "pgaligned d" "unat (x :: uint) < 1024" "unat (y :: uint) < 1024" "d + 4 * x = d + 4 * y"
  shows "x = y"
proof -
  have "unat d + 4 * unat x = unat d + 4 * unat y"
    using slot_facts(1) [OF assms(1,2)] slot_facts(1) [OF assms(1,3)] assms(4) by simp
  then show ?thesis by (simp add: word_unat_eq_iff)
qed

lemma pgaligned_P2V: "pgaligned a \<Longrightarrow> pgaligned (P2V a)"
  unfolding pgaligned_def P2V_def KERNBASE_def
  by (simp add: unat_word_ariths) (rule dvd_mod, rule dvd_add, simp_all)

lemma pgaligned_table [simp]: "pgaligned (pgtab m d x)"
  by (simp add: pgtab_def pgaligned_P2V)

lemma pgaligned_low: "pgaligned a \<Longrightarrow> a AND 0xFFF = 0"
proof -
  assume "pgaligned a"
  then have "unat a mod 4096 = 0" by (simp add: pgaligned_def)
  then have "a mod 4096 = 0" by (simp add: word_unat_eq_iff unat_mod)
  then show ?thesis by (simp add: mask12 take_bit_eq_mod flip: take_bit_eq_mask)
qed

lemma pgaligned_V2P: "pgaligned a \<Longrightarrow> pgaligned (V2P a)"
proof -
  have "V2P a = P2V a" by (simp add: V2P_def P2V_def KERNBASE_def)
  then show "pgaligned a \<Longrightarrow> pgaligned (V2P a)" by (simp add: pgaligned_P2V)
qed

text \<open>An entry made of a page address and flags, taken apart.\<close>

lemma pte_parts:
  assumes "pgaligned a" "f AND 0xFFF = f"
  shows "PTE_ADDR (a OR f) = a" "g AND 0xFFF = g \<Longrightarrow> (a OR f) AND g = f AND g"
proof -
  have a: "a AND NOT 0xFFF = a"
    using assms(1) by (metis PTE_ADDR_def word_unat_eq_iff unat_PTE_ADDR pgaligned_def dvd_div_mult_self)
  have f: "f AND NOT 0xFFF = 0" by (subst assms(2) [symmetric]) (simp add: and.assoc)
  show "PTE_ADDR (a OR f) = a"
    unfolding PTE_ADDR_def bit.conj_disj_distrib2 a f by simp
  assume g: "g AND 0xFFF = g"
  have "a AND g = (a AND 0xFFF) AND g" by (subst g [symmetric]) (simp add: ac_simps)
  then have "a AND g = 0" using pgaligned_low [OF assms(1)] by simp
  then show "(a OR f) AND g = f AND g" by (simp add: bit.conj_disj_distrib2)
qed

lemma tables_okD:
  assumes "tables_ok m d ps"
  shows "pgaligned d" "d \<notin> set ps"
    "unat x < 1024 \<Longrightarrow> present m d x \<Longrightarrow> pgtab m d x \<notin> set ps"
    "unat x < 1024 \<Longrightarrow> present m d x \<Longrightarrow> pgtab m d x \<noteq> d"
    "unat x < 1024 \<Longrightarrow> unat y < 1024 \<Longrightarrow> present m d x \<Longrightarrow> present m d y \<Longrightarrow> pgtab m d x = pgtab m d y \<Longrightarrow> x = y"
    "d \<noteq> 0" "unat x < 1024 \<Longrightarrow> present m d x \<Longrightarrow> pgtab m d x \<noteq> 0"
  using assms unfolding tables_ok_def tpages_def by auto

text \<open>Memories that agree on the pages of the tables have the same tables.\<close>

lemma dir_page_eq:
  assumes "page_eq d m m'" "pgaligned d" "unat x < 1024"
  shows "present m' d x = present m d x" "pgtab m' d x = pgtab m d x"
proof -
  have "page_eq (d + 4 * x) m m'"
    using assms slot_facts(3) [OF assms(2,3)] PGROUNDDOWN_aligned [OF assms(2)] by (simp add: page_eq_def)
  then have "load32 m (d + 4 * x) = load32 m' (d + 4 * x)"
    using slot_facts(2) [OF assms(2,3)] by (rule load32_page_eq)
  then show "present m' d x = present m d x" "pgtab m' d x = pgtab m d x"
    by (simp_all add: present_def pgtab_def)
qed

lemma tpages_dir_eq:
  assumes "page_eq d m m'" "pgaligned d"
  shows "tpages m' d = tpages m d"
proof -
  have "(\<exists>x. y = pgtab m' d x \<and> unat x < 1024 \<and> present m' d x)
      = (\<exists>x. y = pgtab m d x \<and> unat x < 1024 \<and> present m d x)" for y
    using dir_page_eq [OF assms] by metis
  then show ?thesis by (simp add: tpages_def)
qed

lemma slot_page_eq:
  assumes "page_eq d m m'" "pgaligned d" "unat x < 1024"
  shows "load32 m' (d + 4 * x) = load32 m (d + 4 * x)"
proof -
  have "page_eq (d + 4 * x) m m'"
    using assms slot_facts(3) [OF assms(2,3)] PGROUNDDOWN_aligned [OF assms(2)] by (simp add: page_eq_def)
  then show ?thesis using slot_facts(2) [OF assms(2,3)] by (simp add: load32_page_eq)
qed

lemma tables_page_eq:
  assumes "pgaligned d" "\<And>b. b \<in> tpages m d \<Longrightarrow> page_eq b m m'"
  shows "tpages m' d = tpages m d" "pte_of m' d va = pte_of m d va"
    "unat x < 1024 \<Longrightarrow> present m' d x = present m d x" "unat x < 1024 \<Longrightarrow> pgtab m' d x = pgtab m d x"
    "tables_ok m' d ps = tables_ok m d ps"
proof -
  have d: "page_eq d m m'" using assms(2) by (simp add: tpages_def)
  note e = dir_page_eq [OF d assms(1)]
  show "tpages m' d = tpages m d" using tpages_dir_eq [OF d assms(1)] .
  show "unat x < 1024 \<Longrightarrow> present m' d x = present m d x" "unat x < 1024 \<Longrightarrow> pgtab m' d x = pgtab m d x"
    using e by auto
  have "load32 m' (pgtab m d (PDX va) + 4 * PTX va) = load32 m (pgtab m d (PDX va) + 4 * PTX va)"
    if "present m d (PDX va)"
    using that by (intro slot_page_eq assms(2)) (auto simp: tpages_def)
  then show "pte_of m' d va = pte_of m d va" using e by (auto simp: pte_of_def)
  show "tables_ok m' d ps = tables_ok m d ps"
    using e \<open>tpages m' d = tpages m d\<close> unfolding tables_ok_def by auto
qed

text \<open>Writing an entry of a page table.\<close>

lemma same_page_index:
  assumes "PGROUNDDOWN w = PGROUNDDOWN va"
  shows "PDX w = PDX va" "PTX w = PTX va"
proof -
  have "unat w div 4096 * 4096 = unat va div 4096 * 4096"
    using assms unat_PGROUNDDOWN by metis
  then have e: "unat w div 4096 = unat va div 4096" by simp
  have "unat w div 2 ^ 22 = unat va div 2 ^ 22"
    using e div_mult2_eq [of "unat w" 4096 1024] div_mult2_eq [of "unat va" 4096 1024] by simp
  then show "PDX w = PDX va" by (simp add: word_unat_eq_iff unat_PDX)
  show "PTX w = PTX va" using e by (simp add: word_unat_eq_iff unat_PTX)
qed

lemma pte_store:
  fixes v :: uint
  assumes ok: "tables_ok m d ps" and pr: "present m d (PDX va)"
  defines "m' \<equiv> store32 m (pgtab m d (PDX va) + 4 * PTX va) v"
  shows "tables_ok m' d ps" "tpages m' d = tpages m d"
    "pte_of m' d w = (if PGROUNDDOWN w = PGROUNDDOWN va then v else pte_of m d w)"
    "PGROUNDDOWN b \<noteq> pgtab m d (PDX va) \<Longrightarrow> page_eq b m' m"
proof -
  let ?t = "pgtab m d (PDX va)"
  note al = slot_facts [OF pgaligned_table unat_PTX_less, of m d "PDX va" va]
  have d: "pgaligned d" "?t \<noteq> d" using tables_okD [OF ok] pr by auto
  show fr: "PGROUNDDOWN b \<noteq> ?t \<Longrightarrow> page_eq b m' m" for b
    unfolding m'_def using al by (intro store32_page_eq) auto
  have pd: "page_eq d m m'" using fr [of d] d by (simp add: PGROUNDDOWN_aligned page_eq_sym)
  note e = dir_page_eq [OF pd d(1)]
  show tp: "tpages m' d = tpages m d" using tpages_dir_eq [OF pd d(1)] .
  show "tables_ok m' d ps" using ok e tp unfolding tables_ok_def by auto
  show "pte_of m' d w = (if PGROUNDDOWN w = PGROUNDDOWN va then v else pte_of m d w)"
  proof (cases "PGROUNDDOWN w = PGROUNDDOWN va")
    case True
    then have "PDX w = PDX va" "PTX w = PTX va" by (rule same_page_index)+
    then show ?thesis using True pr e(1) [of "PDX va"] e(2) [of "PDX va"]
      by (simp add: pte_of_def m'_def load32_store32_same)
  next
    case False
    have "load32 m' (pgtab m d (PDX w) + 4 * PTX w) = load32 m (pgtab m d (PDX w) + 4 * PTX w)"
      if "present m d (PDX w)"
    proof -
      have "pgtab m d (PDX w) + 4 * PTX w \<noteq> ?t + 4 * PTX va"
      proof
        assume eq: "pgtab m d (PDX w) + 4 * PTX w = ?t + 4 * PTX va"
        then have t: "pgtab m d (PDX w) = ?t"
          using slot_facts(3) [OF pgaligned_table unat_PTX_less] by metis
        then have "PDX w = PDX va" using tables_okD(5) [OF ok] that pr by auto
        moreover have "PTX w = PTX va" using eq t slot_inj [OF pgaligned_table] by (metis unat_PTX_less)
        ultimately show False using False page_index_inj by blast
      qed
      then show ?thesis
        unfolding m'_def using al(2) slot_facts(2) [OF pgaligned_table unat_PTX_less]
        by (intro load32_store32_other) auto
    qed
    then show ?thesis using False e by (simp add: pte_of_def)
  qed
qed

section \<open>Walking the tables\<close>

lemma walkpgdir_present:
  "present (m_mem s) d (PDX va) \<Longrightarrow>
     walkpgdir d va alloc s = Ret (pgtab (m_mem s) d (PDX va) + 4 * PTX va) s"
  by (simp add: walkpgdir_def Let_def kload32_def kbind_run present_def pgtab_def)

lemma walkpgdir_absent: "\<not> present (m_mem s) d (PDX va) \<Longrightarrow> walkpgdir d va False s = Ret 0 s"
  by (simp add: walkpgdir_def Let_def kload32_def kbind_run present_def)

text \<open>The memory with a new, empty page table.\<close>

definition with_table :: "memory \<Rightarrow> addr \<Rightarrow> uint \<Rightarrow> addr \<Rightarrow> memory" where
  "with_table m d x p = store32 (memset m p 0 PGSIZE) (d + 4 * x) (V2P p OR PTE_P OR PTE_W OR PTE_U)"

lemma memset_zero_page:
  assumes "pgaligned p" "unat x < 1024"
  shows "load32 (memset m p 0 PGSIZE) (p + 4 * x) = 0"
proof -
  note f = slot_facts [OF assms]
  have "memset m p 0 PGSIZE y = 0" if "PGROUNDDOWN y = p" for y
    using that page_offset [OF assms(1), of y]
    by (simp add: memset_eq write_bytes_def PGSIZE_def)
  then show ?thesis
    using f(3) PGROUNDDOWN_add_1_2_3 [OF f(2)] by (simp add: load32_def)
qed

lemma with_table_pages:
  assumes "pgaligned d" "pgaligned p" "unat x < 1024" "p \<noteq> d"
  shows "PGROUNDDOWN b \<noteq> p \<Longrightarrow> PGROUNDDOWN b \<noteq> d \<Longrightarrow> page_eq b (with_table m d x p) m"
    "page_eq p (with_table m d x p) (memset m p 0 PGSIZE)"
proof -
  note f = slot_facts [OF assms(1,3)]
  have s: "PGROUNDDOWN b \<noteq> d \<Longrightarrow> page_eq b (with_table m d x p) (memset m p 0 PGSIZE)" for b
    unfolding with_table_def using f by (intro store32_page_eq) auto
  then show "page_eq p (with_table m d x p) (memset m p 0 PGSIZE)"
    using assms(2,4) by (simp add: PGROUNDDOWN_aligned)
  show "PGROUNDDOWN b \<noteq> p \<Longrightarrow> PGROUNDDOWN b \<noteq> d \<Longrightarrow> page_eq b (with_table m d x p) m"
    using s memset_page_eq [OF assms(2)] page_eq_trans by blast
qed

lemma with_table_entries:
  assumes "pgaligned d" "pgaligned p" "unat x < 1024" "p \<noteq> d" "unat y < 1024"
  shows "present (with_table m d x p) d y = (y = x \<or> present m d y)"
    "pgtab (with_table m d x p) d y = (if y = x then p else pgtab m d y)"
    "y \<noteq> x \<Longrightarrow> load32 (with_table m d x p) (d + 4 * y) = load32 m (d + 4 * y)"
proof -
  let ?e = "V2P p OR PTE_P OR PTE_W OR PTE_U"
  note f = slot_facts [OF assms(1,3)] slot_facts [OF assms(1,5)]
  have "page_eq d m (memset m p 0 PGSIZE)"
    using memset_page_eq [OF assms(2), of d] assms(1,4) by (simp add: PGROUNDDOWN_aligned page_eq_sym)
  then have o: "load32 (memset m p 0 PGSIZE) (d + 4 * y) = load32 m (d + 4 * y)"
    by (rule slot_page_eq [OF _ assms(1,5)])
  have l: "load32 (with_table m d x p) (d + 4 * y) = (if y = x then ?e else load32 m (d + 4 * y))"
    unfolding with_table_def using f o slot_inj [OF assms(1,3,5)]
    by (auto simp: load32_store32)
  have e: "PTE_ADDR ?e = V2P p" "?e AND PTE_P \<noteq> 0"
    using pte_parts [OF pgaligned_V2P [OF assms(2)], of "PTE_P OR PTE_W OR PTE_U"]
    by (simp_all add: pte_defs)
  show "present (with_table m d x p) d y = (y = x \<or> present m d y)"
    "pgtab (with_table m d x p) d y = (if y = x then p else pgtab m d y)"
    using e by (auto simp: present_def pgtab_def l)
  show "y \<noteq> x \<Longrightarrow> load32 (with_table m d x p) (d + 4 * y) = load32 m (d + 4 * y)"
    using l by simp
qed

lemma with_table_ok:
  assumes ok: "tables_ok m d (p # ps)" and ab: "\<not> present m d x" and x: "unat x < 1024"
    and p: "pgaligned p" "p \<notin> set ps" "p \<noteq> 0"
  shows "tpages (with_table m d x p) d = insert p (tpages m d)"
    "tables_ok (with_table m d x p) d ps"
    "pte_of (with_table m d x p) d va = pte_of m d va"
proof -
  let ?m = "with_table m d x p"
  have d: "pgaligned d" "p \<noteq> d" using tables_okD(1,2) [OF ok] by auto
  note e = with_table_entries(1,2) [OF d(1) p(1) x d(2)]
  have "(\<exists>y. q = pgtab ?m d y \<and> unat y < 1024 \<and> present ?m d y)
      = (q = p \<or> (\<exists>y. q = pgtab m d y \<and> unat y < 1024 \<and> present m d y))" for q
    using e x ab by metis
  then show tp: "tpages ?m d = insert p (tpages m d)" by (auto simp: tpages_def)
  have t: "pgtab m d y \<noteq> p" if "unat y < 1024" "present m d y" for y
    using tables_okD(3) [OF ok that] by auto
  show "tables_ok ?m d ps"
    unfolding tables_ok_def
  proof (intro conjI allI impI)
    show "tpages ?m d \<inter> set ps = {}" "0 \<notin> tpages ?m d"
      using ok p(2,3) tp by (auto simp: tables_ok_def)
  next
    fix y assume y: "unat y < 1024" "present ?m d y"
    then show "pgtab ?m d y \<noteq> d" using e d tables_okD(4) [OF ok, of y] by auto
  next
    fix y z assume "unat y < 1024" "unat z < 1024" "present ?m d y" "present ?m d z" "pgtab ?m d y = pgtab ?m d z"
    then show "y = z" using e t tables_okD(5) [OF ok, of y z] by (auto split: if_splits)
  qed (rule d)
  have "load32 ?m (pgtab m d (PDX va) + 4 * PTX va) = load32 m (pgtab m d (PDX va) + 4 * PTX va)"
    if "present m d (PDX va)"
  proof (rule slot_page_eq [OF _ pgaligned_table unat_PTX_less])
    show "page_eq (pgtab m d (PDX va)) m ?m"
      using that t [of "PDX va"] tables_okD(4) [OF ok, of "PDX va"]
        with_table_pages(1) [OF d(1) p(1) x d(2), of "pgtab m d (PDX va)"]
      by (simp add: PGROUNDDOWN_aligned page_eq_sym)
  qed
  moreover have "load32 ?m (p + 4 * PTX va) = 0"
    using slot_page_eq [OF page_eq_sym [OF with_table_pages(2) [OF d(1) p(1) x d(2)]] p(1), of "PTX va"]
      memset_zero_page [OF p(1), of "PTX va"] by simp
  ultimately show "pte_of ?m d va = pte_of m d va" using e ab by (auto simp: pte_of_def)
qed

lemma free_pages_page_eq:
  assumes "free_pages s ps" "\<And>p. p \<in> set ps \<Longrightarrow> page_eq p (m_mem s) m"
  shows "free_pages (s\<lparr>m_mem := m\<rparr>) ps"
proof -
  have "flist m (km_freelist (st_kmem s)) ps"
    by (rule flist_page_eq [of "m_mem s"]) (use assms in \<open>auto simp: free_pages_def\<close>)
  then show ?thesis using assms(1) by (simp add: free_pages_def)
qed

lemma kmem_mem_swap: "(s :: 'a kmach_scheme)\<lparr>st_kmem := k, m_mem := m\<rparr> = s\<lparr>m_mem := m, st_kmem := k\<rparr>"
  by simp

text \<open>
  What the routines that grow the tables do to the state: they take pages from the front of the
  free list, use them for tables, and write no other page than those and the tables.
\<close>

definition dir_kept :: "addr \<Rightarrow> memory \<Rightarrow> memory \<Rightarrow> bool" where
  "dir_kept d m m' \<longleftrightarrow> (\<forall>x. unat x < 1024 \<longrightarrow> present m d x \<longrightarrow> load32 m' (d + 4 * x) = load32 m (d + 4 * x))"

lemma dir_kept_refl [simp]: "dir_kept d m m"
  by (simp add: dir_kept_def)

lemma dir_kept_trans: "dir_kept d m m' \<Longrightarrow> dir_kept d m' m'' \<Longrightarrow> dir_kept d m m''"
  by (simp add: dir_kept_def present_def)

lemma dir_kept_page: "page_eq d m m' \<Longrightarrow> pgaligned d \<Longrightarrow> dir_kept d m m'"
  by (simp add: dir_kept_def slot_page_eq)

definition vm_step :: "addr \<Rightarrow> 'a vmach_scheme \<Rightarrow> addr list \<Rightarrow> memory \<Rightarrow> kmem \<Rightarrow> addr list \<Rightarrow> bool" where
  "vm_step d s ps m k qs \<longleftrightarrow> vm_ready (s\<lparr>m_mem := m, st_kmem := k\<rparr>) d qs
     \<and> (\<exists>j. qs = drop j ps) \<and> tpages m d \<subseteq> tpages (m_mem s) d \<union> (set ps - set qs)
     \<and> km_use_lock k = km_use_lock (st_kmem s) \<and> dir_kept d (m_mem s) m
     \<and> (\<forall>b. PGROUNDDOWN b \<notin> tpages (m_mem s) d \<union> (set ps - set qs) \<longrightarrow> page_eq b m (m_mem s))"

lemma vm_step_refl: "vm_ready s d ps \<Longrightarrow> vm_step d s ps (m_mem s) (st_kmem s) ps"
  unfolding vm_step_def by (simp add: exI [of _ 0])

lemma vm_step_trans:
  assumes "vm_step d s ps m k qs" "vm_step d (s\<lparr>m_mem := m, st_kmem := k\<rparr>) qs m' k' rs"
  shows "vm_step d s ps m' k' rs"
proof -
  obtain i j where ij: "qs = drop i ps" "rs = drop j qs" using assms by (auto simp: vm_step_def)
  have r: "rs = drop (i + j) ps" using ij by (simp add: add.commute)
  have sub: "set rs \<subseteq> set qs" "set qs \<subseteq> set ps" using ij set_drop_subset [of j qs] set_drop_subset [of i ps] by simp_all
  then have u: "set ps - set rs = (set ps - set qs) \<union> (set qs - set rs)" by auto
  have f: "page_eq b m' (m_mem s)" if b: "PGROUNDDOWN b \<notin> tpages (m_mem s) d \<union> (set ps - set rs)" for b
  proof -
    have "page_eq b m (m_mem s)" using assms(1) b u by (simp add: vm_step_def)
    moreover have "PGROUNDDOWN b \<notin> tpages m d \<union> (set qs - set rs)"
      using assms(1) b u by (auto simp: vm_step_def)
    then have "page_eq b m' m" using assms(2) by (simp add: vm_step_def)
    ultimately show ?thesis using page_eq_trans by blast
  qed
  have "tpages m' d \<subseteq> tpages (m_mem s) d \<union> (set ps - set rs)"
    using assms u by (auto simp: vm_step_def)
  moreover have "dir_kept d (m_mem s) m'"
    using assms dir_kept_trans [of d "m_mem s" m m'] by (simp add: vm_step_def)
  ultimately show ?thesis
    unfolding vm_step_def using assms f r by (auto simp: vm_step_def)
qed

lemma vm_step_store:
  assumes "vm_step d s ps m k qs" "present m d (PDX va)"
  shows "vm_step d s ps (store32 m (pgtab m d (PDX va) + 4 * PTX va) v) k qs"
proof (rule vm_step_trans [OF assms(1)])
  let ?m = "store32 m (pgtab m d (PDX va) + 4 * PTX va) v" and ?s = "s\<lparr>m_mem := m, st_kmem := k\<rparr>"
  have r: "vm_ready ?s d qs" using assms(1) by (simp add: vm_step_def)
  have f: "free_pages ?s qs" and ok: "tables_ok m d qs" using r by (auto simp: vm_ready_def)
  note st = pte_store [OF ok assms(2)]
  have tb: "pgtab m d (PDX va) \<in> tpages m d" "pgtab m d (PDX va) \<notin> set qs"
    using assms(2) tables_okD(3) [OF ok] by (auto simp: tpages_def)
  have "page_eq q m ?m" if "q \<in> set qs" for q
  proof -
    have "PGROUNDDOWN q = q" using f that by (auto simp: free_pages_def)
    moreover have "q \<noteq> pgtab m d (PDX va)" using tb that by auto
    ultimately show ?thesis using st(4) page_eq_sym by metis
  qed
  then have "free_pages (?s\<lparr>m_mem := ?m\<rparr>) qs" by (intro free_pages_page_eq [OF f]) simp
  then have "vm_ready (s\<lparr>m_mem := ?m, st_kmem := k\<rparr>) d qs"
    using r st(1) by (simp add: vm_ready_def free_pages_def kmem_ready_def)
  moreover have "dir_kept d m ?m"
    using st(4) [of d] tables_okD(1) [OF ok] tables_okD(4) [OF ok unat_PDX_less assms(2)]
    by (intro dir_kept_page) (auto simp: PGROUNDDOWN_aligned page_eq_sym)
  ultimately show "vm_step d ?s qs ?m k qs"
    unfolding vm_step_def
  proof (intro conjI allI impI)
    fix b assume "PGROUNDDOWN b \<notin> tpages (m_mem ?s) d \<union> (set qs - set qs)"
    then have "PGROUNDDOWN b \<noteq> pgtab m d (PDX va)" using tb(1) by auto
    then show "page_eq b ?m (m_mem ?s)" using st(4) by simp
  qed (use st(2) in \<open>auto intro: exI [of _ 0]\<close>)
qed

lemma with_table_step:
  assumes r: "kmem_ready s" "free_pages s ps" "tables_ok (m_mem s) d ps" and Cons: "ps = p # qs"
    and ab: "\<not> present (m_mem s) d (PDX va)" and k: "km_use_lock k = km_use_lock (st_kmem s)"
      "free_pages (s\<lparr>st_kmem := k\<rparr>) qs"
  shows "vm_step d s ps (with_table (m_mem s) d (PDX va) p) k qs"
proof -
  let ?m = "with_table (m_mem s) d (PDX va) p"
  have p: "pgaligned p" "p \<notin> set qs" "p \<noteq> 0" using r(2) Cons by (auto simp: free_pages_def kpage_def)
  have d: "pgaligned d" "p \<noteq> d" using tables_okD(1,2) [OF r(3)] Cons by auto
  note w = with_table_ok [OF r(3) [unfolded Cons] ab unat_PDX_less p]
  note pg = with_table_pages(1) [OF d(1) p(1) unat_PDX_less d(2)]
  have "page_eq q (m_mem s) ?m" if "q \<in> set qs" for q
  proof -
    have "PGROUNDDOWN q = q" using k(2) that by (auto simp: free_pages_def)
    moreover have "q \<noteq> p" "q \<noteq> d" using that p(2) tables_okD(2) [OF r(3)] Cons by auto
    ultimately show ?thesis using pg page_eq_sym by metis
  qed
  then have "free_pages (s\<lparr>st_kmem := k\<rparr>\<lparr>m_mem := ?m\<rparr>) qs"
    using k(2) by (intro free_pages_page_eq) auto
  then have c1: "vm_ready (s\<lparr>m_mem := ?m, st_kmem := k\<rparr>) d qs"
    using w(2) r(1) k(1) by (simp add: vm_ready_def free_pages_def)
  have c2: "page_eq b ?m (m_mem s)" if "PGROUNDDOWN b \<notin> tpages (m_mem s) d \<union> (set ps - set qs)" for b
  proof -
    have "PGROUNDDOWN b \<noteq> p" "PGROUNDDOWN b \<noteq> d" using that Cons p(2) by (auto simp: tpages_def)
    then show ?thesis by (rule pg)
  qed
  have c3: "tpages ?m d \<subseteq> tpages (m_mem s) d \<union> (set ps - set qs)" using w(1) Cons p(2) by auto
  have "dir_kept d (m_mem s) ?m"
    unfolding dir_kept_def using with_table_entries(3) [OF d(1) p(1) unat_PDX_less d(2)] ab by metis
  moreover have "qs = drop 1 ps" using Cons by simp
  ultimately show ?thesis unfolding vm_step_def using c1 c2 c3 k(1) by blast
qed

text \<open>
  \<open>walkpgdir\<close> that may allocate: it returns the address of the entry, having added an empty table
  if there was none, or 0 when there is no page for it.
\<close>

lemma walkpgdir_alloc:
  assumes "vm_ready s d ps"
  shows "(\<exists>m k qs. walkpgdir d va True s =
        Ret (pgtab m d (PDX va) + 4 * PTX va) (s\<lparr>m_mem := m, st_kmem := k\<rparr>)
      \<and> vm_step d s ps m k qs \<and> present m d (PDX va) \<and> length ps \<le> Suc (length qs)
      \<and> (\<forall>w. pte_of m d w = pte_of (m_mem s) d w))
    \<or> (walkpgdir d va True s = Ret 0 s \<and> ps = [])"
proof (cases "present (m_mem s) d (PDX va)")
  case True
  then show ?thesis
    using walkpgdir_present [OF True, of True] vm_step_refl [OF assms]
    by (intro disjI1 exI [of _ "m_mem s"] exI [of _ "st_kmem s"] exI [of _ ps] conjI) simp_all
next
  case False
  have r: "kmem_ready s" "free_pages s ps" "tables_ok (m_mem s) d ps"
    using assms by (auto simp: vm_ready_def)
  show ?thesis
  proof (cases ps)
    case Nil
    then show ?thesis using kalloc_no_pages [OF r(1)] r(2) False
      by (simp add: walkpgdir_def Let_def kload32_def kbind_run present_def)
  next
    case (Cons p qs)
    obtain k where k: "kalloc s = Ret p (s\<lparr>st_kmem := k\<rparr>)" "km_use_lock k = km_use_lock (st_kmem s)"
      "free_pages (s\<lparr>st_kmem := k\<rparr>) qs"
      using kalloc_free_pages [OF r(1)] r(2) Cons by blast
    let ?m = "with_table (m_mem s) d (PDX va) p"
    have p: "pgaligned p" "p \<notin> set qs" "p \<noteq> 0" using r(2) Cons by (auto simp: free_pages_def kpage_def)
    have d: "pgaligned d" "p \<noteq> d" using tables_okD(1,2) [OF r(3)] Cons by auto
    note w = with_table_ok [OF r(3) [unfolded Cons] False unat_PDX_less p]
    have tb: "pgtab ?m d (PDX va) = p" "present ?m d (PDX va)"
      using with_table_entries [OF d(1) p(1) unat_PDX_less d(2) unat_PDX_less] by auto
    have "vm_step d s ps ?m k qs"
      by (rule with_table_step [OF r Cons False k(2,3)])
    moreover have "walkpgdir d va True s =
        Ret (pgtab ?m d (PDX va) + 4 * PTX va) (s\<lparr>m_mem := ?m, st_kmem := k\<rparr>)"
      unfolding tb(1) using False p(3) k(1)
      by (simp add: walkpgdir_def Let_def kload32_def kmemset_def kstore32_def kbind_run kseq_run
          present_def with_table_def)
    ultimately show ?thesis
      using tb(2) w(3) Cons
      by (intro disjI1 exI [of _ ?m] exI [of _ k] exI [of _ qs] conjI) simp_all
  qed
qed

section \<open>Mapping pages\<close>

lemma page_distance:
  assumes "pgaligned a"
  shows "PGROUNDDOWN w = a \<longleftrightarrow> unat (w - a) div 4096 = 0"
  unfolding page_offset [OF assms, of w, symmetric] by (simp only: div_eq_0_iff) simp

lemma unat_minus_page: "unat ((x :: uint) - 4096) = (if unat x < 4096 then unat x + 4294963200 else unat x - 4096)"
  by (simp add: unat_sub_if_size word_size)

lemma page_distance_next:
  fixes a w :: uint
  shows "unat (w - (a + 4096)) div 4096 =
    (if unat (w - a) div 4096 = 0 then 2 ^ 20 - 1 else unat (w - a) div 4096 - 1)"
proof -
  define n where "n = unat (w - a)"
  have e: "w - (a + 4096) = (w - a) - 4096" by simp
  have "(if n < 4096 then n + 4294963200 else n - 4096) div 4096 =
    (if n div 4096 = 0 then 2 ^ 20 - 1 else n div 4096 - 1)"
    using le_div_geq [of 4096 n] by (cases "n < 4096") simp_all
  then show ?thesis unfolding e unat_minus_page n_def .
qed

lemma pgaligned_next: "pgaligned a \<Longrightarrow> pgaligned (a + 4096)"
  unfolding pgaligned_def by (simp add: unat_word_ariths) (rule dvd_mod, rule dvd_add, simp_all)

text \<open>
  The tables after a run of \<open>mappages\<close> over \<open>Suc n\<close> pages from \<open>a\<close>: the entry of every page of the
  run has the frame at the same distance from \<open>pa\<close>; every other entry is as before.
\<close>

definition mapped :: "memory \<Rightarrow> memory \<Rightarrow> addr \<Rightarrow> addr \<Rightarrow> nat \<Rightarrow> uint \<Rightarrow> uint \<Rightarrow> bool" where
  "mapped m m' d a n pa perm \<longleftrightarrow> (\<forall>w. pte_of m' d w =
     (if unat (w - a) div 4096 \<le> n then (pa + (PGROUNDDOWN w - a)) OR perm OR PTE_P else pte_of m d w))"

lemma mapped_Suc:
  assumes "mapped m1 m2 d (a + 4096) n (pa + 4096) perm" "pgaligned a" "n < 2 ^ 20 - 1"
    and "\<And>w. pte_of m1 d w = (if PGROUNDDOWN w = a then pa OR perm OR PTE_P else pte_of m d w)"
  shows "mapped m m2 d a (Suc n) pa perm"
  unfolding mapped_def
proof
  fix w
  have *: "unat (w - (a + 4096)) div 4096 \<le> n \<longleftrightarrow>
      unat (w - a) div 4096 \<noteq> 0 \<and> unat (w - a) div 4096 \<le> Suc n"
    using assms(3) by (auto simp: page_distance_next)
  have "pa + 4096 + (PGROUNDDOWN w - (a + 4096)) = pa + (PGROUNDDOWN w - a)" by simp
  then have "pte_of m2 d w = (if unat (w - a) div 4096 \<noteq> 0 \<and> unat (w - a) div 4096 \<le> Suc n
      then (pa + (PGROUNDDOWN w - a)) OR perm OR PTE_P else pte_of m1 d w)"
    using assms(1) [unfolded mapped_def, rule_format, of w] * by simp
  then show "pte_of m2 d w = (if unat (w - a) div 4096 \<le> Suc n
      then (pa + (PGROUNDDOWN w - a)) OR perm OR PTE_P else pte_of m d w)"
    using assms(4) [of w] page_distance [OF assms(2), of w]
    by (cases "unat (w - a) div 4096 = 0") simp_all
qed

lemma entry_nonzero:
  assumes "tables_ok m d ps" "present m d (PDX va)"
  shows "pgtab m d (PDX va) + 4 * PTX va \<noteq> 0"
proof -
  have "unat (pgtab m d (PDX va)) \<noteq> 0"
    using tables_okD(7) [OF assms(1) unat_PDX_less assms(2)] by (simp add: unat_eq_0)
  then have "unat (pgtab m d (PDX va) + 4 * PTX va) \<noteq> 0"
    by (simp add: slot_facts(1) [OF pgaligned_table unat_PTX_less])
  then show ?thesis by auto
qed

text \<open>One page: its entry is written, or there is no page for a table.\<close>

lemma mappages_page:
  assumes "vm_ready s d ps" "pte_of (m_mem s) d a AND PTE_P = 0"
  shows "(\<exists>m k qs. mappages_loop (Suc f) d a lst pa perm s =
        (if a = lst then Ret 0 (s\<lparr>m_mem := m, st_kmem := k\<rparr>)
         else mappages_loop f d (a + 4096) lst (pa + 4096) perm (s\<lparr>m_mem := m, st_kmem := k\<rparr>))
      \<and> vm_step d s ps m k qs \<and> length ps \<le> Suc (length qs)
      \<and> (\<forall>w. pte_of m d w =
          (if PGROUNDDOWN w = PGROUNDDOWN a then pa OR perm OR PTE_P else pte_of (m_mem s) d w)))
    \<or> mappages_loop (Suc f) d a lst pa perm s = Ret (- 1) s \<and> ps = []"
  using walkpgdir_alloc [OF assms(1), of a]
proof (elim disjE exE conjE)
  fix m k qs
  assume w: "walkpgdir d a True s = Ret (pgtab m d (PDX a) + 4 * PTX a) (s\<lparr>m_mem := m, st_kmem := k\<rparr>)"
    and st: "vm_step d s ps m k qs" and pr: "present m d (PDX a)" and l: "length ps \<le> Suc (length qs)"
    and pe: "\<forall>w. pte_of m d w = pte_of (m_mem s) d w"
  let ?e = "pgtab m d (PDX a) + 4 * PTX a" and ?v = "pa OR perm OR PTE_P"
  have ok: "tables_ok m d qs" using st by (simp add: vm_step_def vm_ready_def)
  have "load32 m ?e = pte_of m d a" using pr by (simp add: pte_of_def)
  then have ld: "load32 m ?e AND PTE_P = 0" using pe assms(2) by simp
  have "mappages_loop (Suc f) d a lst pa perm s =
        (if a = lst then Ret 0 (s\<lparr>m_mem := store32 m ?e ?v, st_kmem := k\<rparr>)
         else mappages_loop f d (a + 4096) lst (pa + 4096) perm (s\<lparr>m_mem := store32 m ?e ?v, st_kmem := k\<rparr>))"
    using w entry_nonzero [OF ok pr] ld
    by (simp add: kbind_run kseq_run kload32_def kstore32_def PGSIZE_def kmem_mem_swap)
  moreover have "\<forall>w. pte_of (store32 m ?e ?v) d w =
      (if PGROUNDDOWN w = PGROUNDDOWN a then ?v else pte_of (m_mem s) d w)"
    using pte_store(3) [OF ok pr] pe by simp
  ultimately show ?thesis
    using vm_step_store [OF st pr] l by (intro disjI1 exI conjI)
next
  assume "walkpgdir d a True s = Ret 0 s" "ps = []"
  then show ?thesis by (simp add: kbind_run)
qed

text \<open>The loop of \<open>mappages\<close> over \<open>Suc n\<close> pages, none of which has an entry yet.\<close>

lemma mappages_loop_run:
  assumes "vm_ready s d ps" "pgaligned a" "n < 2 ^ 20" "n < fuel"
    and "\<forall>w. unat (w - a) div 4096 \<le> n \<longrightarrow> pte_of (m_mem s) d w AND PTE_P = 0"
  shows "\<exists>r m k qs. mappages_loop fuel d a (a + of_nat (4096 * n)) pa perm s
      = Ret r (s\<lparr>m_mem := m, st_kmem := k\<rparr>) \<and> vm_step d s ps m k qs
    \<and> (r = 0 \<and> mapped (m_mem s) m d a n pa perm \<and> length ps \<le> length qs + Suc n
       \<or> r = - 1 \<and> qs = [] \<and> length ps \<le> n
         \<and> (\<forall>w. n < unat (w - a) div 4096 \<longrightarrow> pte_of m d w = pte_of (m_mem s) d w))"
  using assms
proof (induction n arbitrary: s ps a pa fuel)
  case 0
  then obtain f where f: "fuel = Suc f" by (cases fuel) auto
  have "unat (a - a) div 4096 \<le> 0" by simp
  then have "pte_of (m_mem s) d a AND PTE_P = 0" using 0 by blast
  from mappages_page [OF 0(1) this, of f a pa perm] show ?case
  proof (elim disjE exE conjE)
    fix m k qs
    assume *: "mappages_loop (Suc f) d a a pa perm s = (if a = a then Ret 0 (s\<lparr>m_mem := m, st_kmem := k\<rparr>)
         else mappages_loop f d (a + 4096) a (pa + 4096) perm (s\<lparr>m_mem := m, st_kmem := k\<rparr>))"
      "vm_step d s ps m k qs" "length ps \<le> Suc (length qs)"
      and pe: "\<forall>w. pte_of m d w =
          (if PGROUNDDOWN w = PGROUNDDOWN a then pa OR perm OR PTE_P else pte_of (m_mem s) d w)"
    have "mapped (m_mem s) m d a 0 pa perm"
      unfolding mapped_def
    proof
      fix w
      show "pte_of m d w = (if unat (w - a) div 4096 \<le> 0
          then (pa + (PGROUNDDOWN w - a)) OR perm OR PTE_P else pte_of (m_mem s) d w)"
        using pe page_distance [OF 0(2), of w] PGROUNDDOWN_aligned [OF 0(2)]
        by (cases "PGROUNDDOWN w = a") simp_all
    qed
    then show ?thesis using * f by (intro exI [of _ 0] exI [of _ m] exI [of _ k] exI [of _ qs]) simp
  next
    assume "mappages_loop (Suc f) d a a pa perm s = Ret (- 1) s" "ps = []"
    then show ?thesis using f vm_step_refl [OF 0(1)]
      by (intro exI [of _ "- 1"] exI [of _ "m_mem s"] exI [of _ "st_kmem s"] exI [of _ ps]) simp
  qed
next
  case (Suc n)
  let ?lst = "a + of_nat (4096 * Suc n)"
  obtain f where f: "fuel = Suc f" using Suc.prems by (cases fuel) auto
  have ne: "a \<noteq> ?lst"
  proof
    assume "a = ?lst"
    then have "(of_nat (4096 * Suc n) :: uint) = 0" by (metis add_cancel_right_right)
    then have "unat (of_nat (4096 * Suc n) :: uint) = 0" by simp
    moreover have "unat (of_nat (4096 * Suc n) :: uint) = 4096 * Suc n"
      using Suc.prems(3) by (intro unat_of_nat32) simp
    ultimately have "4096 * Suc n = 0" by (rule trans [OF sym, rotated])
    then show False by simp
  qed
  have "unat (a - a) div 4096 \<le> Suc n" by simp
  then have "pte_of (m_mem s) d a AND PTE_P = 0" using Suc.prems(5) by blast
  from mappages_page [OF Suc.prems(1) this, of f ?lst pa perm] show ?case
  proof (elim disjE exE conjE)
    fix m k qs
    assume run: "mappages_loop (Suc f) d a ?lst pa perm s = (if a = ?lst then Ret 0 (s\<lparr>m_mem := m, st_kmem := k\<rparr>)
         else mappages_loop f d (a + 4096) ?lst (pa + 4096) perm (s\<lparr>m_mem := m, st_kmem := k\<rparr>))"
      and st: "vm_step d s ps m k qs" and l: "length ps \<le> Suc (length qs)"
      and pe: "\<forall>w. pte_of m d w =
          (if PGROUNDDOWN w = PGROUNDDOWN a then pa OR perm OR PTE_P else pte_of (m_mem s) d w)"
    let ?s = "s\<lparr>m_mem := m, st_kmem := k\<rparr>"
    have pe': "pte_of m d w = (if PGROUNDDOWN w = a then pa OR perm OR PTE_P else pte_of (m_mem s) d w)" for w
      using pe PGROUNDDOWN_aligned [OF Suc.prems(2)] by simp
    have d: "unat (w - (a + 4096)) div 4096 \<le> n \<longleftrightarrow> unat (w - a) div 4096 \<noteq> 0 \<and> unat (w - a) div 4096 \<le> Suc n" for w
      using Suc.prems(3) by (simp only: page_distance_next split: if_split) arith
    have "pte_of (m_mem ?s) d w AND PTE_P = 0" if "unat (w - (a + 4096)) div 4096 \<le> n" for w
      using that Suc.prems(5) pe' [of w] page_distance [OF Suc.prems(2), of w] d [of w] by simp
    moreover have "vm_ready ?s d qs" using st by (simp add: vm_step_def)
    ultimately obtain r m' k' rs where
      r: "mappages_loop f d (a + 4096) (a + 4096 + of_nat (4096 * n)) (pa + 4096) perm ?s
          = Ret r (?s\<lparr>m_mem := m', st_kmem := k'\<rparr>)" "vm_step d ?s qs m' k' rs"
        "r = 0 \<and> mapped m m' d (a + 4096) n (pa + 4096) perm \<and> length qs \<le> length rs + Suc n
         \<or> r = - 1 \<and> rs = [] \<and> length qs \<le> n
           \<and> (\<forall>w. n < unat (w - (a + 4096)) div 4096 \<longrightarrow> pte_of m' d w = pte_of m d w)"
      using Suc.IH [of ?s qs "a + 4096" f "pa + 4096"] Suc.prems(2,3,4) pgaligned_next f by auto
    have lst: "a + 4096 + of_nat (4096 * n) = ?lst" by (simp add: distrib_left)
    have "mapped (m_mem s) m' d a (Suc n) pa perm" if "mapped m m' d (a + 4096) n (pa + 4096) perm"
      using mapped_Suc [OF that Suc.prems(2)] Suc.prems(3) pe' by simp
    moreover have "pte_of m d w = pte_of (m_mem s) d w \<and> n < unat (w - (a + 4096)) div 4096"
      if "Suc n < unat (w - a) div 4096" for w
      using that pe' [of w] page_distance [OF Suc.prems(2), of w] d [of w] by auto
    ultimately have fin: "r = 0 \<and> mapped (m_mem s) m' d a (Suc n) pa perm \<and> length ps \<le> length rs + Suc (Suc n)
         \<or> r = - 1 \<and> rs = [] \<and> length ps \<le> Suc n
           \<and> (\<forall>w. Suc n < unat (w - a) div 4096 \<longrightarrow> pte_of m' d w = pte_of (m_mem s) d w)"
      using r(3) l by auto
    show ?thesis
      using run ne r(1) [unfolded lst] vm_step_trans [OF st r(2)] fin f
      by (intro exI [of _ r] exI [of _ m'] exI [of _ k'] exI [of _ rs] conjI) simp_all
  next
    assume "mappages_loop (Suc f) d a ?lst pa perm s = Ret (- 1) s" "ps = []"
    then show ?thesis using f vm_step_refl [OF Suc.prems(1)]
      by (intro exI [of _ "- 1"] exI [of _ "m_mem s"] exI [of _ "st_kmem s"] exI [of _ ps]) simp
  qed
qed

lemma pgaligned_diff: "pgaligned a \<Longrightarrow> pgaligned b \<Longrightarrow> pgaligned (a - b)"
  unfolding pgaligned_def by (simp add: unat_sub_if_size word_size dvd_diff_nat)

text \<open>The whole routine, for a range given by its first and its last page.\<close>

lemma mappages_run:
  assumes "vm_ready s d ps" and n: "n = unat (PGROUNDDOWN (va + sz - 1) - PGROUNDDOWN va) div 4096"
    and "\<forall>w. unat (w - PGROUNDDOWN va) div 4096 \<le> n \<longrightarrow> pte_of (m_mem s) d w AND PTE_P = 0"
  shows "\<exists>r m k qs. mappages d va sz pa perm s = Ret r (s\<lparr>m_mem := m, st_kmem := k\<rparr>)
    \<and> vm_step d s ps m k qs
    \<and> (r = 0 \<and> mapped (m_mem s) m d (PGROUNDDOWN va) n pa perm \<and> length ps \<le> length qs + Suc n
       \<or> r = - 1 \<and> qs = [] \<and> length ps \<le> n
         \<and> (\<forall>w. n < unat (w - PGROUNDDOWN va) div 4096 \<longrightarrow> pte_of m d w = pte_of (m_mem s) d w))"
proof -
  let ?a = "PGROUNDDOWN va" and ?l = "PGROUNDDOWN (va + sz - 1)"
  have "4096 dvd unat (?l - ?a)"
    using pgaligned_diff [OF pgaligned_PGROUNDDOWN pgaligned_PGROUNDDOWN] by (simp add: pgaligned_def)
  then have "4096 * n = unat (?l - ?a)" by (simp add: n)
  then have "of_nat (4096 * n) = ?l - ?a" by simp
  then have l: "?l = ?a + of_nat (4096 * n)" by simp
  have "n < 2 ^ 20" using unat_lt32 [of "?l - ?a"] unfolding n by (simp add: less_mult_imp_div_less)
  then show ?thesis
    unfolding mappages_def Let_def n [symmetric]
    using mappages_loop_run [OF assms(1) pgaligned_PGROUNDDOWN, of n "Suc n" va pa perm] assms(3) l by simp
qed

text \<open>The hardware walk in terms of the entries.\<close>

lemma translate_pte:
  "translate m d PTE_P va =
     (if pte_of m d va AND PTE_P = 0 then None else Some (P2V (PTE_ADDR (pte_of m d va)) + (va AND 0xFFF)))"
  by (auto simp: translate_def pte_of_def present_def pgtab_def PTE_P_def Let_def and_one_eq)

lemma mapped_translate:
  assumes "mapped m m' d a n pa perm" "pgaligned a" "pgaligned pa" "perm AND 0xFFF = perm"
  shows "translate m' d PTE_P w =
     (if unat (w - a) div 4096 \<le> n then Some (P2V (pa + (PGROUNDDOWN w - a)) + (w AND 0xFFF))
      else translate m d PTE_P w)"
proof (cases "unat (w - a) div 4096 \<le> n")
  case True
  have "pgaligned (pa + (PGROUNDDOWN w - a))"
    using pgaligned_diff [OF assms(3) pgaligned_diff [OF assms(2) pgaligned_PGROUNDDOWN [of w]]]
    by (simp add: algebra_simps)
  moreover have "(perm OR PTE_P) AND 0xFFF = perm OR PTE_P"
    using assms(4) by (simp add: bit.conj_disj_distrib2 PTE_P_def)
  ultimately have "PTE_ADDR ((pa + (PGROUNDDOWN w - a)) OR (perm OR PTE_P)) = pa + (PGROUNDDOWN w - a)"
    "((pa + (PGROUNDDOWN w - a)) OR (perm OR PTE_P)) AND PTE_P = (perm OR PTE_P) AND PTE_P"
    using pte_parts by (simp_all add: PTE_P_def)
  moreover have "(perm OR PTE_P) AND PTE_P = PTE_P"
    by (rule bit_word_eqI) (auto simp: bit_and_iff bit_or_iff)
  ultimately show ?thesis
    using True assms(1) by (simp add: mapped_def translate_pte or.assoc) (simp add: PTE_P_def)
next
  case False
  then show ?thesis using assms(1) by (simp add: mapped_def translate_pte)
qed

section \<open>Properties\<close>

text \<open>A machine with two free pages and memory that is otherwise zero.\<close>

definition boot_vmach :: vmach where
  "boot_vmach = kmach.extend
     (boot_kmach\<lparr>m_mem := store32 (\<lambda>_. 0) 0x80101000 0x80102000,
       st_kmem := \<lparr>km_use_lock = True, km_freelist = 0x80101000\<rparr>\<rparr>)
     (vmach.fields 0x80200000 0x80108000 (\<lambda>_. 0) (\<lambda>_. None) (\<lambda>_. 0))"

lemma boot_vmach_simps [simp]:
  "st_kmem boot_vmach = \<lparr>km_use_lock = True, km_freelist = 0x80101000\<rparr>"
  "st_end boot_vmach = 0x80100000" "m_mem boot_vmach = store32 (\<lambda>_. 0) 0x80101000 0x80102000"
  by (simp_all add: boot_vmach_def kmach.defs mach.defs vmach.defs boot_kmach_def)

lemma load32_zero: "load32 (\<lambda>_. 0) a = 0"
  by (simp add: load32_def)

lemma load32_one:
  assumes "aligned4 a" "aligned4 b"
  shows "load32 (store32 (\<lambda>_. 0) a v) b = (if a = b then v else 0)"
  using assms by (simp add: load32_store32 load32_zero)

lemma boot_no_table:
  assumes "unat x < 1024"
  shows "\<not> present (store32 (\<lambda>_. 0) 0x80101000 0x80102000) 0x80200000 x"
proof -
  have "aligned4 (0x80200000 + 4 * x)" using assms by (intro slot_facts(2)) (simp add: pgaligned_def)
  then show ?thesis by (simp add: present_def load32_one aligned4_def PTE_P_def)
qed

lemma boot_translate: "translate (m_mem boot_vmach) 0x80200000 PTE_P w = None"
  using boot_no_table [of "PDX w"] by (simp add: translate_pte pte_of_def)

lemma boot_vmach_ready: "vm_ready boot_vmach 0x80200000 [0x80101000, 0x80102000]"
proof -
  have e: "cpuno boot_vmach = cpuno boot_kmach"
    by (simp add: cpuno_def boot_vmach_def kmach.defs mach.defs)
  have "kmem_ready boot_vmach"
    using boot_kmach_ready(1) e
    by (simp add: kmem_ready_def cpu_ok_def lock_free_def IF_on_def cur_def)
      (simp add: boot_vmach_def kmach.defs mach.defs)
  moreover have k: "aligned4 0x80101000" "aligned4 0x80102000"
    "kpage 0x80100000 0x80101000" "kpage 0x80100000 0x80102000"
    by (simp_all add: aligned4_def kpage_def pgaligned_def V2P_def KERNBASE_def PHYSTOP_def)
  then have "free_pages boot_vmach [0x80101000, 0x80102000]"
    by (simp add: free_pages_def load32_one)
  moreover have d: "pgaligned 0x80200000" by (simp add: pgaligned_def)
  have "tables_ok (m_mem boot_vmach) 0x80200000 [0x80101000, 0x80102000]"
    using d boot_no_table by (auto simp: tables_ok_def tpages_def)
  ultimately show ?thesis by (simp add: vm_ready_def)
qed

lemma vm_step_ready: "vm_step d s ps m k qs \<Longrightarrow> vm_ready (s\<lparr>m_mem := m, st_kmem := k\<rparr>) d qs"
  by (simp add: vm_step_def)



section \<open>Growing a process\<close>

definition zero_page :: "memory \<Rightarrow> addr \<Rightarrow> bool" where
  "zero_page m p \<longleftrightarrow> (\<forall>x. PGROUNDDOWN x = p \<longrightarrow> m x = 0)"

lemma memset_zero: "pgaligned p \<Longrightarrow> zero_page (memset m p 0 PGSIZE) p"
  using page_offset [of p] by (simp add: zero_page_def memset_eq write_bytes_def PGSIZE_def)

lemma zero_page_eq: "zero_page m p \<Longrightarrow> page_eq p m' m \<Longrightarrow> pgaligned p \<Longrightarrow> zero_page m' p"
  by (simp add: zero_page_def page_eq_def PGROUNDDOWN_aligned)

lemma vm_step_subset: "vm_step d s ps m k qs \<Longrightarrow> set qs \<subseteq> set ps"
  by (auto simp: vm_step_def dest: in_set_dropD)

text \<open>Taking a page for data, and clearing it.\<close>

lemma take_clear_page:
  assumes "vm_ready s d (p # ps)"
  shows "\<exists>k. kalloc s = Ret p (s\<lparr>st_kmem := k\<rparr>)
    \<and> vm_step d s (p # ps) (memset (m_mem s) p 0 PGSIZE) k ps
    \<and> tpages (memset (m_mem s) p 0 PGSIZE) d = tpages (m_mem s) d
    \<and> (\<forall>w. pte_of (memset (m_mem s) p 0 PGSIZE) d w = pte_of (m_mem s) d w)"
proof -
  let ?m = "memset (m_mem s) p 0 PGSIZE"
  have r: "kmem_ready s" "free_pages s (p # ps)" and ok: "tables_ok (m_mem s) d (p # ps)"
    using assms by (auto simp: vm_ready_def)
  obtain k where k: "kalloc s = Ret p (s\<lparr>st_kmem := k\<rparr>)" "km_use_lock k = km_use_lock (st_kmem s)"
    "free_pages (s\<lparr>st_kmem := k\<rparr>) ps"
    using kalloc_free_pages [OF r] by blast
  have p: "pgaligned p" "p \<notin> set ps" using r(2) by (auto simp: free_pages_def kpage_def)
  have f: "page_eq b ?m (m_mem s)" if "PGROUNDDOWN b \<noteq> p" for b
    using memset_page_eq [OF p(1) that] .
  have "PGROUNDDOWN b \<noteq> p" if "b \<in> tpages (m_mem s) d" for b
  proof -
    have "pgaligned b" using that tables_okD(1) [OF ok] by (auto simp: tpages_def)
    then show ?thesis using that ok by (auto simp: PGROUNDDOWN_aligned tables_ok_def)
  qed
  then have t: "page_eq b (m_mem s) ?m" if "b \<in> tpages (m_mem s) d" for b
    using f that page_eq_sym by blast
  note e = tables_page_eq [OF tables_okD(1) [OF ok] t]
  have "page_eq q (m_mem s) ?m" if "q \<in> set ps" for q
  proof -
    have "PGROUNDDOWN q = q" using k(3) that by (auto simp: free_pages_def)
    then show ?thesis using f that p(2) page_eq_sym by metis
  qed
  then have "free_pages (s\<lparr>st_kmem := k\<rparr>\<lparr>m_mem := ?m\<rparr>) ps" by (intro free_pages_page_eq [OF k(3)]) simp
  moreover have "tables_ok ?m d ps" using e(5) ok by (auto simp: tables_ok_def)
  ultimately have "vm_ready (s\<lparr>m_mem := ?m, st_kmem := k\<rparr>) d ps"
    using r(1) k(2) by (simp add: vm_ready_def free_pages_def)
  moreover have "page_eq b ?m (m_mem s)"
    if "PGROUNDDOWN b \<notin> tpages (m_mem s) d \<union> (set (p # ps) - set ps)" for b
    using that p(2) by (intro f) auto
  moreover have "dir_kept d (m_mem s) ?m"
    using t [of d] tables_okD(1) [OF ok] by (intro dir_kept_page) (simp_all add: tpages_def)
  moreover have "ps = drop 1 (p # ps)" by simp
  ultimately have "vm_step d s (p # ps) ?m k ps"
    unfolding vm_step_def using e(1) k(2) by blast
  then show ?thesis using k(1) e(1,2) by blast
qed

lemma one_page: "pgaligned a \<Longrightarrow> PGROUNDDOWN (a + PGSIZE - 1) = a"
  using pgaligned_add_page(2) [of a 4095] by (simp add: PGSIZE_def add.commute)

lemma pte_of_page: "PGROUNDDOWN w = PGROUNDDOWN a \<Longrightarrow> pte_of m d w = pte_of m d a"
  using same_page_index [of w a] by (simp add: pte_of_def)

text \<open>One turn of the loop of \<open>allocuvm\<close>: a cleared page is mapped.\<close>

lemma allocuvm_page:
  assumes r: "vm_ready s d (p # ps)" and ps: "ps \<noteq> []" and a: "pgaligned a" "a < newsz"
    and ab: "pte_of (m_mem s) d a AND PTE_P = 0"
  shows "\<exists>m k qs. allocuvm_loop (Suc f) d a oldsz newsz s =
        allocuvm_loop f d (a + 4096) oldsz newsz (s\<lparr>m_mem := m, st_kmem := k\<rparr>)
    \<and> vm_step d s (p # ps) m k qs \<and> length ps \<le> Suc (length qs)
    \<and> (\<forall>w. pte_of m d w =
         (if PGROUNDDOWN w = a then V2P p OR (PTE_W OR PTE_U) OR PTE_P else pte_of (m_mem s) d w))
    \<and> zero_page m p \<and> p \<notin> tpages m d \<and> p \<notin> set qs"
proof -
  let ?m = "memset (m_mem s) p 0 PGSIZE"
  obtain k where k: "kalloc s = Ret p (s\<lparr>st_kmem := k\<rparr>)" and st: "vm_step d s (p # ps) ?m k ps"
    and tp: "tpages ?m d = tpages (m_mem s) d" and pt: "\<forall>w. pte_of ?m d w = pte_of (m_mem s) d w"
    using take_clear_page [OF r] by blast
  let ?s = "s\<lparr>m_mem := ?m, st_kmem := k\<rparr>"
  have p: "pgaligned p" "p \<noteq> 0" "p \<notin> set ps" "p \<notin> tpages (m_mem s) d"
    using r by (auto simp: vm_ready_def free_pages_def kpage_def tables_ok_def)
  have "0 = unat (PGROUNDDOWN (a + PGSIZE - 1) - PGROUNDDOWN a) div 4096"
    using a(1) by (simp add: one_page PGROUNDDOWN_aligned)
  moreover have "\<forall>w. unat (w - PGROUNDDOWN a) div 4096 \<le> 0 \<longrightarrow> pte_of (m_mem ?s) d w AND PTE_P = 0"
  proof (intro allI impI)
    fix w assume "unat (w - PGROUNDDOWN a) div 4096 \<le> 0"
    then have "PGROUNDDOWN w = PGROUNDDOWN a" using page_distance [of "PGROUNDDOWN a" w] by simp
    then show "pte_of (m_mem ?s) d w AND PTE_P = 0"
      using ab pt pte_of_page [of w a] by simp
  qed
  ultimately obtain r m k' qs where mp: "mappages d a PGSIZE (V2P p) (PTE_W OR PTE_U) ?s
      = Ret r (?s\<lparr>m_mem := m, st_kmem := k'\<rparr>)" "vm_step d ?s ps m k' qs"
    "r = 0 \<and> mapped ?m m d (PGROUNDDOWN a) 0 (V2P p) (PTE_W OR PTE_U) \<and> length ps \<le> length qs + Suc 0
     \<or> r = - 1 \<and> length ps \<le> 0"
    using mappages_run [OF vm_step_ready [OF st], of 0 a PGSIZE "V2P p" "PTE_W OR PTE_U"] by auto
  then have r0: "r = 0" "mapped ?m m d a 0 (V2P p) (PTE_W OR PTE_U)" "length ps \<le> Suc (length qs)"
    using ps a(1) by (auto simp: PGROUNDDOWN_aligned)
  have run: "allocuvm_loop (Suc f) d a oldsz newsz s =
      allocuvm_loop f d (a + 4096) oldsz newsz (s\<lparr>m_mem := m, st_kmem := k'\<rparr>)"
    using a(2) k p(2) mp(1) r0(1)
    by (simp add: kbind_run kseq_run kmemset_def kmem_mem_swap PGSIZE_def)
  have pe: "pte_of m d w = (if PGROUNDDOWN w = a then V2P p OR (PTE_W OR PTE_U) OR PTE_P
      else pte_of (m_mem s) d w)" for w
    using r0(2) [unfolded mapped_def, rule_format, of w] pt page_distance [OF a(1), of w]
    by (cases "PGROUNDDOWN w = a") simp_all
  have q: "set qs \<subseteq> set ps" "tpages m d \<subseteq> tpages (m_mem s) d \<union> (set ps - set qs)"
    using vm_step_subset [OF mp(2)] mp(2) tp by (auto simp: vm_step_def)
  then have np: "p \<notin> tpages m d" "p \<notin> set qs" using p(3,4) by auto
  have "PGROUNDDOWN p \<notin> tpages ?m d \<union> (set ps - set qs)" using p tp by (simp add: PGROUNDDOWN_aligned)
  then have "page_eq p m ?m" using mp(2) by (simp add: vm_step_def)
  then have "zero_page m p" using zero_page_eq memset_zero p(1) by blast
  then show ?thesis using run vm_step_trans [OF st mp(2)] r0(3) pe np by blast
qed

text \<open>An address space grown by cleared pages \<open>fs\<close> of its own, one after another from \<open>a\<close> on.\<close>

definition grown :: "memory \<Rightarrow> memory \<Rightarrow> addr \<Rightarrow> addr \<Rightarrow> addr list \<Rightarrow> bool" where
  "grown m m' d a fs \<longleftrightarrow> distinct fs \<and> (\<forall>p\<in>set fs. pgaligned p \<and> zero_page m' p \<and> p \<notin> tpages m' d)
     \<and> (\<forall>w. pte_of m' d w = (if unat (w - a) div 4096 < length fs
          then V2P (fs ! (unat (w - a) div 4096)) OR (PTE_W OR PTE_U) OR PTE_P else pte_of m d w))"

lemma grown_Cons:
  assumes g: "grown m m' d (a + 4096) fs" and st: "vm_step d s qs m' k rs" "m_mem s = m"
    and fs: "set fs \<subseteq> set qs" "length fs < 2 ^ 20" and a: "pgaligned a"
    and p: "pgaligned p" "p \<notin> set qs" "p \<notin> tpages m d" "zero_page m p"
    and pe: "\<forall>w. pte_of m d w =
      (if PGROUNDDOWN w = a then V2P p OR (PTE_W OR PTE_U) OR PTE_P else pte_of m0 d w)"
  shows "grown m0 m' d a (p # fs)"
proof -
  have "page_eq p m' m"
    using st p(1-3) by (simp add: vm_step_def PGROUNDDOWN_aligned)
  then have "zero_page m' p" using zero_page_eq p(1,4) by blast
  moreover have "p \<notin> tpages m' d" using st p(2,3) by (auto simp: vm_step_def)
  moreover have "distinct (p # fs)" using g fs(1) p(2) by (auto simp: grown_def)
  moreover have "pte_of m' d w = (if unat (w - a) div 4096 < length (p # fs)
      then V2P ((p # fs) ! (unat (w - a) div 4096)) OR (PTE_W OR PTE_U) OR PTE_P else pte_of m0 d w)" for w
  proof (cases "unat (w - a) div 4096 = 0")
    case True
    then have "PGROUNDDOWN w = a" using page_distance [OF a] by simp
    then show ?thesis
      using g [unfolded grown_def] pe True fs(2) page_distance_next [of w a] by simp
  next
    case False
    then obtain j where j: "unat (w - a) div 4096 = Suc j" using not0_implies_Suc by blast
    then have "PGROUNDDOWN w \<noteq> a" "unat (w - (a + 4096)) div 4096 = j"
      using page_distance [OF a] page_distance_next [of w a] by simp_all
    then show ?thesis using g [unfolded grown_def] pe unfolding j by simp
  qed
  ultimately show ?thesis using g p(1) by (simp add: grown_def)
qed

lemma allocuvm_loop_run:
  assumes "vm_ready s d ps" "pgaligned a" "n < fuel" "unat a + 4096 * n < 2 ^ 32"
    and "unat newsz \<le> unat a + 4096 * n" "n = 0 \<or> unat a + 4096 * (n - 1) < unat newsz"
    and "2 * n \<le> length ps" "\<forall>w. unat (w - a) div 4096 < n \<longrightarrow> pte_of (m_mem s) d w AND PTE_P = 0"
  shows "\<exists>m k qs fs. allocuvm_loop fuel d a oldsz newsz s = Ret newsz (s\<lparr>m_mem := m, st_kmem := k\<rparr>)
    \<and> vm_step d s ps m k qs \<and> length fs = n \<and> set fs \<subseteq> set ps - set qs \<and> grown (m_mem s) m d a fs"
  using assms
proof (induction n arbitrary: s ps a fuel)
  case 0
  then obtain f where f: "fuel = Suc f" by (cases fuel) auto
  have "\<not> a < newsz" using 0 by (simp add: word_less_nat_alt)
  then show ?case using f vm_step_refl [OF 0(1)]
    by (intro exI [of _ "m_mem s"] exI [of _ "st_kmem s"] exI [of _ ps] exI [of _ "[]"]) (simp add: grown_def)
next
  case (Suc n)
  obtain f where f: "fuel = Suc f" using Suc.prems by (cases fuel) auto
  obtain p ps' where ps: "ps = p # ps'" "ps' \<noteq> []"
    using Suc.prems(7) by (cases ps; cases "tl ps") auto
  have lt: "a < newsz" using Suc.prems(6) by (simp add: word_less_nat_alt)
  have "pte_of (m_mem s) d a AND PTE_P = 0" using Suc.prems(8) by simp
  from allocuvm_page [OF Suc.prems(1) [unfolded ps(1)] ps(2) Suc.prems(2) lt this, of f oldsz]
  obtain m k qs where run: "allocuvm_loop (Suc f) d a oldsz newsz s =
        allocuvm_loop f d (a + 4096) oldsz newsz (s\<lparr>m_mem := m, st_kmem := k\<rparr>)"
    and st: "vm_step d s ps m k qs" and l: "length ps' \<le> Suc (length qs)"
    and pe: "\<forall>w. pte_of m d w =
         (if PGROUNDDOWN w = a then V2P p OR (PTE_W OR PTE_U) OR PTE_P else pte_of (m_mem s) d w)"
    and p: "zero_page m p" "p \<notin> tpages m d" "p \<notin> set qs"
    unfolding ps(1) by blast
  let ?s = "s\<lparr>m_mem := m, st_kmem := k\<rparr>"
  have u: "unat (a + 4096) = unat a + 4096" using Suc.prems(4) unat_add_small [of a 4096] by simp
  have "pte_of (m_mem ?s) d w AND PTE_P = 0" if "unat (w - (a + 4096)) div 4096 < n" for w
  proof -
    have "unat (w - a) div 4096 \<noteq> 0" "unat (w - a) div 4096 < Suc n"
      using that Suc.prems(4) by (auto simp: page_distance_next split: if_splits)
    then show ?thesis using pe Suc.prems(8) page_distance [OF Suc.prems(2), of w] by simp
  qed
  moreover have "n = 0 \<or> unat (a + 4096) + 4096 * (n - 1) < unat newsz"
    using Suc.prems(6) u by (cases n) auto
  ultimately obtain m' k' rs fs where
    ih: "allocuvm_loop f d (a + 4096) oldsz newsz ?s = Ret newsz (?s\<lparr>m_mem := m', st_kmem := k'\<rparr>)"
      "vm_step d ?s qs m' k' rs" "length fs = n" "set fs \<subseteq> set qs - set rs" "grown m m' d (a + 4096) fs"
    using Suc.IH [OF vm_step_ready [OF st] pgaligned_next [OF Suc.prems(2)], of f] Suc.prems f u l ps
    by auto
  have pp: "pgaligned p" using Suc.prems(1) ps by (auto simp: vm_ready_def free_pages_def kpage_def)
  have "grown (m_mem s) m' d a (p # fs)"
    using grown_Cons [OF ih(5,2) _ _ _ Suc.prems(2) pp p(3,2,1) pe] ih(3,4) Suc.prems(4) by auto
  moreover have "set qs \<subseteq> set ps" "set rs \<subseteq> set qs"
    using vm_step_subset [OF st] vm_step_subset [OF ih(2)] by auto
  then have "set (p # fs) \<subseteq> set ps - set rs" using ih(4) p(3) ps(1) by auto
  ultimately show ?case
    using run ih(1,3) vm_step_trans [OF st ih(2)] f
    by (intro exI [of _ m'] exI [of _ k'] exI [of _ rs] exI [of _ "p # fs"]) simp
qed

lemma unat_low12: "unat ((w :: uint) AND 0xFFF) < 4096"
proof -
  have "w AND 0xFFF = w mod 4096" by (simp add: mask12 take_bit_eq_mod flip: take_bit_eq_mask)
  then show ?thesis by (simp add: unat_mod)
qed

lemma page_plus_offset: "pgaligned p \<Longrightarrow> PGROUNDDOWN (p + (w AND 0xFFF)) = p"
  using pgaligned_add_page(2) [of p "unat (w AND 0xFFF)"] unat_low12 [of w] by simp

lemma grown_translate:
  assumes "grown m m' d a fs" "unat (w - a) div 4096 < length fs"
  shows "translate m' d PTE_P w = Some (fs ! (unat (w - a) div 4096) + (w AND 0xFFF))"
    "m' (fs ! (unat (w - a) div 4096) + (w AND 0xFFF)) = 0"
proof -
  let ?p = "fs ! (unat (w - a) div 4096)"
  have p: "pgaligned ?p" "zero_page m' ?p" using assms nth_mem by (auto simp: grown_def)
  show "m' (?p + (w AND 0xFFF)) = 0" using p page_plus_offset by (simp add: zero_page_def)
  have "pte_of m' d w = V2P ?p OR (PTE_W OR PTE_U OR PTE_P)"
    using assms by (simp add: grown_def or.assoc)
  moreover have "PTE_ADDR (V2P ?p OR (PTE_W OR PTE_U OR PTE_P)) = V2P ?p"
    "(V2P ?p OR (PTE_W OR PTE_U OR PTE_P)) AND PTE_P = PTE_P"
    using pte_parts [OF pgaligned_V2P [OF p(1)], of "PTE_W OR PTE_U OR PTE_P"]
    by (simp_all add: pte_defs)
  ultimately show "translate m' d PTE_P w = Some (?p + (w AND 0xFFF))"
    by (simp add: translate_pte) (simp add: PTE_P_def)
qed

lemma allocuvm_run:
  assumes "vm_ready s d ps" "oldsz \<le> newsz" "newsz < KERNBASE"
    and n: "n = (unat newsz + 4095) div 4096 - (unat oldsz + 4095) div 4096" "2 * n \<le> length ps"
    and "\<forall>w. unat (w - PGROUNDUP oldsz) div 4096 < n \<longrightarrow> translate (m_mem s) d PTE_P w = None"
  obtains m k qs fs where "allocuvm d oldsz newsz s = Ret newsz (s\<lparr>m_mem := m, st_kmem := k\<rparr>)"
    "vm_step d s ps m k qs" "length fs = n" "set fs \<subseteq> set ps - set qs" "grown (m_mem s) m d (PGROUNDUP oldsz) fs"
proof -
  let ?a = "PGROUNDUP oldsz" and ?A = "(unat oldsz + 4095) div 4096" and ?B = "(unat newsz + 4095) div 4096"
  have le: "unat oldsz \<le> unat newsz" "unat newsz < 2147483648"
    using assms(2,3) by (simp_all add: word_le_nat_alt word_less_nat_alt KERNBASE_def)
  then have AB: "?A \<le> ?B" "4096 * ?B < unat newsz + 4096" "unat newsz \<le> 4096 * ?B"
    by (simp_all add: div_le_mono)
  have u: "unat ?a = 4096 * ?A" using le by (subst unat_PGROUNDUP) simp_all
  then have s: "unat ?a + 4096 * n = 4096 * ?B" using AB(1) unfolding n by (simp add: diff_mult_distrib2)
  have last: "n = 0 \<or> unat ?a + 4096 * (n - 1) < unat newsz"
    using s AB(2) by (cases n) simp_all
  have fuel: "n < unat newsz div 4096 + 2" using AB(2) s by simp
  have "\<forall>w. unat (w - ?a) div 4096 < n \<longrightarrow> pte_of (m_mem s) d w AND PTE_P = 0"
    using assms(6) by (auto simp: translate_pte split: if_splits)
  from allocuvm_loop_run [OF assms(1) pgaligned_PGROUNDUP fuel _ _ last assms(5) this, of oldsz] AB s le
  obtain m k qs fs where g: "allocuvm_loop (unat newsz div 4096 + 2) d ?a oldsz newsz s
      = Ret newsz (s\<lparr>m_mem := m, st_kmem := k\<rparr>)" "vm_step d s ps m k qs" "length fs = n"
      "set fs \<subseteq> set ps - set qs" "grown (m_mem s) m d ?a fs"
    by auto
  moreover have "allocuvm d oldsz newsz s = Ret newsz (s\<lparr>m_mem := m, st_kmem := k\<rparr>)"
  proof -
    have "\<not> KERNBASE \<le> newsz" "\<not> newsz < oldsz" using assms(2,3) by auto
    then show ?thesis using g(1) by (simp only: allocuvm_def if_False)
  qed
  ultimately show thesis using that by blast
qed



section \<open>Access to user memory\<close>

lemma uload8_run [krun]:
  "uload8 va s = (case translate (m_mem s) (curdir s) PTE_P va of
     None \<Rightarrow> Stop (Fault va) s | Some a \<Rightarrow> Ret (m_mem s a) s)"
  by (simp add: uload8_def kbind_run split: option.split)

lemma ustore8_run [krun]:
  "ustore8 va b s = (case translate (m_mem s) (curdir s) (PTE_P OR PTE_W) va of
     None \<Rightarrow> Stop (Fault va) s | Some a \<Rightarrow> Ret () (s\<lparr>m_mem := (m_mem s)(a := b)\<rparr>))"
  by (simp add: ustore8_def kbind_run split: option.split)

lemma curdir_acquired [simp]: "curdir (acquired l s) = curdir s"
  by (simp add: curdir_def)

lemma uload8_frame:
  "m_mem t = m_mem s \<Longrightarrow> curdir t = curdir s \<Longrightarrow> uload8 va s = Ret b s \<Longrightarrow> uload8 va t = Ret b t"
  by (simp add: uload8_run split: option.splits)

lemma uload_bytes:
  "uload n va s = Ret bs t \<Longrightarrow>
     t = s \<and> length bs = n \<and> (\<forall>i<n. uload8 (va + of_nat i) s = Ret (bs ! i) s)"
proof (induction n arbitrary: va bs)
  case (Suc n)
  obtain b cs where b: "uload8 va s = Ret b s" "uload n (va + 1) s = Ret cs t" "bs = b # cs"
    using Suc.prems by (auto simp: kbind_run uload8_run split: outcome.splits option.splits)
  from Suc.IH [OF b(2)] have ih: "t = s" "length cs = n"
    "\<And>i. i < n \<Longrightarrow> uload8 (va + 1 + of_nat i) s = Ret (cs ! i) s" by auto
  have "uload8 (va + of_nat i) s = Ret (bs ! i) s" if "i < Suc n" for i
    using that b ih(3) by (cases i) (auto simp: ac_simps)
  then show ?case using ih b(3) by simp
qed simp

lemma uload_bytesI:
  "\<forall>i<length bs. uload8 (va + of_nat i) s = Ret (bs ! i) s \<Longrightarrow> uload (length bs) va s = Ret bs s"
proof (induction bs arbitrary: va)
  case (Cons b bs)
  have "uload8 va s = Ret b s" using Cons.prems by force
  moreover have "uload8 (va + 1 + of_nat i) s = Ret (bs ! i) s" if "i < length bs" for i
    using Cons.prems [rule_format, of "Suc i"] that by (simp add: ac_simps)
  ultimately show ?case using Cons.IH [of "va + 1"] by (simp add: kbind_run)
qed simp

lemma uload_frame:
  assumes "uload n va s = Ret bs s" "m_mem t = m_mem s" "curdir t = curdir s"
  shows "uload n va t = Ret bs t"
proof -
  have b: "length bs = n" "\<forall>i<n. uload8 (va + of_nat i) s = Ret (bs ! i) s"
    using uload_bytes [OF assms(1)] by auto
  then have "\<forall>i<length bs. uload8 (va + of_nat i) t = Ret (bs ! i) t"
    using uload8_frame [OF assms(2,3)] by simp
  then show ?thesis using uload_bytesI b(1) by blast
qed

text \<open>Writing to user memory changes memory only.\<close>

lemma ustore_mem: "ustore bs va s = Ret () t \<Longrightarrow> \<exists>m. t = s\<lparr>m_mem := m\<rparr>"
proof (induction bs arbitrary: va s)
  case Nil
  then have "t = s\<lparr>m_mem := m_mem s\<rparr>" by simp
  then show ?case by blast
next
  case (Cons b bs)
  then obtain a where "ustore bs (va + 1) (s\<lparr>m_mem := (m_mem s)(a := b)\<rparr>) = Ret () t"
    by (auto simp: kseq_run ustore8_run split: option.splits)
  then show ?case using Cons.IH by fastforce
qed

lemma ustore8_frame:
  assumes "m_mem t = m_mem s" "curdir t = curdir s" "ustore8 va b s = Ret () u"
  shows "ustore8 va b t = Ret () (t\<lparr>m_mem := m_mem u\<rparr>)"
proof (cases "translate (m_mem s) (curdir s) (PTE_P OR PTE_W) va")
  case (Some a)
  then have "m_mem u = (m_mem s)(a := b)" using assms(3) by (auto simp: ustore8_run)
  then show ?thesis using Some assms(1,2) by (simp add: ustore8_run)
qed (use assms(3) in \<open>simp add: ustore8_run\<close>)

lemma ustore_frame:
  assumes "m_mem t = m_mem s" "curdir t = curdir s" "ustore bs va s = Ret () u"
  shows "ustore bs va t = Ret () (t\<lparr>m_mem := m_mem u\<rparr>)"
  using assms
proof (induction bs arbitrary: va s t)
  case (Cons b bs)
  obtain v where v: "ustore8 va b s = Ret () v" "ustore bs (va + 1) v = Ret () u"
    using Cons.prems(3) by (auto simp: kseq_eq_Ret)
  then obtain m where m: "v = s\<lparr>m_mem := m\<rparr>" by (auto simp: ustore8_run split: option.splits)
  have "curdir (t\<lparr>m_mem := m_mem v\<rparr>) = curdir v" using Cons.prems(2) m by (simp add: curdir_def)
  then have "ustore bs (va + 1) (t\<lparr>m_mem := m_mem v\<rparr>) = Ret () (t\<lparr>m_mem := m_mem u\<rparr>)"
    using Cons.IH [OF _ _ v(2), of "t\<lparr>m_mem := m_mem v\<rparr>"] by simp
  then show ?case using ustore8_frame [OF Cons.prems(1,2) v(1)] by (simp add: kseq_run)
qed simp

section \<open>Writing through the tables\<close>

lemma translate_kept:
  assumes "dir_kept d m m'" "pte_of m' d va = pte_of m d va" "need AND PTE_P = PTE_P" "translate m d need va = Some a"
  shows "translate m' d need va = Some a"
proof -
  let ?e = "load32 m (d + 4 * PDX va)"
  have n: "?e AND need = need" using assms(4) by (auto simp: translate_def Let_def split: if_splits)
  then have "?e AND PTE_P = PTE_P" using assms(3) by (metis and.assoc)
  then have pr: "present m d (PDX va)" by (simp add: present_def PTE_P_def)
  then have e: "load32 m' (d + 4 * PDX va) = ?e" using assms(1) by (simp add: dir_kept_def)
  then have "present m' d (PDX va)" using pr by (simp add: present_def)
  then show ?thesis
    using assms(2,4) pr e n by (simp add: translate_def pte_of_def pgtab_def Let_def)
qed

lemma pte_slot_nonzero:
  assumes "tables_ok m d ps" "present m d (PDX va)"
  shows "pgtab m d (PDX va) + 4 * PTX va \<noteq> 0"
proof
  assume "pgtab m d (PDX va) + 4 * PTX va = 0"
  then have "PGROUNDDOWN 0 = pgtab m d (PDX va)" using slot_facts(3) [OF pgaligned_table unat_PTX_less, of m d "PDX va" va] by simp
  then show False using tables_okD(7) [OF assms(1) unat_PDX_less assms(2)] by (simp add: PGROUNDDOWN_def)
qed

lemma clearpteu_run:
  assumes "tables_ok (m_mem s) d ps" "present (m_mem s) d (PDX va)"
  shows "clearpteu d va s = Ret () (s\<lparr>m_mem := store32 (m_mem s) (pgtab (m_mem s) d (PDX va) + 4 * PTX va)
     (pte_of (m_mem s) d va AND NOT PTE_U)\<rparr>)"
  using pte_slot_nonzero [OF assms] walkpgdir_present [OF assms(2), of False] assms(2)
  by (simp add: clearpteu_def kbind_run kload32_def kstore32_def pte_of_def)

lemma uva2ka_run:
  assumes "tables_ok (m_mem s) d ps" "pte_of (m_mem s) d va AND PTE_P \<noteq> 0" "pte_of (m_mem s) d va AND PTE_U \<noteq> 0"
  shows "uva2ka d va s = Ret (P2V (PTE_ADDR (pte_of (m_mem s) d va))) s"
proof -
  have pr: "present (m_mem s) d (PDX va)" using assms(2) by (auto simp: pte_of_def split: if_splits)
  then show ?thesis
    using pte_slot_nonzero [OF assms(1) pr] walkpgdir_present [OF pr, of False] assms(2,3)
    by (simp add: uva2ka_def kbind_run kload32_def pte_of_def)
qed

lemma copyout_run:
  assumes "tables_ok (m_mem s) d ps" "pte_of (m_mem s) d va AND PTE_P \<noteq> 0" "pte_of (m_mem s) d va AND PTE_U \<noteq> 0"
    "P2V (PTE_ADDR (pte_of (m_mem s) d va)) \<noteq> 0" "unat (va - PGROUNDDOWN va) + length bs \<le> 4096" "bs \<noteq> []"
  shows "copyout d va bs s = Ret 0
     (s\<lparr>m_mem := write_bytes (m_mem s) (P2V (PTE_ADDR (pte_of (m_mem s) d va)) + (va - PGROUNDDOWN va)) bs\<rparr>)"
proof -
  have e: "pte_of (m_mem s) d (PGROUNDDOWN va) = pte_of (m_mem s) d va"
    by (intro pte_of_page) (simp add: PGROUNDDOWN_aligned)
  then have u: "uva2ka d (PGROUNDDOWN va) s = Ret (P2V (PTE_ADDR (pte_of (m_mem s) d va))) s"
    using uva2ka_run [OF assms(1), of "PGROUNDDOWN va"] assms(2,3) by simp
  have n: "min (4096 - unat (va - PGROUNDDOWN va)) (length bs) = length bs" using assms(5) by simp
  have "copyout d va' [] t = Ret 0 t" for va' and t :: "'a vmach_scheme" by (simp add: copyout.simps)
  then show ?thesis
    using assms(4,6) u n by (subst copyout.simps) (simp add: kbind_run kseq_run Let_def)
qed

text \<open>An aligned word in user memory is stored in one page.\<close>

text \<open>An aligned word of user memory is stored in one page.\<close>

lemma low12: "(x :: uint) AND 0xFFF = x - PGROUNDDOWN x"
proof -
  have "x AND 0xFFF = x mod 4096" by (simp add: mask12 take_bit_eq_mod flip: take_bit_eq_mask)
  moreover have "unat (x - PGROUNDDOWN x) = unat x - unat (PGROUNDDOWN x)" by (rule unat_sub [OF PGROUNDDOWN_le])
  ultimately show ?thesis by (simp add: word_unat_eq_iff unat_mod unat_PGROUNDDOWN minus_div_mult_eq_mod)
qed

lemma translate_Some:
  assumes "translate m d need va = Some a"
  obtains p where "pgaligned p" "a = p + (va AND 0xFFF)"
    "\<And>w. PGROUNDDOWN w = PGROUNDDOWN va \<Longrightarrow> translate m d need w = Some (p + (w AND 0xFFF))"
proof -
  let ?p = "P2V (PTE_ADDR (load32 m (P2V (PTE_ADDR (load32 m (d + 4 * PDX va))) + 4 * PTX va)))"
  have "pgaligned ?p" by (intro pgaligned_P2V pgaligned_PTE_ADDR)
  moreover have "a = ?p + (va AND 0xFFF)" using assms by (auto simp: translate_def Let_def split: if_splits)
  moreover have "translate m d need w = Some (?p + (w AND 0xFFF))" if "PGROUNDDOWN w = PGROUNDDOWN va" for w
    using assms same_page_index [OF that] by (auto simp: translate_def Let_def split: if_splits)
  ultimately show thesis using that by blast
qed

lemma ustore32_run:
  fixes s :: "'a vmach_scheme"
  assumes ok: "pgaligned (curdir s)" and va: "aligned4 va" and tr: "translate (m_mem s) (curdir s) (PTE_P OR PTE_W) va = Some a"
    and a: "PGROUNDDOWN a \<notin> tpages (m_mem s) (curdir s)"
  shows "ustore32 va v s = Ret () (s\<lparr>m_mem := store32 (m_mem s) a v\<rparr>)"
proof -
  let ?d = "curdir s" and ?same = "\<lambda>m. \<forall>q\<in>tpages (m_mem s) (curdir s). page_eq q (m_mem s) m"
  obtain p where p: "pgaligned p" "a = p + (va AND 0xFFF)"
    "\<And>w. PGROUNDDOWN w = PGROUNDDOWN va \<Longrightarrow> translate (m_mem s) ?d (PTE_P OR PTE_W) w = Some (p + (w AND 0xFFF))"
    using translate_Some [OF tr] by blast
  have ak: "p + ((va + of_nat k) AND 0xFFF) = a + of_nat k" if "k < 4" for k
    using PGROUNDDOWN_add4 [OF va that] by (simp add: p(2) low12)
  have pg: "PGROUNDDOWN (a + of_nat k) = p" if "k < 4" for k
    using page_plus_offset [OF p(1), of "va + of_nat k"] ak [OF that] by simp
  have pt: "p \<notin> tpages (m_mem s) ?d" using a pg [of 0] by simp
  have al: "PGROUNDDOWN q = q" if "q \<in> tpages (m_mem s) ?d" for q
    using that ok by (auto simp: tpages_def PGROUNDDOWN_aligned)
  have kept: "?same (m(a + of_nat k := b))" if "?same m" "k < 4" for m k b
  proof
    fix q assume q: "q \<in> tpages (m_mem s) ?d"
    then have "q \<noteq> p" using pt by auto
    then show "page_eq q (m_mem s) (m(a + of_nat k := b))"
      using that(1) q pg [OF that(2)] al [OF q] by (auto simp: page_eq_def)
  qed
  have tr': "translate m ?d (PTE_P OR PTE_W) (va + of_nat k) = Some (a + of_nat k)" if "?same m" "k < 4" for m k
  proof (rule translate_kept)
    show "translate (m_mem s) ?d (PTE_P OR PTE_W) (va + of_nat k) = Some (a + of_nat k)"
      using p(3) [OF PGROUNDDOWN_add4 [OF va that(2)]] ak [OF that(2)] by simp
    show "dir_kept ?d (m_mem s) m" using that(1) ok by (intro dir_kept_page) (auto simp: tpages_def)
    show "pte_of m ?d (va + of_nat k) = pte_of (m_mem s) ?d (va + of_nat k)"
      using tables_page_eq(2) [OF ok] that(1) by blast
  qed (simp add: PTE_P_def PTE_W_def)
  have st: "ustore8 (va + of_nat k) b (s\<lparr>m_mem := m\<rparr>) = Ret () (s\<lparr>m_mem := m(a + of_nat k := b)\<rparr>)"
    if "?same m" "k < 4" for m k b
    using tr' [OF that] by (simp add: ustore8_run curdir_def)
  have s0: "ustore8 va b s = Ret () (s\<lparr>m_mem := (m_mem s)(a := b)\<rparr>)" for b
    using st [of "m_mem s" 0 b] by simp
  let ?b = "\<lambda>k. ucast (drop_bit (8 * k) v) :: uchar"
  have m1: "?same ((m_mem s)(a := ?b 0))" using kept [of "m_mem s" 0] by simp
  have m2: "?same ((m_mem s)(a := ?b 0, a + 1 := ?b 1))" using kept [OF m1, of 1] by simp
  have m3: "?same ((m_mem s)(a := ?b 0, a + 1 := ?b 1, a + 2 := ?b 2))" using kept [OF m2, of 2] by simp
  show ?thesis
    using s0 st [OF m1, of 1] st [OF m2, of 2] st [OF m3, of 3]
    by (simp add: ustore32_def le_bytes_def store32_def kseq_run add.assoc)
qed

end
