(* ===== verification/Sched.thy ===== *)
theory Sched
  imports Paging
begin

text \<open>
  The process table and the scheduler: the structures of \<^verbatim>\<open>src/proc.h\<close>, and of
  \<^verbatim>\<open>src/proc.c\<close> the routines by which kernel threads wait for each other: \<open>sched\<close>, \<open>yield\<close>,
  \<open>sleep\<close>, \<open>wakeup\<close>, \<open>scheduler\<close>; and \<open>switchuvm\<close> of \<^verbatim>\<open>src/vm.c\<close>.

  A pointer to a table entry is the entry's index, \<open>None\<close> the null pointer. The code sometimes
  follows a null \<^verbatim>\<open>struct proc *\<close>: what it then reads and writes is user memory at address 0,
  kept as \<open>st_nullproc\<close>. The shared part of a process (\<^verbatim>\<open>struct sharedData\<close>), trap frames and
  contexts live in allocated pages and are kept by address.

  A context switch away from a thread ends the run of that thread's code: \<open>sched\<close> stops with
  \<open>Sleeping\<close>, \<open>Yielded\<close> or \<open>Noreturn\<close> according to the state the thread set. What the thread does
  when it is switched to again is a routine of its own (\<open>sched_resume\<close>, \<open>sleep_resume\<close>). Every
  loop around \<open>sleep\<close> in the kernel is a function of the state at its head, so the thread goes on
  by \<open>sleep_resume\<close> followed by that function.
\<close>

section \<open>Structures\<close>

datatype procstate = UNUSED | EMBRYO | SLEEPING | RUNNABLE | RUNNING | ZOMBIE

record ctxt =
  cx_edi :: uint
  cx_esi :: uint
  cx_ebx :: uint
  cx_ebp :: uint
  cx_eip :: uint

record trapframe =
  tf_edi :: uint
  tf_esi :: uint
  tf_ebp :: uint
  tf_oesp :: uint
  tf_ebx :: uint
  tf_edx :: uint
  tf_ecx :: uint
  tf_eax :: uint
  tf_gs :: ushort
  tf_fs :: ushort
  tf_es :: ushort
  tf_ds :: ushort
  tf_trapno :: uint
  tf_err :: uint
  tf_eip :: uint
  tf_cs :: ushort
  tf_eflags :: uint
  tf_esp :: uint
  tf_ss :: ushort

record sharedData =
  sh_sz :: uint
  sh_pgdir :: addr
  sh_ofile :: "nat \<Rightarrow> nat option"
  sh_cwd :: "nat option"
  sh_numOfThread :: int
  sh_threads :: "nat \<Rightarrow> nat option"
  sh_isThere :: "nat \<Rightarrow> int"

text \<open>A process name is kept as the bytes before its terminating NUL.\<close>

record proc =
  p_kstack :: addr
  p_state :: procstate
  p_pid :: int
  p_parent :: "nat option"
  p_tf :: addr
  p_context :: addr
  p_chan :: chan
  p_killed :: bool
  p_name :: "uchar list"
  p_sharePtr :: addr
  p_orderOfThread :: int
  p_retval :: uint
  p_imMaster :: bool
  p_stack :: uint

record pmach = vmach +
  st_procs :: "nat \<Rightarrow> proc"
  st_nullproc :: proc
  st_initproc :: "nat option"
  st_nextpid :: int
  st_shared :: "addr \<Rightarrow> sharedData"
  st_tf :: "addr \<Rightarrow> trapframe"
  st_ctx :: "addr \<Rightarrow> ctxt"
  st_forkret :: addr
  st_trapret :: addr
  st_first :: bool

section \<open>Access\<close>

definition procp :: "'a pmach_scheme \<Rightarrow> nat option \<Rightarrow> proc" where
  "procp s p = (case p of Some i \<Rightarrow> st_procs s i | None \<Rightarrow> st_nullproc s)"

definition upd_proc :: "nat option \<Rightarrow> (proc \<Rightarrow> proc) \<Rightarrow> ('a pmach_scheme, unit) K" where
  "upd_proc p f = kmod (\<lambda>s. case p of
       Some i \<Rightarrow> s\<lparr>st_procs := (st_procs s)(i := f (st_procs s i))\<rparr>
     | None \<Rightarrow> s\<lparr>st_nullproc := f (st_nullproc s)\<rparr>)"

definition upd_shared :: "addr \<Rightarrow> (sharedData \<Rightarrow> sharedData) \<Rightarrow> ('a pmach_scheme, unit) K" where
  "upd_shared a f = kmod (\<lambda>s. s\<lparr>st_shared := (st_shared s)(a := f (st_shared s a))\<rparr>)"

definition upd_tf :: "addr \<Rightarrow> (trapframe \<Rightarrow> trapframe) \<Rightarrow> ('a pmach_scheme, unit) K" where
  "upd_tf a f = kmod (\<lambda>s. s\<lparr>st_tf := (st_tf s)(a := f (st_tf s a))\<rparr>)"

definition sharedp :: "'a pmach_scheme \<Rightarrow> nat option \<Rightarrow> sharedData" where
  "sharedp s p = st_shared s (p_sharePtr (procp s p))"

text \<open>The address of a process table entry used as a sleep channel.\<close>

definition proc_chan :: "nat option \<Rightarrow> chan" where
  "proc_chan p = (case p of Some i \<Rightarrow> ChanProc i | None \<Rightarrow> ChanRaw 0)"

definition pinit :: "('a pmach_scheme, unit) K" where
  "pinit = initlock PtableLock ''ptable''"

section \<open>Address spaces of processes\<close>

definition switchuvm :: "nat option \<Rightarrow> ('a pmach_scheme, unit) K" where
  "switchuvm p =
     (if p = None then panic ''switchuvm: no process''
      else
        kbind (kget (\<lambda>s. procp s p)) (\<lambda>pr.
        if p_kstack pr = 0 then panic ''switchuvm: no kstack''
        else
          kbind (kget (\<lambda>s. sh_pgdir (sharedp s p))) (\<lambda>pgdir.
          if pgdir = 0 then panic ''switchuvm: no pgdir''
          else
            kseq pushcli (
            kbind mycpu (\<lambda>c.
            kbind (kget (\<lambda>s. st_ts_addr s c)) (\<lambda>ts.
            kseq (upd_cpu c (\<lambda>k. k\<lparr>c_gdt := (c_gdt k)(SEG_TSS := (SEG16 STS_T32A ts 103 0)\<lparr>sd_s := 0\<rparr>),
                    c_ts_ss0 := of_nat (SEG_KDATA * 8), c_ts_esp0 := p_kstack pr + KSTACKSIZE,
                    c_ts_iomb := 0xFFFF\<rparr>)) (
            kseq (kmod (\<lambda>s. s\<lparr>st_tr := (st_tr s)(m_lapicid s := of_nat (SEG_TSS * 8))\<rparr>)) (
            kseq (lcr3 (V2P pgdir)) popcli))))))))"

section \<open>Giving up the CPU\<close>

text \<open>Why a thread that enters the scheduler is not running.\<close>

definition switch_reason :: "proc \<Rightarrow> stop" where
  "switch_reason p =
     (if p_state p = SLEEPING then Sleeping (p_chan p)
      else if p_state p = ZOMBIE then Noreturn else Yielded)"

definition sched :: "('a pmach_scheme, unit) K" where
  "sched =
     kbind myproc (\<lambda>p.
     kbind (holding PtableLock) (\<lambda>h.
     if \<not> h then panic ''sched ptable.lock''
     else
       kbind mycpu (\<lambda>c.
       kbind (kget (\<lambda>s. c_ncli (m_cpus s c))) (\<lambda>n.
       if n \<noteq> 1 then panic ''sched locks''
       else
         kbind (kget (\<lambda>s. procp s p)) (\<lambda>pr.
         if p_state pr = RUNNING then panic ''sched running''
         else
           kbind readeflags_IF (\<lambda>i.
           if i then panic ''sched interruptible'' else kstop (switch_reason pr)))))))"

text \<open>Back from the scheduler: the saved \<^verbatim>\<open>intena\<close> is put back.\<close>

definition sched_resume :: "bool \<Rightarrow> ('a pmach_scheme, unit) K" where
  "sched_resume intena = kbind mycpu (\<lambda>c. upd_cpu c (\<lambda>k. k\<lparr>c_intena := intena\<rparr>))"

definition yield :: "('a pmach_scheme, unit) K" where
  "yield =
     kseq (acquire PtableLock) (
     kbind myproc (\<lambda>p.
     kseq (upd_proc p (\<lambda>q. q\<lparr>p_state := RUNNABLE\<rparr>)) sched))"

definition yield_resume :: "bool \<Rightarrow> ('a pmach_scheme, unit) K" where
  "yield_resume intena = kseq (sched_resume intena) (release PtableLock)"

definition sleep :: "chan \<Rightarrow> lockid \<Rightarrow> ('a pmach_scheme, unit) K" where
  "sleep ch lk =
     kbind myproc (\<lambda>p.
     if p = None then panic ''sleep''
     else
       kseq (kwhen (lk \<noteq> PtableLock) (kseq (acquire PtableLock) (release lk))) (
       kseq (upd_proc p (\<lambda>q. q\<lparr>p_chan := ch\<rparr>)) (
       kseq (upd_proc p (\<lambda>q. q\<lparr>p_state := SLEEPING\<rparr>)) sched)))"

definition sleep_resume :: "bool \<Rightarrow> lockid \<Rightarrow> ('a pmach_scheme, unit) K" where
  "sleep_resume intena lk =
     kseq (sched_resume intena) (
     kbind myproc (\<lambda>p.
     kseq (upd_proc p (\<lambda>q. q\<lparr>p_chan := ChanRaw 0\<rparr>))
          (kwhen (lk \<noteq> PtableLock) (kseq (release PtableLock) (acquire lk)))))"

definition wakeup1 :: "chan \<Rightarrow> ('a pmach_scheme, unit) K" where
  "wakeup1 ch = kmod (\<lambda>s. s\<lparr>st_procs :=
     scan NPROC (\<lambda>p. p_state p = SLEEPING \<and> p_chan p = ch) (\<lambda>p. p\<lparr>p_state := RUNNABLE\<rparr>) (st_procs s)\<rparr>)"

definition wakeup :: "chan \<Rightarrow> ('a pmach_scheme, unit) K" where
  "wakeup ch = kseq (acquire PtableLock) (kseq (wakeup1 ch) (release PtableLock))"

section \<open>The scheduler\<close>

text \<open>
  The scheduler of a CPU: on entry it has no process; a round turns interrupts on, takes the table
  lock and looks at the entries in turn. At a runnable entry it switches to that process, which is
  where a run of \<open>scheduler_scan\<close> ends with \<open>Some\<close>; when the process has switched back,
  \<open>scheduler_back\<close> runs and the scan goes on after that entry. \<open>None\<close> is the end of the table,
  where the lock is released and the next round begins.
\<close>

definition scheduler_enter :: "('a pmach_scheme, nat) K" where
  "scheduler_enter = kbind mycpu (\<lambda>c. kseq (upd_cpu c (\<lambda>k. k\<lparr>c_proc := None\<rparr>)) (ret c))"

fun scheduler_scan :: "nat \<Rightarrow> nat list \<Rightarrow> ('a pmach_scheme, nat option) K" where
  "scheduler_scan c [] = kseq (release PtableLock) (ret None)"
| "scheduler_scan c (i # is) =
     kbind (kget (\<lambda>s. p_state (st_procs s i))) (\<lambda>st.
     if st \<noteq> RUNNABLE then scheduler_scan c is
     else
       kseq (upd_cpu c (\<lambda>k. k\<lparr>c_proc := Some i\<rparr>)) (
       kseq (switchuvm (Some i)) (
       kseq (upd_proc (Some i) (\<lambda>q. q\<lparr>p_state := RUNNING\<rparr>)) (ret (Some i)))))"

definition scheduler_back :: "nat \<Rightarrow> ('a pmach_scheme, unit) K" where
  "scheduler_back c = kseq switchkvm (upd_cpu c (\<lambda>k. k\<lparr>c_proc := None\<rparr>))"

definition scheduler_round :: "nat \<Rightarrow> ('a pmach_scheme, nat option) K" where
  "scheduler_round c = kseq sti (kseq (acquire PtableLock) (scheduler_scan c [0..<NPROC]))"

definition scheduler_next :: "nat \<Rightarrow> nat \<Rightarrow> ('a pmach_scheme, nat option) K" where
  "scheduler_next c i = kseq (scheduler_back c) (scheduler_scan c [Suc i..<NPROC])"

section \<open>Frame of the process state\<close>

lemma procs_frame [simp]:
  "cpuno (s\<lparr>st_procs := k\<rparr>) = cpuno s" "cur (s\<lparr>st_procs := k\<rparr>) = cur s"
  "cpu_ok (s\<lparr>st_procs := k\<rparr>) = cpu_ok s" "lock_free (s\<lparr>st_procs := k\<rparr>) l = lock_free s l"
  "holds (s\<lparr>st_procs := k\<rparr>) c l = holds s c l" "IF_on (s\<lparr>st_procs := k\<rparr>) = IF_on s"
  by (simp_all add: cpuno_def cur_def cpu_ok_def lock_free_def holds_def IF_on_def)

lemma acquired_procs [kframe]: "(acquired l s)\<lparr>st_procs := k\<rparr> = acquired l (s\<lparr>st_procs := k\<rparr>)"
  by (simp_all add: acquired_def pushed_def IF_on_def)

lemma acquired_procs_simps [simp]:
  "st_procs (acquired l s) = st_procs s" "st_nullproc (acquired l s) = st_nullproc s"
  "st_shared (acquired l s) = st_shared s" "st_tf (acquired l s) = st_tf s"
  "st_initproc (acquired l s) = st_initproc s" "st_nextpid (acquired l s) = st_nextpid s"
  "procp (acquired l s) p = procp s p" "sharedp (acquired l s) p = sharedp s p"
  by (simp_all add: acquired_def pushed_def procp_def sharedp_def split: option.splits)

section \<open>Waking up\<close>

lemma wakeup1_run [krun]:
  "wakeup1 ch s = Ret () (s\<lparr>st_procs := (\<lambda>i. if i < NPROC \<and> p_state (st_procs s i) = SLEEPING
     \<and> p_chan (st_procs s i) = ch then (st_procs s i)\<lparr>p_state := RUNNABLE\<rparr> else st_procs s i)\<rparr>)"
  by (simp add: wakeup1_def scan_eq)

lemma wakeup_run [krun]:
  assumes "cpu_ok s" "lock_free s PtableLock"
  shows "wakeup ch s = Ret () (s\<lparr>st_procs := (\<lambda>i. if i < NPROC \<and> p_state (st_procs s i) = SLEEPING
     \<and> p_chan (st_procs s i) = ch then (st_procs s i)\<lparr>p_state := RUNNABLE\<rparr> else st_procs s i)\<rparr>)"
  using assms by (simp add: wakeup_def kseq_run acquire_ok wakeup1_run kframe release_acquired
      cong: if_cong)

section \<open>Going to sleep\<close>

definition asleep :: "chan \<Rightarrow> proc \<Rightarrow> proc" where
  "asleep ch q = q\<lparr>p_chan := ch, p_state := SLEEPING\<rparr>"

definition set_proc :: "nat \<Rightarrow> (proc \<Rightarrow> proc) \<Rightarrow> 'a pmach_scheme \<Rightarrow> 'a pmach_scheme" where
  "set_proc i f s = s\<lparr>st_procs := (st_procs s)(i := f (st_procs s i))\<rparr>"

lemma set_proc_simps [simp]:
  "cpuno (set_proc i f s) = cpuno s" "cur (set_proc i f s) = cur s" "cpu_ok (set_proc i f s) = cpu_ok s"
  "lock_free (set_proc i f s) l = lock_free s l" "holds (set_proc i f s) c l = holds s c l"
  "m_cpus (set_proc i f s) = m_cpus s" "st_procs (set_proc i f s) i = f (st_procs s i)"
  by (simp_all add: set_proc_def)

lemma acquired_set_proc [kframe]: "set_proc i f (acquired l s) = acquired l (set_proc i f s)"
  by (simp add: set_proc_def kframe)

lemma upd_proc_run [krun]: "upd_proc (Some i) f s = Ret () (set_proc i f s)"
  by (simp add: upd_proc_def set_proc_def)

text \<open>The process that runs on this CPU, in a kernel path that holds no spin lock.\<close>

definition running :: "nat \<Rightarrow> 'a pmach_scheme \<Rightarrow> bool" where
  "running i s \<longleftrightarrow> cpu_ok s \<and> c_proc (m_cpus s (cur s)) = Some i \<and> c_ncli (m_cpus s (cur s)) = 0"

lemma sched_asleep:
  assumes "running i s" "lock_free s PtableLock" "p_state (st_procs s i) = SLEEPING"
  shows "sched (acquired PtableLock s) = Stop (Sleeping (p_chan (st_procs s i))) (acquired PtableLock s)"
  using assms cpu_okD [of "acquired PtableLock s"]
  by (simp add: running_def sched_def kbind_run myproc_run holding_run mycpu_run readeflags_IF_def
      switch_reason_def procp_def flip: IF_on_def)

lemma sleep_run:
  assumes "running i s" "lock_free s PtableLock" "lock_free s lk" "lk \<noteq> PtableLock"
  shows "sleep ch lk (acquired lk s) =
     Stop (Sleeping ch) (acquired PtableLock (set_proc i (asleep ch) s))"
proof -
  have "running i (set_proc i (asleep ch) s)" using assms(1) by (simp add: running_def)
  from sched_asleep [OF this] assms show ?thesis
    by (simp add: running_def sleep_def kbind_run kseq_run kwhen_run myproc_run acquire_ok
        release_under upd_proc_run kframe)
      (simp add: set_proc_def asleep_def)
qed

section \<open>The scheduler\<close>

text \<open>What \<open>switchuvm\<close> loads for a process: its task state segment, and its page directory.\<close>

definition with_tss :: "addr \<Rightarrow> addr \<Rightarrow> cpu \<Rightarrow> cpu" where
  "with_tss ts kstack k = k\<lparr>c_gdt := (c_gdt k)(SEG_TSS := (SEG16 STS_T32A ts 103 0)\<lparr>sd_s := 0\<rparr>),
     c_ts_ss0 := of_nat (SEG_KDATA * 8), c_ts_esp0 := kstack + KSTACKSIZE, c_ts_iomb := 0xFFFF\<rparr>"

definition uvm_loaded :: "nat \<Rightarrow> 'a pmach_scheme \<Rightarrow> 'a pmach_scheme" where
  "uvm_loaded i s = s\<lparr>m_cpus := (m_cpus s)(cur s :=
       with_tss (st_ts_addr s (cur s)) (p_kstack (st_procs s i)) (m_cpus s (cur s))),
     st_tr := (st_tr s)(m_lapicid s := of_nat (SEG_TSS * 8)),
     m_cr3 := (m_cr3 s)(m_lapicid s := V2P (sh_pgdir (sharedp s (Some i))))\<rparr>"

lemma with_tss_simps [simp]:
  "c_apicid (with_tss ts ks k) = c_apicid k" "c_proc (with_tss ts ks k) = c_proc k"
  "c_ncli (with_tss ts ks k) = c_ncli k" "c_intena (with_tss ts ks k) = c_intena k"
  "push_cpu b (with_tss ts ks k) = with_tss ts ks (push_cpu b k)"
  by (simp_all add: with_tss_def push_cpu_def)

lemma cpuno_loaded [simp]: "cpuno (uvm_loaded i s) = cpuno s"
  by (rule cpuno_cong) (simp_all add: uvm_loaded_def)

lemma uvm_loaded_simps [simp]:
  "cur (uvm_loaded i s) = cur s" "m_locks (uvm_loaded i s) = m_locks s"
  "c_proc (m_cpus (uvm_loaded i s) c) = c_proc (m_cpus s c)"
  "c_ncli (m_cpus (uvm_loaded i s) c) = c_ncli (m_cpus s c)"
  "c_intena (m_cpus (uvm_loaded i s) c) = c_intena (m_cpus s c)"
  "st_procs (uvm_loaded i s) = st_procs s" "IF_on (uvm_loaded i s) = IF_on s"
  "m_cr3 (uvm_loaded i s) (m_lapicid s) = V2P (sh_pgdir (sharedp s (Some i)))"
  by (simp_all add: cur_def) (simp_all add: uvm_loaded_def IF_on_def)

lemma cpu_ok_loaded [simp]: "cpu_ok (uvm_loaded i s) = cpu_ok s"
  by (simp add: cpu_ok_def)

lemma popcli_pushed: "cpu_ok s \<Longrightarrow> popcli (pushed s) = Ret () s"
  using cpu_okD [of s] popped_pushed [of s] by (simp add: popcli_run)

lemma switchuvm_run [krun]:
  assumes "cpu_ok s" "p_kstack (st_procs s i) \<noteq> 0" "sh_pgdir (sharedp s (Some i)) \<noteq> 0"
  shows "switchuvm (Some i) s = Ret () (uvm_loaded i s)"
proof -
  let ?p = "uvm_loaded i s"
  have d: "m_cpus (pushed s) (cur s) = push_cpu (IF_on s) (m_cpus s (cur s))" by (simp add: pushed_def)
  have p: "procp (pushed s) q = procp s q" "sharedp (pushed s) q = sharedp s q" for q
    by (simp_all add: procp_def sharedp_def pushed_def split: option.splits)
  have e: "pushed ?p = (pushed s)\<lparr>m_cpus := (m_cpus (pushed s))(cur s :=
        with_tss (st_ts_addr s (cur s)) (p_kstack (st_procs s i)) (m_cpus (pushed s) (cur s))),
     st_tr := (st_tr s)(m_lapicid s := of_nat (SEG_TSS * 8)),
     m_cr3 := (m_cr3 s)(m_lapicid s := V2P (sh_pgdir (sharedp s (Some i))))\<rparr>"
    unfolding pushed_def [of ?p] by (simp add: pushed_def) (simp add: uvm_loaded_def)
  have "popcli (pushed ?p) = Ret () ?p"
    using assms(1) by (intro popcli_pushed) simp
  then show ?thesis
    unfolding e using assms cpu_okD [OF assms(1)]
    by (simp add: switchuvm_def kbind_run kseq_run procp_def pushcli_run mycpu_run upd_cpu_def lcr3_def
        with_tss_def) (simp add: pushed_def)
qed

text \<open>The scan stops at the first runnable entry.\<close>

definition runnable :: "'a pmach_scheme \<Rightarrow> nat \<Rightarrow> bool" where
  "runnable s i \<longleftrightarrow> p_state (st_procs s i) = RUNNABLE"

lemma scheduler_scan_find:
  "scheduler_scan c xs s = Ret r t \<Longrightarrow> r = find (runnable s) xs"
  by (induction c xs arbitrary: s rule: scheduler_scan.induct)
    (auto simp: kbind_run kseq_run runnable_def split: outcome.splits if_splits)

text \<open>A process can be run: it has a kernel stack and an address space.\<close>

definition bootable :: "'a pmach_scheme \<Rightarrow> nat \<Rightarrow> bool" where
  "bootable s i \<longleftrightarrow> p_kstack (st_procs s i) \<noteq> 0 \<and> sh_pgdir (sharedp s (Some i)) \<noteq> 0"

definition dispatched :: "nat \<Rightarrow> 'a pmach_scheme \<Rightarrow> 'a pmach_scheme" where
  "dispatched i s = set_proc i (\<lambda>q. q\<lparr>p_state := RUNNING\<rparr>)
     (uvm_loaded i (s\<lparr>m_cpus := (m_cpus s)(cur s := (m_cpus s (cur s))\<lparr>c_proc := Some i\<rparr>)\<rparr>))"

lemma scheduler_scan_run:
  assumes "cpu_ok s" "holds s (cur s) PtableLock" "0 < c_ncli (m_cpus s (cur s))"
    and "\<forall>i\<in>set xs. runnable s i \<longrightarrow> bootable s i"
  shows "scheduler_scan (cur s) xs s = (case find (runnable s) xs of
     Some i \<Rightarrow> Ret (Some i) (dispatched i s) | None \<Rightarrow> Ret None (released PtableLock s))"
  using assms(4)
proof (induction xs)
  case Nil
  then show ?case using assms(1-3) by (simp add: kseq_run release_run)
next
  case (Cons i xs)
  let ?u = "s\<lparr>m_cpus := (m_cpus s)(cur s := (m_cpus s (cur s))\<lparr>c_proc := Some i\<rparr>)\<rparr>"
  have c: "cpuno ?u = cpuno s" by (rule cpuno_cong) simp_all
  have ok: "cpu_ok ?u" using assms(1) c by (simp add: cpu_ok_def cur_def IF_on_def)
  have p: "st_procs ?u = st_procs s" "sharedp ?u q = sharedp s q" for q
    by (simp_all add: sharedp_def procp_def split: option.splits)
  show ?case
  proof (cases "runnable s i")
    case True
    then have "switchuvm (Some i) ?u = Ret () (uvm_loaded i ?u)"
      using Cons.prems ok p by (intro switchuvm_run) (auto simp: bootable_def)
    then show ?thesis
      using True by (simp add: runnable_def kbind_run kseq_run upd_cpu_def upd_proc_run dispatched_def)
  next
    case False
    then show ?thesis using Cons by (simp add: runnable_def kbind_run)
  qed
qed

text \<open>
  A CPU in its scheduler: it holds no lock. A round turns interrupts on first; the flag that the
  first lock then saves is on.
\<close>

definition idle :: "'a mach_scheme \<Rightarrow> 'a mach_scheme" where
  "idle s = s\<lparr>m_IF := (m_IF s)(m_lapicid s := True),
     m_cpus := (m_cpus s)(cur s := (m_cpus s (cur s))\<lparr>c_intena := True\<rparr>)\<rparr>"

lemma cpuno_idle [simp]: "cpuno (idle s) = cpuno s"
  by (rule cpuno_cong) (simp_all add: idle_def)

lemma idle_simps [simp]:
  "cur (idle s) = cur s" "m_locks (idle s) = m_locks s" "IF_on (idle s)"
  "c_ncli (m_cpus (idle s) c) = c_ncli (m_cpus s c)" "m_lapicid (idle s) = m_lapicid s"
  "lock_free (idle s) l = lock_free s l"
  by (simp_all add: cur_def lock_free_def) (simp_all add: idle_def IF_on_def)

lemma idle_procs [simp]:
  "st_procs (idle s) = st_procs s" "st_shared (idle s) = st_shared s" "sharedp (idle s) p = sharedp s p"
  by (simp_all add: idle_def sharedp_def procp_def split: option.splits)

lemma idle_ok:
  assumes "cpuno s \<noteq> None" "c_ncli (m_cpus s (cur s)) = 0"
  shows "cpu_ok (idle s)"
  using assms by (simp add: cpu_ok_def) (simp add: idle_def)

lemma sti_acquire:
  assumes "cpuno s \<noteq> None" "c_ncli (m_cpus s (cur s)) = 0" "lock_free s l"
  shows "kseq sti (acquire l) s = Ret () (acquired l (idle s))"
proof -
  let ?u = "s\<lparr>m_IF := (m_IF s)(m_lapicid s := True)\<rparr>"
  have c: "cpuno ?u = cpuno s" "cur ?u = cur s" by (simp_all add: cpuno_def cur_def)
  have p: "pushed ?u = pushed (idle s)"
    using assms(2) by (simp add: pushed_def c) (simp add: idle_def push_cpu_def IF_on_def)
  have "pushcli ?u = pushcli (idle s)" using assms(1) c p by (simp add: pushcli_run)
  then have "acquire l ?u = acquire l (idle s)" by (simp add: acquire_def kseq_run)
  then show ?thesis using idle_ok [OF assms(1,2)] assms(3) by (simp add: kseq_run sti_def acquire_ok)
qed

lemma sharedp_acquired [simp]: "runnable (acquired l s) = runnable s" "bootable (acquired l s) = bootable s"
  by (simp_all add: fun_eq_iff runnable_def bootable_def)

lemma runnable_idle [simp]: "runnable (idle s) = runnable s" "bootable (idle s) = bootable s"
  by (simp_all add: fun_eq_iff runnable_def bootable_def)

lemma scheduler_round_run:
  assumes "cpuno s \<noteq> None" "c_ncli (m_cpus s (cur s)) = 0" "lock_free s PtableLock"
    and "\<forall>i<NPROC. runnable s i \<longrightarrow> bootable s i"
  shows "scheduler_round (cur s) s = (case find (runnable s) [0..<NPROC] of
     Some i \<Rightarrow> Ret (Some i) (dispatched i (acquired PtableLock (idle s))) | None \<Rightarrow> Ret None (idle s))"
proof -
  let ?u = "acquired PtableLock (idle s)"
  have ok: "cpu_ok (idle s)" by (rule idle_ok [OF assms(1,2)])
  have r: "scheduler_scan (cur ?u) [0..<NPROC] ?u = (case find (runnable ?u) [0..<NPROC] of
     Some i \<Rightarrow> Ret (Some i) (dispatched i ?u) | None \<Rightarrow> Ret None (released PtableLock ?u))"
    using ok assms acquired_simps(2,9) [of PtableLock "idle s"] by (intro scheduler_scan_run) simp_all
  have "scheduler_round (cur s) s = scheduler_scan (cur s) [0..<NPROC] ?u"
    using sti_acquire [OF assms(1-3)] by (auto simp: scheduler_round_def kseq_run split: outcome.splits)
  then show ?thesis using r ok assms(3) by (simp add: released_acquired split: option.split)
qed

section \<open>Turns of the scheduler\<close>

text \<open>
  A CPU's scheduler is entered at the start of a round and whenever the process it ran switches
  back. \<open>sched_run c prev ss rs\<close>: at the states \<open>ss\<close>, one after the other, it chose \<open>rs\<close> (\<open>None\<close> is the
  end of a round); between them the processes and the other CPUs may do anything.
\<close>

fun sched_run :: "nat \<Rightarrow> nat option \<Rightarrow> 'a pmach_scheme list \<Rightarrow> nat option list \<Rightarrow> bool" where
  "sched_run c prev [] [] = True"
| "sched_run c prev (s # ss) (r # rs) =
     (returns (case prev of None \<Rightarrow> scheduler_round c s | Some i \<Rightarrow> scheduler_next c i s) = Some r
      \<and> sched_run c r ss rs)"
| "sched_run c prev _ _ = False"

lemma beyond_procs: "beyond_cpus st_procs"
  by (simp add: beyond_cpus_def)

lemma acquire_procs: "acquire l s = Ret a t \<Longrightarrow> st_procs t = st_procs s"
  by (rule keepsD [OF keeps_locking(5) [OF beyond_procs]])

lemma sched_turn:
  fixes s :: "'a pmach_scheme"
  assumes "returns (case prev of None \<Rightarrow> scheduler_round c s | Some i \<Rightarrow> scheduler_next c i s) = Some r"
  shows "r = find (runnable s) [(case prev of None \<Rightarrow> 0 | Some i \<Rightarrow> Suc i)..<NPROC]"
proof -
  have *: "r = find (runnable u) xs" if "returns (scheduler_scan c xs u) = Some r"
    for u :: "'a pmach_scheme" and xs
    using that scheduler_scan_find [of c xs u] by (cases "scheduler_scan c xs u") auto
  show ?thesis
  proof (cases prev)
    case None
    then obtain u :: "'a pmach_scheme" where "returns (scheduler_scan c [0..<NPROC] u) = Some r" "st_procs u = st_procs s"
      using assms by (auto simp: scheduler_round_def kseq_run sti_def dest!: acquire_procs split: outcome.splits)
    then show ?thesis using * [of "[0..<NPROC]" u] None by (simp add: runnable_def cong: find_cong)
  next
    case (Some i)
    then obtain u :: "'a pmach_scheme" where "returns (scheduler_scan c [Suc i..<NPROC] u) = Some r" "st_procs u = st_procs s"
      using assms
      by (auto simp: scheduler_next_def scheduler_back_def switchkvm_def lcr3_def upd_cpu_def kseq_run kbind_run)
    then show ?thesis using * [of "[Suc i..<NPROC]" u] Some by (simp add: runnable_def cong: find_cong)
  qed
qed

lemma find_upt_first:
  assumes "P j" "a \<le> j" "j < n"
  shows "\<exists>k. find P [a..<n] = Some k \<and> a \<le> k \<and> k \<le> j"
proof -
  obtain k where k: "find P [a..<n] = Some k"
    using assms by (cases "find P [a..<n]") (auto simp: find_None_iff)
  then obtain i where i: "i < n - a" "k = a + i" "\<forall>l<i. \<not> P (a + l)"
    by (auto simp: find_Some_iff)
  have "k \<le> j"
  proof (rule ccontr)
    assume "\<not> k \<le> j"
    then have "j - a < i" "a + (j - a) = j" using i(2) assms(2) by auto
    then show False using i(3) assms(1) by metis
  qed
  then show ?thesis using k i(2) by simp
qed

lemma sched_run_reaches:
  assumes "sched_run c prev ss rs" "j < NPROC" "\<forall>s\<in>set ss. runnable s j"
    and "(case prev of None \<Rightarrow> 0 | Some i \<Rightarrow> Suc i) = a"
    and "if a \<le> j then j - a < length ss else NPROC - a + Suc j < length ss"
  shows "Some j \<in> set rs"
  using assms
proof (induction c prev ss rs arbitrary: a rule: sched_run.induct)
  case (2 c prev s ss r rs)
  have r: "r = find (runnable s) [a..<NPROC]" using sched_turn 2(2,5) by fastforce
  have run: "sched_run c r ss rs" "\<forall>s\<in>set ss. runnable s j" using 2(2,4) by auto
  show ?case
  proof (cases "a \<le> j")
    case True
    then obtain k where k: "r = Some k" "a \<le> k" "k \<le> j"
      using find_upt_first [of "runnable s" j a NPROC] 2(3,4) r by auto
    show ?thesis
    proof (cases "k = j")
      case False
      then have "Some j \<in> set rs" using 2(1) [OF run(1) 2(3) run(2), of "Suc k"] 2(6) k True by auto
      then show ?thesis by simp
    qed (use k in simp)
  next
    case False
    show ?thesis
    proof (cases r)
      case None
      then show ?thesis using 2(1) [OF run(1) 2(3) run(2), of 0] 2(6) False by auto
    next
      case (Some k)
      then have "k \<in> set [a..<NPROC]" using r by (auto simp: find_Some_iff)
      then show ?thesis using 2(1) [OF run(1) 2(3) run(2), of "Suc k"] 2(6) False Some by auto
    qed
  qed
qed (auto split: if_splits)

lemma scheduler_next_run:
  assumes "cpu_ok s" "holds s (cur s) PtableLock" "0 < c_ncli (m_cpus s (cur s))"
    and "\<forall>i<NPROC. runnable s i \<longrightarrow> bootable s i"
  shows "returns (scheduler_next (cur s) i s) = Some (find (runnable s) [Suc i..<NPROC])"
proof -
  let ?u = "s\<lparr>m_cr3 := (m_cr3 s)(m_lapicid s := V2P (st_kpgdir s)),
     m_cpus := (m_cpus s)(cur s := (m_cpus s (cur s))\<lparr>c_proc := None\<rparr>)\<rparr>"
  have c: "cpuno ?u = cpuno s" by (rule cpuno_cong) simp_all
  have cur: "cur ?u = cur s" unfolding cur_def [of ?u] c by (simp add: cur_def)
  have ok: "cpu_ok ?u" using assms(1) c cur by (simp add: cpu_ok_def IF_on_def)
  have p: "runnable ?u = runnable s" "bootable ?u = bootable s"
    by (simp_all add: fun_eq_iff runnable_def bootable_def sharedp_def procp_def)
  have "holds ?u (cur ?u) PtableLock" "0 < c_ncli (m_cpus ?u (cur ?u))"
    using assms(2,3) unfolding cur by (simp_all add: holds_def)
  from scheduler_scan_run [OF ok this, of "[Suc i..<NPROC]"] assms(4) p cur
  have "scheduler_scan (cur s) [Suc i..<NPROC] ?u = (case find (runnable s) [Suc i..<NPROC] of
     Some i \<Rightarrow> Ret (Some i) (dispatched i ?u) | None \<Rightarrow> Ret None (released PtableLock ?u))"
    by simp
  then show ?thesis
    by (simp add: scheduler_next_def scheduler_back_def switchkvm_def lcr3_def upd_cpu_def kseq_run
        kbind_run split: option.splits)
qed

section \<open>Properties\<close>

text \<open>A machine on which CPU 0 runs process 0, and every other entry of the table is runnable.\<close>

definition ex_proc :: "int \<Rightarrow> procstate \<Rightarrow> proc" where
  "ex_proc pid st = \<lparr>p_kstack = 0x80300000, p_state = st, p_pid = pid, p_parent = None, p_tf = 0x80300FB4,
     p_context = 0x80300F9C, p_chan = ChanRaw 0, p_killed = False, p_name = [], p_sharePtr = 0x80400000,
     p_orderOfThread = 0, p_retval = 0, p_imMaster = True, p_stack = 0\<rparr>"

definition ex_shared :: sharedData where
  "ex_shared = \<lparr>sh_sz = 4096, sh_pgdir = 0x80200000, sh_ofile = (\<lambda>_. None), sh_cwd = None,
     sh_numOfThread = 1, sh_threads = (\<lambda>_. None), sh_isThere = (\<lambda>_. 0)\<rparr>"

definition ex_tf :: trapframe where
  "ex_tf = \<lparr>tf_edi = 0, tf_esi = 0, tf_ebp = 0, tf_oesp = 0, tf_ebx = 0, tf_edx = 0, tf_ecx = 0,
     tf_eax = 0, tf_gs = 0, tf_fs = 0, tf_es = 0, tf_ds = 0, tf_trapno = 0, tf_err = 0, tf_eip = 0,
     tf_cs = 0, tf_eflags = 0, tf_esp = 0, tf_ss = 0\<rparr>"

definition ex_pmach :: pmach where
  "ex_pmach = vmach.extend
     (boot_vmach\<lparr>m_cpus := (m_cpus boot_vmach)(0 := (m_cpus boot_vmach 0)\<lparr>c_proc := Some 0\<rparr>)\<rparr>)
     (pmach.fields (\<lambda>i. ex_proc (int i + 1) (if i = 0 then RUNNING else RUNNABLE)) (ex_proc 0 UNUSED)
        (Some 0) 65 (\<lambda>_. ex_shared) (\<lambda>_. ex_tf) (\<lambda>_. \<lparr>cx_edi = 0, cx_esi = 0, cx_ebx = 0, cx_ebp = 0, cx_eip = 0\<rparr>)
        0 0 False)"

text \<open>What the code needs of the CPUs and locks depends on that part of the state only.\<close>

lemma mach_truncate:
  "cpuno (mach.truncate s) = cpuno s" "cur (mach.truncate s) = cur s"
  "cpu_ok (mach.truncate s) = cpu_ok s" "lock_free (mach.truncate s) l = lock_free s l"
  by (simp_all add: cpuno_def cur_def cpu_ok_def lock_free_def IF_on_def mach.defs)

definition ex_mach :: mach where
  "ex_mach = two_cpus\<lparr>m_mem := store32 (\<lambda>_. 0) 0x80101000 0x80102000,
     m_cpus := (m_cpus two_cpus)(0 := (m_cpus two_cpus 0)\<lparr>c_proc := Some 0\<rparr>)\<rparr>"

lemma ex_mach_ok: "cpuno ex_mach = Some 0" "cur ex_mach = 0" "cpu_ok ex_mach" "lock_free ex_mach l"
proof -
  show c: "cpuno ex_mach = Some 0"
    using two_cpus_cpuno cpuno_cong [of two_cpus ex_mach] by (simp add: ex_mach_def)
  then show k: "cur ex_mach = 0" by (simp add: cur_def)
  show "cpu_ok ex_mach"
    unfolding cpu_ok_def k using c by (simp add: ex_mach_def IF_on_def two_cpus_def)
  show "lock_free ex_mach l" by (simp add: ex_mach_def lock_free_def two_cpus_def)
qed

lemma ex_pmach_mach: "mach.truncate ex_pmach = ex_mach"
  by (simp add: ex_pmach_def ex_mach_def boot_vmach_def boot_kmach_def two_cpus_def
      mach.defs kmach.defs vmach.defs pmach.defs)

lemma ex_pmach_ok: "cpuno ex_pmach = Some 0" "cur ex_pmach = 0" "cpu_ok ex_pmach" "lock_free ex_pmach l"
  using ex_mach_ok by (simp_all flip: ex_pmach_mach add: mach_truncate)

lemma ex_pmach_simps [simp]:
  "m_cpus ex_pmach 0 = (m_cpus two_cpus 0)\<lparr>c_proc := Some 0\<rparr>"
  "st_procs ex_pmach i = ex_proc (int i + 1) (if i = 0 then RUNNING else RUNNABLE)"
  "st_shared ex_pmach a = ex_shared"
  by (simp_all add: ex_pmach_def boot_vmach_def boot_kmach_def
      mach.defs kmach.defs vmach.defs pmach.defs)

lemma ex_running: "running 0 ex_pmach"
  using ex_pmach_ok by (simp add: running_def) (simp add: two_cpus_def)



text \<open>
  C23. A round of the scheduler runs the first runnable process of the table: it becomes the CPU's
  process, its state becomes \<open>RUNNING\<close> and its page directory is loaded, with the table lock held
  for it; no other entry changes. If no process is runnable the lock is released, with interrupts on.
\<close>

theorem scheduler_runs_first:
  assumes "cpuno s \<noteq> None" "c_ncli (m_cpus s (cur s)) = 0" "lock_free s PtableLock"
    and "\<forall>i<NPROC. runnable s i \<longrightarrow> bootable s i"
  shows "case find (runnable s) [0..<NPROC] of
      Some i \<Rightarrow> (\<exists>t. scheduler_round (cur s) s = Ret (Some i) t
        \<and> st_procs t = (st_procs s)(i := (st_procs s i)\<lparr>p_state := RUNNING\<rparr>)
        \<and> c_proc (m_cpus t (cur s)) = Some i
        \<and> m_cr3 t (m_lapicid s) = V2P (sh_pgdir (sharedp s (Some i)))
        \<and> holds t (cur s) PtableLock)
    | None \<Rightarrow> (\<exists>t. scheduler_round (cur s) s = Ret None t \<and> st_procs t = st_procs s
        \<and> lock_free t PtableLock \<and> IF_on t)"
proof -
  let ?u = "acquired PtableLock (idle s)"
  have p: "sharedp (?u\<lparr>m_cpus := C\<rparr>) (Some i) = sharedp s (Some i)" for C i
    by (simp add: sharedp_def procp_def)
  have h: "holds ?u (cur s) PtableLock" using acquired_simps(2) [of PtableLock "idle s"] by simp
  have c: "cur (?u\<lparr>m_cpus := (m_cpus ?u)(cur s := (m_cpus ?u (cur s))\<lparr>c_proc := Some i\<rparr>)\<rparr>) = cur s" for i
  proof -
    have "cpuno (?u\<lparr>m_cpus := (m_cpus ?u)(cur s := (m_cpus ?u (cur s))\<lparr>c_proc := Some i\<rparr>)\<rparr>) = cpuno ?u"
      by (rule cpuno_cong) simp_all
    then show ?thesis by (simp add: cur_def)
  qed
  have "st_procs (dispatched i ?u) = (st_procs s)(i := (st_procs s i)\<lparr>p_state := RUNNING\<rparr>)" for i
    by (simp add: dispatched_def set_proc_def)
  moreover have "c_proc (m_cpus (dispatched i ?u) (cur s)) = Some i" for i
    by (simp add: dispatched_def)
  moreover have "m_cr3 (dispatched i ?u) (m_lapicid s) = V2P (sh_pgdir (sharedp s (Some i)))" for i
    by (simp add: dispatched_def set_proc_def uvm_loaded_def p)
  moreover have "holds (dispatched i ?u) (cur s) PtableLock" for i
    using h by (simp add: dispatched_def) (simp add: holds_def)
  ultimately show ?thesis
    using scheduler_round_run [OF assms] assms(3) by (auto split: option.splits)
qed

lemma ex_bootable: "bootable ex_pmach i"
  by (simp add: bootable_def sharedp_def procp_def ex_proc_def ex_shared_def)

lemma ex_runnable: "runnable ex_pmach i \<longleftrightarrow> i \<noteq> 0"
  by (simp add: runnable_def ex_proc_def)

lemma ex_ncli: "c_ncli (m_cpus ex_pmach (cur ex_pmach)) = 0"
  by (simp add: ex_pmach_ok) (simp add: two_cpus_def)

lemma ex_first: "find (runnable ex_pmach) [0..<NPROC] = Some 1"
  by (simp add: NPROC_def upt_rec ex_runnable)

theorem scheduler_runs_first_witness:
  "\<exists>t. scheduler_round 0 ex_pmach = Ret (Some 1) t \<and> p_state (st_procs t 1) = RUNNING
    \<and> m_cr3 t (m_lapicid ex_pmach) = V2P 0x80200000"
  using scheduler_runs_first [OF _ ex_ncli ex_pmach_ok(4)] ex_bootable ex_first ex_pmach_ok(1,2)
  by (auto simp: sharedp_def ex_shared_def)

text \<open>
  C14. The scheduler starves nobody: over any \<open>NPROC + 1\<close> consecutive turns of a CPU's scheduler,
  wherever in the table it starts, a process that is runnable at each of them is chosen.
\<close>

theorem scheduler_fair:
  assumes "sched_run c prev ss rs" "j < NPROC" "\<forall>s\<in>set ss. runnable s j" "NPROC < length ss"
  shows "Some j \<in> set rs"
  by (rule sched_run_reaches [OF assms(1-3) refl]) (use assms(2,4) in auto)

text \<open>A full round on the example machine, and the start of the next.\<close>

lemma ex_round_returns:
  assumes "i < NPROC"
  shows "\<exists>rs. sched_run 0 (Some i) (replicate (NPROC - i) (acquired PtableLock ex_pmach) @ [ex_pmach]) rs"
  using assms
proof (induction "NPROC - i" arbitrary: i)
  case (Suc n)
  let ?h = "acquired PtableLock ex_pmach"
  have h: "holds ?h (cur ?h) PtableLock" "0 < c_ncli (m_cpus ?h (cur ?h))" "cpu_ok ?h"
    using acquired_simps(2,9) [of PtableLock ex_pmach] ex_ncli ex_pmach_ok(3) by simp_all
  have n: "returns (scheduler_next 0 i ?h) = Some (find (runnable ex_pmach) [Suc i..<NPROC])"
    using scheduler_next_run [OF h(3,1,2), of i] ex_bootable ex_pmach_ok(2) by simp
  show ?case
  proof (cases "Suc i = NPROC")
    case True
    have "returns (scheduler_round 0 ex_pmach) = Some (Some 1)"
      using scheduler_round_run [OF _ ex_ncli ex_pmach_ok(4)] ex_bootable ex_first ex_pmach_ok(1,2) by simp
    moreover have "NPROC - i = Suc 0" using True by simp
    ultimately show ?thesis using n True by (intro exI [of _ "[None, Some 1]"]) simp
  next
    case False
    then obtain rs where "sched_run 0 (Some (Suc i)) (replicate (NPROC - Suc i) ?h @ [ex_pmach]) rs"
      using Suc by fastforce
    moreover have "find (runnable ex_pmach) [Suc i..<NPROC] = Some (Suc i)"
      using False Suc.prems by (simp add: upt_rec ex_runnable)
    moreover have "NPROC - i = Suc (NPROC - Suc i)" using Suc.prems by simp
    ultimately show ?thesis using n by (intro exI [of _ "Some (Suc i) # rs"]) simp
  qed
qed simp

theorem scheduler_fair_witness:
  "\<exists>rs. sched_run 0 (Some 0) (replicate NPROC (acquired PtableLock ex_pmach) @ [ex_pmach]) rs
    \<and> Some 63 \<in> set rs"
proof -
  obtain rs where r: "sched_run 0 (Some 0) (replicate NPROC (acquired PtableLock ex_pmach) @ [ex_pmach]) rs"
    using ex_round_returns [of 0] by (auto simp: NPROC_def)
  have "\<forall>s\<in>set (replicate NPROC (acquired PtableLock ex_pmach) @ [ex_pmach]). runnable s 63"
    by (auto simp: ex_runnable)
  from scheduler_fair [OF r _ this] r show ?thesis by (auto simp: NPROC_def)
qed

end
