(* ===== verification/Sleeplock.thy ===== *)
theory Sleeplock
  imports Sched
begin

text \<open>
  Sleep locks, \<^verbatim>\<open>src/sleeplock.c\<close>. A sleep lock belongs to a buffer or to an inode; it is
  protected by a spin lock of its own and its address is the channel its waiters sleep on.
  \<open>acquiresleep_loop\<close> is the loop of \<open>acquiresleep\<close> from its head on, which a waiter enters
  again after \<open>sleep_resume\<close>.
\<close>

datatype slid = BufSL nat | InodeSL nat

record sleeplock =
  sl_locked :: bool
  sl_name :: string
  sl_pid :: int

record smach = pmach +
  st_slocks :: "slid \<Rightarrow> sleeplock"

fun sl_spin :: "slid \<Rightarrow> lockid" where
  "sl_spin (BufSL i) = BufLock i"
| "sl_spin (InodeSL i) = InodeLock i"

fun sl_chan :: "slid \<Rightarrow> chan" where
  "sl_chan (BufSL i) = ChanBufLock i"
| "sl_chan (InodeSL i) = ChanInodeLock i"

definition upd_sl :: "slid \<Rightarrow> (sleeplock \<Rightarrow> sleeplock) \<Rightarrow> ('a smach_scheme, unit) K" where
  "upd_sl k f = kmod (\<lambda>s. s\<lparr>st_slocks := (st_slocks s)(k := f (st_slocks s k))\<rparr>)"

definition mypid :: "('a smach_scheme, int) K" where
  "mypid = kbind myproc (\<lambda>p. kget (\<lambda>s. p_pid (procp s p)))"

definition initsleeplock :: "slid \<Rightarrow> string \<Rightarrow> ('a smach_scheme, unit) K" where
  "initsleeplock k name =
     kseq (initlock (sl_spin k) ''sleep lock'')
          (upd_sl k (\<lambda>l. l\<lparr>sl_name := name, sl_locked := False, sl_pid := 0\<rparr>))"

definition acquiresleep_loop :: "slid \<Rightarrow> ('a smach_scheme, unit) K" where
  "acquiresleep_loop k =
     kbind (kget (\<lambda>s. sl_locked (st_slocks s k))) (\<lambda>b.
     if b then sleep (sl_chan k) (sl_spin k)
     else
       kseq (upd_sl k (\<lambda>l. l\<lparr>sl_locked := True\<rparr>)) (
       kbind mypid (\<lambda>pid.
       kseq (upd_sl k (\<lambda>l. l\<lparr>sl_pid := pid\<rparr>)) (release (sl_spin k)))))"

definition acquiresleep :: "slid \<Rightarrow> ('a smach_scheme, unit) K" where
  "acquiresleep k = kseq (acquire (sl_spin k)) (acquiresleep_loop k)"

definition releasesleep :: "slid \<Rightarrow> ('a smach_scheme, unit) K" where
  "releasesleep k =
     kseq (acquire (sl_spin k)) (
     kseq (upd_sl k (\<lambda>l. l\<lparr>sl_locked := False, sl_pid := 0\<rparr>)) (
     kseq (wakeup (sl_chan k)) (release (sl_spin k))))"

definition holdingsleep :: "slid \<Rightarrow> ('a smach_scheme, bool) K" where
  "holdingsleep k =
     kseq (acquire (sl_spin k)) (
     kbind mypid (\<lambda>pid.
     kbind (kget (\<lambda>s. sl_locked (st_slocks s k) \<and> sl_pid (st_slocks s k) = pid)) (\<lambda>r.
     kseq (release (sl_spin k)) (ret r))))"

section \<open>Frame\<close>

lemma slocks_frame [simp]:
  "cpuno (s\<lparr>st_slocks := x\<rparr>) = cpuno s" "cur (s\<lparr>st_slocks := x\<rparr>) = cur s"
  "cpu_ok (s\<lparr>st_slocks := x\<rparr>) = cpu_ok s" "lock_free (s\<lparr>st_slocks := x\<rparr>) l = lock_free s l"
  "holds (s\<lparr>st_slocks := x\<rparr>) c l = holds s c l" "IF_on (s\<lparr>st_slocks := x\<rparr>) = IF_on s"
  by (simp_all add: cpuno_def cur_def cpu_ok_def lock_free_def holds_def IF_on_def)

lemma acquired_slocks [kframe]:
  "(acquired l s)\<lparr>st_slocks := x\<rparr> = acquired l (s\<lparr>st_slocks := x\<rparr>)"
  by (simp_all add: acquired_def pushed_def IF_on_def)

lemma acquired_slocks_sel [simp]:
  "st_slocks (acquired l s) = st_slocks s"
  by (simp_all add: acquired_def pushed_def)

section \<open>Closed forms\<close>

definition my_pid :: "'a smach_scheme \<Rightarrow> int" where
  "my_pid s = p_pid (procp s (c_proc (m_cpus s (cur s))))"

lemma mypid_run [krun]: "cpu_ok s \<Longrightarrow> mypid s = Ret (my_pid s) s"
  by (simp add: mypid_def my_pid_def kbind_run myproc_run)

lemma my_pid_simps [simp]:
  "my_pid (acquired l s) = my_pid s" "my_pid (s\<lparr>st_slocks := x\<rparr>) = my_pid s"
  by (simp_all add: my_pid_def procp_def split: option.splits)

lemma acquiresleep_run [krun]:
  assumes "cpu_ok s" "lock_free s (sl_spin k)" "\<not> sl_locked (st_slocks s k)"
  shows "acquiresleep k s = Ret () (s\<lparr>st_slocks := (st_slocks s)
     (k := (st_slocks s k)\<lparr>sl_locked := True, sl_pid := my_pid s\<rparr>)\<rparr>)"
  using assms
  by (simp add: acquiresleep_def acquiresleep_loop_def upd_sl_def kseq_run kbind_run acquire_ok
      mypid_run kframe release_acquired)

lemma holdingsleep_run [krun]:
  assumes "cpu_ok s" "lock_free s (sl_spin k)"
  shows "holdingsleep k s = Ret (sl_locked (st_slocks s k) \<and> sl_pid (st_slocks s k) = my_pid s) s"
  using assms
  by (simp add: holdingsleep_def kseq_run kbind_run acquire_ok mypid_run release_acquired)

text \<open>The table after waking the sleepers of a channel.\<close>

definition woken :: "chan \<Rightarrow> 'a pmach_scheme \<Rightarrow> 'a pmach_scheme" where
  "woken ch s = s\<lparr>st_procs := (\<lambda>i. if i < NPROC \<and> p_state (st_procs s i) = SLEEPING
     \<and> p_chan (st_procs s i) = ch then (st_procs s i)\<lparr>p_state := RUNNABLE\<rparr> else st_procs s i)\<rparr>"

lemma wakeup_woken: "cpu_ok s \<Longrightarrow> lock_free s PtableLock \<Longrightarrow> wakeup ch s = Ret () (woken ch s)"
  by (simp add: wakeup_run woken_def)

lemma woken_simps [simp]:
  "cpuno (woken ch s) = cpuno s" "cur (woken ch s) = cur s" "cpu_ok (woken ch s) = cpu_ok s"
  "lock_free (woken ch s) l = lock_free s l" "holds (woken ch s) c l = holds s c l"
  "m_cpus (woken ch s) = m_cpus s" "m_mem (woken ch s) = m_mem s" "m_locks (woken ch s) = m_locks s"
  by (simp_all add: woken_def)

lemma woken_slocks [simp]: "st_slocks (woken ch s) = st_slocks s"
  by (simp add: woken_def)

lemma my_pid_woken [simp]: "my_pid (woken ch s) = my_pid s"
  by (simp add: my_pid_def procp_def woken_def split: option.splits)

lemma acquired_woken [kframe]: "woken ch (acquired l s) = acquired l (woken ch s)"
  by (simp add: woken_def kframe cong: if_cong)

lemma releasesleep_run [krun]:
  assumes "cpu_ok s" "lock_free s (sl_spin k)" "lock_free s PtableLock" "sl_spin k \<noteq> PtableLock"
  shows "releasesleep k s = Ret () (woken (sl_chan k) (s\<lparr>st_slocks := (st_slocks s)
     (k := (st_slocks s k)\<lparr>sl_locked := False, sl_pid := 0\<rparr>)\<rparr>))"
  using assms
  by (simp add: releasesleep_def upd_sl_def kseq_run kbind_run acquire_ok wakeup_woken kframe
      release_acquired)

lemma sl_spin_neq [simp]: "sl_spin k \<noteq> PtableLock" "sl_spin k \<noteq> BcacheLock" "sl_spin k \<noteq> LogLock"
  "sl_spin k \<noteq> IcacheLock" "sl_spin k \<noteq> KmemLock" "sl_spin k \<noteq> FtableLock" "sl_spin k \<noteq> IdeLock"
  by (cases k; simp)+

section \<open>Properties\<close>

definition ex_smach :: smach where
  "ex_smach = pmach.extend ex_pmach
     (smach.fields (\<lambda>k. \<lparr>sl_locked = (k = InodeSL 1), sl_name = '''', sl_pid = 7\<rparr>))"

lemma ex_smach_mach: "mach.truncate ex_smach = ex_mach"
  unfolding ex_pmach_mach [symmetric] by (simp add: ex_smach_def mach.defs pmach.defs)

lemma ex_smach_simps [simp]:
  "st_procs ex_smach = st_procs ex_pmach" "m_cpus ex_smach = m_cpus ex_pmach"
  "st_slocks ex_smach k = \<lparr>sl_locked = (k = InodeSL 1), sl_name = '''', sl_pid = 7\<rparr>"
  by (simp_all add: ex_smach_def pmach.defs smach.defs)

lemma ex_smach_ok: "running 0 ex_smach" "lock_free ex_smach l"
proof -
  have "cur ex_smach = 0" "cpu_ok ex_smach" "lock_free ex_smach l" for l
    using ex_mach_ok by (simp_all flip: ex_smach_mach add: mach_truncate)
  then show "running 0 ex_smach" "lock_free ex_smach l"
    by (simp_all add: running_def two_cpus_def)
qed

lemma acquiresleep_blocks:
  assumes "running i s" "lock_free s (sl_spin k)" "lock_free s PtableLock" "sl_locked (st_slocks s k)"
  shows "acquiresleep k s = Stop (Sleeping (sl_chan k))
     (acquired PtableLock (set_proc i (asleep (sl_chan k)) s))"
  using assms sleep_run [OF assms(1,3,2), of "sl_chan k"]
  by (simp add: acquiresleep_def acquiresleep_loop_def kseq_run kbind_run acquire_ok running_def)

text \<open>
  C36. A sleep lock excludes other processes without spinning. If it is taken, \<open>acquiresleep\<close> leaves it
  as it is and puts the caller to sleep on its channel with the spin lock free; if it is free, the
  caller gets it and is the process that \<open>holdingsleep\<close> confirms, and \<open>releasesleep\<close> frees it and
  makes every process that waits for it runnable.
\<close>

theorem sleeplock_excludes:
  assumes "running i s" "lock_free s (sl_spin k)" "lock_free s PtableLock"
  shows "if sl_locked (st_slocks s k)
    then \<exists>t. acquiresleep k s = Stop (Sleeping (sl_chan k)) t \<and> st_slocks t = st_slocks s
      \<and> lock_free t (sl_spin k) \<and> p_state (st_procs t i) = SLEEPING \<and> p_chan (st_procs t i) = sl_chan k
    else \<exists>t u. acquiresleep k s = Ret () t \<and> sl_locked (st_slocks t k) \<and> holdingsleep k t = Ret True t
      \<and> releasesleep k t = Ret () u \<and> \<not> sl_locked (st_slocks u k)
      \<and> (\<forall>j<NPROC. p_state (st_procs s j) = SLEEPING \<longrightarrow>
           p_state (st_procs u j) = (if p_chan (st_procs s j) = sl_chan k then RUNNABLE else SLEEPING))"
proof (cases "sl_locked (st_slocks s k)")
  case True
  have "st_slocks (set_proc i f s) = st_slocks s" for f by (simp add: set_proc_def)
  then show ?thesis
    using True assms(2) acquiresleep_blocks [OF assms True] by (simp add: asleep_def)
next
  case False
  let ?t = "s\<lparr>st_slocks := (st_slocks s)(k := (st_slocks s k)\<lparr>sl_locked := True, sl_pid := my_pid s\<rparr>)\<rparr>"
  have ok: "cpu_ok s" using assms(1) by (simp add: running_def)
  have a: "acquiresleep k s = Ret () ?t" by (rule acquiresleep_run [OF ok assms(2) False])
  have h: "holdingsleep k ?t = Ret True ?t" using ok assms(2) by (simp add: holdingsleep_run)
  obtain u where u: "releasesleep k ?t = Ret () u" "u = woken (sl_chan k) (?t\<lparr>st_slocks := (st_slocks ?t)
     (k := (st_slocks ?t k)\<lparr>sl_locked := False, sl_pid := 0\<rparr>)\<rparr>)"
    using ok assms(2,3) by (simp add: releasesleep_run)
  have "p_state (st_procs u j) = (if p_chan (st_procs s j) = sl_chan k then RUNNABLE else SLEEPING)"
    if "j < NPROC" "p_state (st_procs s j) = SLEEPING" for j
    using that u(2) by (simp add: woken_def)
  then show ?thesis using False a h u by auto
qed

theorem sleeplock_excludes_witness:
  "(\<exists>t. acquiresleep (InodeSL 1) ex_smach = Stop (Sleeping (ChanInodeLock 1)) t
     \<and> p_state (st_procs t 0) = SLEEPING)
   \<and> (\<exists>t. acquiresleep (BufSL 2) ex_smach = Ret () t \<and> holdingsleep (BufSL 2) t = Ret True t)"
  using sleeplock_excludes [OF ex_smach_ok(1) ex_smach_ok(2) ex_smach_ok(2), of "InodeSL 1"]
    sleeplock_excludes [OF ex_smach_ok(1) ex_smach_ok(2) ex_smach_ok(2), of "BufSL 2"]
  by auto

end
