(* ===== verification/Bio.thy ===== *)
theory Bio
  imports Sleeplock
begin

text \<open>
  The buffer cache, \<^verbatim>\<open>src/bio.c\<close>, on the memory disk of \<^verbatim>\<open>src/memide.c\<close> (the kernel that the
  Makefile builds as \<^verbatim>\<open>kernelmemfs\<close>; the driver of a real disk is the theory \<^verbatim>\<open>Ide\<close>).

  The buffers are linked in a ring through \<^verbatim>\<open>prev\<close> and \<^verbatim>\<open>next\<close>, as in the code; the ring's head
  is entry \<open>NBUF\<close> of the table. The two bits of \<^verbatim>\<open>flags\<close> are two booleans. Block numbers are
  natural numbers: the values a file system of \<^verbatim>\<open>FSSIZE\<close> blocks has do not overflow.

  Lemmas: the ring is a permutation of the buffers in order of last use; no two buffers hold the
  same block; \<open>bread\<close> returns what the block holds.
\<close>

section \<open>State\<close>

definition BSIZE :: nat where "BSIZE = 512"

record buf =
  b_valid :: bool
  b_dirty :: bool
  b_dev :: nat
  b_blockno :: nat
  b_refcnt :: uint
  b_prev :: nat
  b_next :: nat
  b_qnext :: "nat option"
  b_data :: "uchar list"

record bmach = smach +
  st_bufs :: "nat \<Rightarrow> buf"
  st_disk :: "nat \<Rightarrow> uchar list"
  st_disksize :: nat
  st_dwrites :: "(nat \<times> uchar list) list"

text \<open>
  \<open>st_dwrites\<close> is the history of the disk: the blocks written since boot, in order. A crash keeps
  the disk as it was after some number of these writes.
\<close>

definition upd_buf :: "nat \<Rightarrow> (buf \<Rightarrow> buf) \<Rightarrow> ('a bmach_scheme, unit) K" where
  "upd_buf i f = kmod (\<lambda>s. s\<lparr>st_bufs := (st_bufs s)(i := f (st_bufs s i))\<rparr>)"

definition getbuf :: "nat \<Rightarrow> ('a bmach_scheme, buf) K" where
  "getbuf i = kget (\<lambda>s. st_bufs s i)"

section \<open>The memory disk\<close>

definition ideinit :: "(nat \<Rightarrow> uchar list) \<Rightarrow> nat \<Rightarrow> ('a bmach_scheme, unit) K" where
  "ideinit img imgsize = kmod (\<lambda>s. s\<lparr>st_disk := img, st_disksize := imgsize div BSIZE\<rparr>)"

definition ideintr :: "('a bmach_scheme, unit) K" where
  "ideintr = ret ()"

definition iderw :: "nat \<Rightarrow> ('a bmach_scheme, unit) K" where
  "iderw i =
     kbind (holdingsleep (BufSL i)) (\<lambda>h.
     if \<not> h then panic ''iderw: buf not locked''
     else
       kbind (getbuf i) (\<lambda>b.
       if b_valid b \<and> \<not> b_dirty b then panic ''iderw: nothing to do''
       else if b_dev b \<noteq> 1 then panic ''iderw: request not for disk 1''
       else
         kbind (kget st_disksize) (\<lambda>n.
         if b_blockno b \<ge> n then panic ''iderw: block out of range''
         else
           kseq (if b_dirty b
                 then
                   kseq (upd_buf i (\<lambda>b. b\<lparr>b_dirty := False\<rparr>))
                        (kmod (\<lambda>s. s\<lparr>st_disk := (st_disk s)(b_blockno b := b_data b),
                            st_dwrites := st_dwrites s @ [(b_blockno b, b_data b)]\<rparr>))
                 else
                   kbind (kget (\<lambda>s. st_disk s (b_blockno b))) (\<lambda>d. upd_buf i (\<lambda>b. b\<lparr>b_data := d\<rparr>)))
                (upd_buf i (\<lambda>b. b\<lparr>b_valid := True\<rparr>)))))"

section \<open>The cache\<close>

definition binit_one :: "nat \<Rightarrow> ('a bmach_scheme, unit) K" where
  "binit_one b =
     kbind (getbuf NBUF) (\<lambda>h.
     kseq (upd_buf b (\<lambda>x. x\<lparr>b_next := b_next h\<rparr>)) (
     kseq (upd_buf b (\<lambda>x. x\<lparr>b_prev := NBUF\<rparr>)) (
     kseq (initsleeplock (BufSL b) ''buffer'') (
     kseq (kbind (getbuf NBUF) (\<lambda>h. upd_buf (b_next h) (\<lambda>x. x\<lparr>b_prev := b\<rparr>)))
          (upd_buf NBUF (\<lambda>x. x\<lparr>b_next := b\<rparr>))))))"

definition binit :: "('a bmach_scheme, unit) K" where
  "binit =
     kseq (initlock BcacheLock ''bcache'') (
     kseq (upd_buf NBUF (\<lambda>x. x\<lparr>b_prev := NBUF\<rparr>)) (
     kseq (upd_buf NBUF (\<lambda>x. x\<lparr>b_next := NBUF\<rparr>))
          (kfor binit_one [0..<NBUF])))"

text \<open>
  The two searches of \<open>bget\<close>: along \<^verbatim>\<open>next\<close> and along \<^verbatim>\<open>prev\<close>, up to the head of the ring. The
  result is \<open>None\<close> when the fuel runs out, which a ring of \<open>NBUF\<close> buffers does not let happen.
\<close>

primrec find_next :: "nat \<Rightarrow> (nat \<Rightarrow> buf) \<Rightarrow> (buf \<Rightarrow> bool) \<Rightarrow> nat \<Rightarrow> nat option option" where
  "find_next 0 bs P b = None"
| "find_next (Suc n) bs P b =
     (if b = NBUF then Some None
      else if P (bs b) then Some (Some b) else find_next n bs P (b_next (bs b)))"

primrec find_prev :: "nat \<Rightarrow> (nat \<Rightarrow> buf) \<Rightarrow> (buf \<Rightarrow> bool) \<Rightarrow> nat \<Rightarrow> nat option option" where
  "find_prev 0 bs P b = None"
| "find_prev (Suc n) bs P b =
     (if b = NBUF then Some None
      else if P (bs b) then Some (Some b) else find_prev n bs P (b_prev (bs b)))"

definition bget :: "nat \<Rightarrow> nat \<Rightarrow> ('a bmach_scheme, nat) K" where
  "bget dev blockno =
     kseq (acquire BcacheLock) (
     kbind (kget st_bufs) (\<lambda>bs.
     case find_next (Suc NBUF) bs (\<lambda>b. b_dev b = dev \<and> b_blockno b = blockno) (b_next (bs NBUF)) of
       None \<Rightarrow> kstop Diverge
     | Some (Some b) \<Rightarrow>
         kseq (upd_buf b (\<lambda>x. x\<lparr>b_refcnt := b_refcnt x + 1\<rparr>)) (
         kseq (release BcacheLock) (
         kseq (acquiresleep (BufSL b)) (ret b)))
     | Some None \<Rightarrow>
         (case find_prev (Suc NBUF) bs (\<lambda>b. b_refcnt b = 0 \<and> \<not> b_dirty b) (b_prev (bs NBUF)) of
            None \<Rightarrow> kstop Diverge
          | Some (Some b) \<Rightarrow>
              kseq (upd_buf b (\<lambda>x. x\<lparr>b_dev := dev, b_blockno := blockno, b_valid := False,
                      b_dirty := False, b_refcnt := 1\<rparr>)) (
              kseq (release BcacheLock) (
              kseq (acquiresleep (BufSL b)) (ret b)))
          | Some None \<Rightarrow> panic ''bget: no buffers'')))"

definition bread :: "nat \<Rightarrow> nat \<Rightarrow> ('a bmach_scheme, nat) K" where
  "bread dev blockno =
     kbind (bget dev blockno) (\<lambda>b.
     kbind (getbuf b) (\<lambda>x.
     kseq (kwhen (\<not> b_valid x) (iderw b)) (ret b)))"

definition bwrite :: "nat \<Rightarrow> ('a bmach_scheme, unit) K" where
  "bwrite b =
     kbind (holdingsleep (BufSL b)) (\<lambda>h.
     if \<not> h then panic ''bwrite''
     else kseq (upd_buf b (\<lambda>x. x\<lparr>b_dirty := True\<rparr>)) (iderw b))"

definition brelse_move :: "nat \<Rightarrow> ('a bmach_scheme, unit) K" where
  "brelse_move b =
     kbind (getbuf b) (\<lambda>x.
     kseq (upd_buf (b_next x) (\<lambda>y. y\<lparr>b_prev := b_prev x\<rparr>)) (
     kseq (upd_buf (b_prev x) (\<lambda>y. y\<lparr>b_next := b_next x\<rparr>)) (
     kbind (getbuf NBUF) (\<lambda>h.
     kseq (upd_buf b (\<lambda>y. y\<lparr>b_next := b_next h\<rparr>)) (
     kseq (upd_buf b (\<lambda>y. y\<lparr>b_prev := NBUF\<rparr>)) (
     kseq (kbind (getbuf NBUF) (\<lambda>h. upd_buf (b_next h) (\<lambda>y. y\<lparr>b_prev := b\<rparr>)))
          (upd_buf NBUF (\<lambda>y. y\<lparr>b_next := b\<rparr>))))))))"

definition brelse :: "nat \<Rightarrow> ('a bmach_scheme, unit) K" where
  "brelse b =
     kbind (holdingsleep (BufSL b)) (\<lambda>h.
     if \<not> h then panic ''brelse''
     else
       kseq (releasesleep (BufSL b)) (
       kseq (acquire BcacheLock) (
       kseq (upd_buf b (\<lambda>x. x\<lparr>b_refcnt := b_refcnt x - 1\<rparr>)) (
       kbind (getbuf b) (\<lambda>x.
       kseq (kwhen (b_refcnt x = 0) (brelse_move b)) (release BcacheLock))))))"

text \<open>Words in the data of a buffer.\<close>

definition get32 :: "uchar list \<Rightarrow> nat \<Rightarrow> uint" where
  "get32 d off = le_word (take 4 (drop off d))"

definition splice :: "uchar list \<Rightarrow> nat \<Rightarrow> uchar list \<Rightarrow> uchar list" where
  "splice d off bs = take off d @ bs @ drop (off + length bs) d"

definition put32 :: "uchar list \<Rightarrow> nat \<Rightarrow> uint \<Rightarrow> uchar list" where
  "put32 d off v = splice d off (le_bytes v)"

section \<open>Frame\<close>

lemma bio_frame [simp]:
  "cpuno (s\<lparr>st_bufs := x\<rparr>) = cpuno s" "cur (s\<lparr>st_bufs := x\<rparr>) = cur s"
  "cpu_ok (s\<lparr>st_bufs := x\<rparr>) = cpu_ok s" "lock_free (s\<lparr>st_bufs := x\<rparr>) l = lock_free s l"
  "holds (s\<lparr>st_bufs := x\<rparr>) c l = holds s c l" "IF_on (s\<lparr>st_bufs := x\<rparr>) = IF_on s"
  "cpuno (s\<lparr>st_disk := y\<rparr>) = cpuno s" "cur (s\<lparr>st_disk := y\<rparr>) = cur s"
  "cpu_ok (s\<lparr>st_disk := y\<rparr>) = cpu_ok s" "lock_free (s\<lparr>st_disk := y\<rparr>) l = lock_free s l"
  "holds (s\<lparr>st_disk := y\<rparr>) c l = holds s c l" "IF_on (s\<lparr>st_disk := y\<rparr>) = IF_on s"
  "cpuno (s\<lparr>st_disksize := z\<rparr>) = cpuno s" "cur (s\<lparr>st_disksize := z\<rparr>) = cur s"
  "cpu_ok (s\<lparr>st_disksize := z\<rparr>) = cpu_ok s" "lock_free (s\<lparr>st_disksize := z\<rparr>) l = lock_free s l"
  "holds (s\<lparr>st_disksize := z\<rparr>) c l = holds s c l" "IF_on (s\<lparr>st_disksize := z\<rparr>) = IF_on s"
  "cpuno (s\<lparr>st_dwrites := u\<rparr>) = cpuno s" "cur (s\<lparr>st_dwrites := u\<rparr>) = cur s"
  "cpu_ok (s\<lparr>st_dwrites := u\<rparr>) = cpu_ok s" "lock_free (s\<lparr>st_dwrites := u\<rparr>) l = lock_free s l"
  "holds (s\<lparr>st_dwrites := u\<rparr>) c l = holds s c l" "IF_on (s\<lparr>st_dwrites := u\<rparr>) = IF_on s"
  by (simp_all add: cpuno_def cur_def cpu_ok_def lock_free_def holds_def IF_on_def)

lemma acquired_bio [kframe]:
  "(acquired l s)\<lparr>st_bufs := x\<rparr> = acquired l (s\<lparr>st_bufs := x\<rparr>)"
  "(acquired l s)\<lparr>st_disk := y\<rparr> = acquired l (s\<lparr>st_disk := y\<rparr>)"
  "(acquired l s)\<lparr>st_disksize := z\<rparr> = acquired l (s\<lparr>st_disksize := z\<rparr>)"
  "(acquired l s)\<lparr>st_dwrites := u\<rparr> = acquired l (s\<lparr>st_dwrites := u\<rparr>)"
  by (simp_all add: acquired_def pushed_def IF_on_def)

lemma acquired_bio_sel [simp]:
  "st_bufs (acquired l s) = st_bufs s"
  "st_disk (acquired l s) = st_disk s"
  "st_disksize (acquired l s) = st_disksize s"
  "st_dwrites (acquired l s) = st_dwrites s"
  by (simp_all add: acquired_def pushed_def)

section \<open>The ring\<close>

text \<open>
  A segment of a linked list, given by its link function, as a list of nodes; and a ring through a
  head node \<open>N\<close> that is linked in both directions.
\<close>

primrec lseg :: "(nat \<Rightarrow> nat) \<Rightarrow> nat \<Rightarrow> nat list \<Rightarrow> nat \<Rightarrow> bool" where
  "lseg nxt a [] c \<longleftrightarrow> a = c"
| "lseg nxt a (x # xs) c \<longleftrightarrow> a = x \<and> lseg nxt (nxt x) xs c"

definition ring :: "nat \<Rightarrow> nat list \<Rightarrow> (nat \<Rightarrow> nat) \<Rightarrow> (nat \<Rightarrow> nat) \<Rightarrow> bool" where
  "ring N xs nxt prv \<longleftrightarrow> distinct (N # xs) \<and> lseg nxt (nxt N) xs N
     \<and> (\<forall>x\<in>insert N (set xs). prv (nxt x) = x)"

lemma lseg_append: "lseg nxt a (xs @ ys) c \<longleftrightarrow> (\<exists>m. lseg nxt a xs m \<and> lseg nxt m ys c)"
  by (induction xs arbitrary: a) auto

lemma lseg_upd [simp]: "u \<notin> set xs \<Longrightarrow> lseg (nxt(u := v)) a xs c = lseg nxt a xs c"
  by (induction xs arbitrary: a) auto

lemma lseg_rev:
  "lseg nxt (nxt a) xs c \<Longrightarrow> \<forall>x\<in>insert a (set xs). prv (nxt x) = x \<Longrightarrow> lseg prv (prv c) (rev xs) a"
proof (induction xs arbitrary: a)
  case (Cons x xs)
  then have "lseg prv (prv c) (rev xs) x" by simp
  moreover have "prv x = a" using Cons.prems by auto
  ultimately show ?case by (simp add: lseg_append)
qed auto

lemma lseg_last: "lseg nxt (nxt a) (ys @ b # zs) c \<Longrightarrow> nxt (last (a # ys)) = b \<and> lseg nxt (nxt b) zs c"
  by (induction ys arbitrary: a) auto

lemma lseg_closed: "lseg nxt (nxt a) xs c \<Longrightarrow> x \<in> insert a (set xs) \<Longrightarrow> nxt x \<in> insert c (set xs)"
proof (induction xs arbitrary: a)
  case (Cons y ys)
  then show ?case by (cases "x = a") auto
qed simp

text \<open>Taking a node out of the ring, and putting it back in behind the head.\<close>

lemma lseg_unlink:
  assumes "lseg nxt (nxt a) (ys @ b # zs) c" "distinct (a # ys @ zs)"
  shows "lseg (nxt(last (a # ys) := nxt b)) ((nxt(last (a # ys) := nxt b)) a) (ys @ zs) c"
  using assms
proof (induction ys arbitrary: a)
  case (Cons y ys)
  define n' where "n' = nxt(last (y # ys) := nxt b)"
  have ih: "lseg n' (n' y) (ys @ zs) c" unfolding n'_def using Cons.prems by (intro Cons.IH) auto
  have "a \<noteq> last (y # ys)" using Cons.prems(2) last_in_set [of "y # ys"] by auto
  then have "n' a = y" using Cons.prems(1) by (simp add: n'_def)
  moreover have "last (a # y # ys) = last (y # ys)" by simp
  ultimately show ?case using ih unfolding n'_def by (simp only: append_Cons lseg.simps simp_thms)
qed auto

lemma ring_move:
  assumes r: "ring N (ys @ b # zs) nxt prv"
  defines "n1 \<equiv> nxt(prv b := nxt b)" and "p1 \<equiv> prv(nxt b := prv b)"
  defines "n2 \<equiv> n1(b := n1 N)" and "p2 \<equiv> p1(b := N)"
  shows "ring N (b # ys @ zs) (n2(N := b)) (p2(n2 N := b))"
proof -
  let ?S = "insert N (set (ys @ b # zs))" and ?p = "last (N # ys)" and ?f = "n1 N"
  have d: "distinct (N # ys @ b # zs)" and l: "lseg nxt (nxt N) (ys @ b # zs) N"
    and inv: "\<And>x. x \<in> ?S \<Longrightarrow> prv (nxt x) = x" using r by (auto simp: ring_def)
  have p: "nxt ?p = b" "lseg nxt (nxt b) zs N" using lseg_last [OF l] by auto
  have pin: "?p \<in> insert N (set ys)" by auto
  then have pS: "?p \<in> ?S" "?p \<noteq> b" using d by auto
  then have pb: "prv b = ?p" using inv [OF pS(1)] p(1) by simp
  have inj: "x = y" if "x \<in> ?S" "y \<in> ?S" "nxt x = nxt y" for x y using inv that by metis
  have bN: "b \<noteq> N" "b \<notin> set (ys @ zs)" "N \<notin> set (ys @ zs)" using d by auto
  have unl: "lseg n1 ?f (ys @ zs) N" unfolding n1_def pb using lseg_unlink [OF l] d by auto
  have fin: "?f \<in> insert N (set (ys @ zs))" using unl by (cases "ys @ zs") auto
  then have fb: "?f \<noteq> b" using bN by auto
  have n3: "(n2(N := b)) N = b" "(n2(N := b)) b = ?f" using bN by (auto simp: n2_def)
  have seg: "lseg (n2(N := b)) ((n2(N := b)) N) (b # ys @ zs) N"
    using unl bN n3 unfolding n2_def by simp
  have "(p2(n2 N := b)) ((n2(N := b)) x) = x" if x: "x \<in> insert N (set (b # ys @ zs))" for x
  proof -
    have n2N: "n2 N = ?f" using bN by (simp add: n2_def)
    consider "x = N" | "x = b" | "x = ?p" "x \<noteq> N" "x \<noteq> b" | "x \<noteq> N" "x \<noteq> b" "x \<noteq> ?p" by blast
    then show ?thesis
    proof cases
      case 1
      then show ?thesis using n3 fb n2N by (simp add: p2_def)
    next
      case 2
      then show ?thesis using n3 n2N bN by simp
    next
      case 3
      have q: "nxt b \<noteq> b" using p(1) pS inj [of b ?p] by auto
      have "?f \<noteq> nxt b" using inj [of N b] bN 3 pb unfolding n1_def by (auto split: if_splits)
      then show ?thesis using 3 q pb n2N by (simp add: n2_def n1_def p2_def p1_def)
    next
      case 4
      have xS: "x \<in> ?S" using x by auto
      have "nxt x \<noteq> b" "nxt x \<noteq> nxt b" "nxt x \<noteq> nxt N"
        using inj [OF xS pS(1)] inj [OF xS, of b] inj [OF xS, of N] p(1) 4 by auto
      then have "nxt x \<noteq> ?f" unfolding n1_def by auto
      then show ?thesis
        using 4 inv [OF xS] n2N pb \<open>nxt x \<noteq> b\<close> \<open>nxt x \<noteq> nxt b\<close> by (simp add: n2_def n1_def p2_def p1_def)
    qed
  qed
  then show ?thesis using seg d unfolding ring_def by auto
qed

section \<open>The searches\<close>

definition ring_bufs :: "(nat \<Rightarrow> buf) \<Rightarrow> nat list \<Rightarrow> bool" where
  "ring_bufs bs xs \<longleftrightarrow> ring NBUF xs (\<lambda>i. b_next (bs i)) (\<lambda>i. b_prev (bs i)) \<and> set xs = {..<NBUF}"

lemma find_next_lseg:
  "lseg (\<lambda>i. b_next (bs i)) a xs NBUF \<Longrightarrow> NBUF \<notin> set xs \<Longrightarrow> length xs < n \<Longrightarrow>
     find_next n bs P a = Some (find (\<lambda>i. P (bs i)) xs)"
proof (induction xs arbitrary: a n)
  case Nil
  then show ?case by (cases n) auto
next
  case (Cons x xs)
  then show ?case by (cases n) auto
qed

lemma find_prev_lseg:
  "lseg (\<lambda>i. b_prev (bs i)) a xs NBUF \<Longrightarrow> NBUF \<notin> set xs \<Longrightarrow> length xs < n \<Longrightarrow>
     find_prev n bs P a = Some (find (\<lambda>i. P (bs i)) xs)"
proof (induction xs arbitrary: a n)
  case Nil
  then show ?case by (cases n) auto
next
  case (Cons x xs)
  then show ?case by (cases n) auto
qed

lemma ring_bufs_length: "ring_bufs bs xs \<Longrightarrow> length xs = NBUF"
  using distinct_card [of xs] by (simp add: ring_bufs_def ring_def)

lemma find_ring:
  assumes "ring_bufs bs xs"
  shows "find_next (Suc NBUF) bs P (b_next (bs NBUF)) = Some (find (\<lambda>i. P (bs i)) xs)"
    "find_prev (Suc NBUF) bs P (b_prev (bs NBUF)) = Some (find (\<lambda>i. P (bs i)) (rev xs))"
proof -
  have l: "lseg (\<lambda>i. b_next (bs i)) (b_next (bs NBUF)) xs NBUF" "NBUF \<notin> set xs" "length xs < Suc NBUF"
    using assms ring_bufs_length [OF assms] by (simp_all add: ring_bufs_def ring_def)
  show "find_next (Suc NBUF) bs P (b_next (bs NBUF)) = Some (find (\<lambda>i. P (bs i)) xs)"
    by (rule find_next_lseg [OF l])
  have "lseg (\<lambda>i. b_prev (bs i)) (b_prev (bs NBUF)) (rev xs) NBUF"
    using assms by (intro lseg_rev [where nxt = "\<lambda>i. b_next (bs i)"]) (simp_all add: ring_bufs_def ring_def)
  then show "find_prev (Suc NBUF) bs P (b_prev (bs NBUF)) = Some (find (\<lambda>i. P (bs i)) (rev xs))"
    using l by (intro find_prev_lseg) auto
qed

lemma ring_bufs_upd:
  assumes "ring_bufs bs xs" "b_next x = b_next (bs i)" "b_prev x = b_prev (bs i)"
  shows "ring_bufs (bs(i := x)) xs"
proof -
  have "(\<lambda>j. b_next ((bs(i := x)) j)) = (\<lambda>j. b_next (bs j))"
    "(\<lambda>j. b_prev ((bs(i := x)) j)) = (\<lambda>j. b_prev (bs j))"
    using assms(2,3) by (simp_all add: fun_eq_iff)
  then show ?thesis using assms(1) by (simp only: ring_bufs_def)
qed

section \<open>The cache as a map from blocks to contents\<close>

definition cached :: "'a bmach_scheme \<Rightarrow> nat \<Rightarrow> nat \<Rightarrow> bool" where
  "cached s n i \<longleftrightarrow> i < NBUF \<and> b_dev (st_bufs s i) = 1 \<and> b_blockno (st_bufs s i) = n"

definition content :: "'a bmach_scheme \<Rightarrow> nat \<Rightarrow> uchar list" where
  "content s n = (case find (\<lambda>i. cached s n i \<and> b_valid (st_bufs s i)) [0..<NBUF] of
     Some i \<Rightarrow> b_data (st_bufs s i) | None \<Rightarrow> st_disk s n)"

definition dirty_block :: "'a bmach_scheme \<Rightarrow> nat \<Rightarrow> bool" where
  "dirty_block s n \<longleftrightarrow> (\<exists>i. cached s n i \<and> b_dirty (st_bufs s i))"

text \<open>
  The invariant, for a kernel thread that holds the buffers \<open>H\<close>: a held buffer is locked by this
  thread, counted once and valid; the others are free; a buffer that is clean and not held agrees
  with the disk; no two buffers hold the same block; and the ring goes through all buffers.
\<close>

definition buf_inv :: "nat set \<Rightarrow> 'a bmach_scheme \<Rightarrow> nat \<Rightarrow> bool" where
  "buf_inv H s i \<longleftrightarrow> (let b = st_bufs s i; l = st_slocks s (BufSL i) in
     (if i \<in> H then sl_locked l \<and> sl_pid l = my_pid s \<and> b_refcnt b = 1 \<and> b_valid b \<and> b_dev b = 1
      else \<not> sl_locked l \<and> b_refcnt b = 0)
     \<and> (b_dirty b \<longrightarrow> b_valid b \<and> b_dev b = 1)
     \<and> (i \<notin> H \<and> b_valid b \<and> \<not> b_dirty b \<and> b_dev b = 1 \<longrightarrow> b_data b = st_disk s (b_blockno b)))"

definition cache_inv :: "nat set \<Rightarrow> 'a bmach_scheme \<Rightarrow> bool" where
  "cache_inv H s \<longleftrightarrow> cpu_ok s \<and> lock_free s BcacheLock \<and> lock_free s PtableLock
     \<and> (\<forall>i<NBUF. lock_free s (BufLock i)) \<and> (\<exists>xs. ring_bufs (st_bufs s) xs) \<and> H \<subseteq> {..<NBUF}
     \<and> (\<forall>i<NBUF. buf_inv H s i) \<and> (\<forall>n i j. cached s n i \<longrightarrow> cached s n j \<longrightarrow> i = j)"

lemma cache_invD:
  assumes "cache_inv H s"
  shows "cpu_ok s" "lock_free s BcacheLock" "lock_free s PtableLock" "i < NBUF \<Longrightarrow> lock_free s (BufLock i)"
    "\<exists>xs. ring_bufs (st_bufs s) xs" "H \<subseteq> {..<NBUF}" "i < NBUF \<Longrightarrow> buf_inv H s i"
    "cached s n i \<Longrightarrow> cached s n j \<Longrightarrow> i = j"
  using assms unfolding cache_inv_def by blast+

lemma content_cached:
  assumes "\<And>i j. cached s n i \<Longrightarrow> cached s n j \<Longrightarrow> i = j" "cached s n i"
  shows "content s n = (if b_valid (st_bufs s i) then b_data (st_bufs s i) else st_disk s n)"
proof (cases "b_valid (st_bufs s i)")
  case True
  then have "find (\<lambda>i. cached s n i \<and> b_valid (st_bufs s i)) [0..<NBUF] \<noteq> None"
    using assms(2) by (auto simp: find_None_iff cached_def)
  then obtain j where j: "find (\<lambda>i. cached s n i \<and> b_valid (st_bufs s i)) [0..<NBUF] = Some j" by auto
  then have "cached s n j" by (auto simp: find_Some_iff)
  then have "j = i" using assms by blast
  then show ?thesis using j True by (simp add: content_def)
next
  case False
  then have "find (\<lambda>i. cached s n i \<and> b_valid (st_bufs s i)) [0..<NBUF] = None"
    using assms by (auto simp: find_None_iff)
  then show ?thesis using False by (simp add: content_def)
qed

lemma content_uncached: "\<forall>i. \<not> cached s n i \<Longrightarrow> content s n = st_disk s n"
  by (simp add: content_def find_None_iff [THEN iffD2])

section \<open>Reading a block\<close>

declare find_next.simps [simp del] find_prev.simps [simp del] One_nat_def [simp del]

definition taken :: "nat \<Rightarrow> nat \<Rightarrow> 'a bmach_scheme \<Rightarrow> 'a bmach_scheme" where
  "taken b n s = s\<lparr>st_bufs := (st_bufs s)(b := (st_bufs s b)\<lparr>b_valid := True, b_dirty := dirty_block s n,
       b_dev := 1, b_blockno := n, b_refcnt := 1, b_data := content s n\<rparr>),
     st_slocks := (st_slocks s)(BufSL b := (st_slocks s (BufSL b))\<lparr>sl_locked := True, sl_pid := my_pid s\<rparr>)\<rparr>"

definition takes :: "nat set \<Rightarrow> nat \<Rightarrow> nat \<Rightarrow> 'a bmach_scheme \<Rightarrow> bool" where
  "takes H b n s \<longleftrightarrow> b < NBUF \<and> b \<notin> H
     \<and> (cached s n b \<or> (\<forall>i. \<not> cached s n i) \<and> \<not> b_dirty (st_bufs s b))"

lemma iderw_read_run:
  assumes "cpu_ok s" "lock_free s (BufLock b)" "sl_locked (st_slocks s (BufSL b))"
    "sl_pid (st_slocks s (BufSL b)) = my_pid s" "\<not> b_valid (st_bufs s b)" "\<not> b_dirty (st_bufs s b)"
    "b_dev (st_bufs s b) = 1" "b_blockno (st_bufs s b) < st_disksize s"
  shows "iderw b s = Ret () (s\<lparr>st_bufs := (st_bufs s)(b := (st_bufs s b)
     \<lparr>b_data := st_disk s (b_blockno (st_bufs s b)), b_valid := True\<rparr>)\<rparr>)"
  using assms
  by (simp add: iderw_def getbuf_def upd_buf_def kbind_run kseq_run holdingsleep_run)

lemma find_some_ring:
  assumes "ring_bufs bs xs" "i < NBUF" "P (bs i)"
  shows "\<exists>j. find (\<lambda>i. P (bs i)) xs = Some j \<and> j < NBUF \<and> P (bs j)"
    "\<exists>j. find (\<lambda>i. P (bs i)) (rev xs) = Some j \<and> j < NBUF \<and> P (bs j)"
proof -
  have s: "set xs = {..<NBUF}" using assms(1) by (simp add: ring_bufs_def)
  have f: "\<exists>j. find (\<lambda>i. P (bs i)) ys = Some j \<and> j < NBUF \<and> P (bs j)" if "set ys = {..<NBUF}" for ys
  proof (cases "find (\<lambda>i. P (bs i)) ys")
    case None
    then show ?thesis using assms(2,3) that by (simp add: find_None_iff)
  next
    case (Some j)
    then obtain k where "k < length ys" "P (bs (ys ! k))" "j = ys ! k" by (auto simp: find_Some_iff)
    then show ?thesis using Some nth_mem [of k ys] that by simp
  qed
  show "\<exists>j. find (\<lambda>i. P (bs i)) xs = Some j \<and> j < NBUF \<and> P (bs j)" using f [of xs] s by simp
  show "\<exists>j. find (\<lambda>i. P (bs i)) (rev xs) = Some j \<and> j < NBUF \<and> P (bs j)" using f [of "rev xs"] s by simp
qed

lemma my_pid_bufs [simp]: "my_pid (s\<lparr>st_bufs := x\<rparr>) = my_pid s" "my_pid (s\<lparr>st_disk := y\<rparr>) = my_pid s"
  "my_pid (s\<lparr>st_dwrites := z\<rparr>) = my_pid s"
  by (simp_all add: my_pid_def procp_def split: option.splits)

lemma bread_cached:
  assumes inv: "cache_inv H s" and c: "cached s n b" and H: "b \<notin> H" and n: "n < st_disksize s"
  shows "bread 1 n s = Ret b (taken b n s)"
proof -
  obtain xs where r: "ring_bufs (st_bufs s) xs" using cache_invD(5) [OF inv] by blast
  have u: "\<And>i. cached s n i \<Longrightarrow> i = b" using cache_invD(8) [OF inv] c by blast
  have b: "b < NBUF" "b_dev (st_bufs s b) = 1" "b_blockno (st_bufs s b) = n" using c by (auto simp: cached_def)
  obtain j where j: "find (\<lambda>i. b_dev (st_bufs s i) = 1 \<and> b_blockno (st_bufs s i) = n) xs = Some j"
      "j < NBUF" "b_dev (st_bufs s j) = 1 \<and> b_blockno (st_bufs s j) = n"
    using find_some_ring(1) [OF r b(1), of "\<lambda>x. b_dev x = 1 \<and> b_blockno x = n"] b by auto
  have "j = b" using u j by (simp add: cached_def)
  then have f: "find_next (Suc NBUF) (st_bufs s) (\<lambda>x. b_dev x = 1 \<and> b_blockno x = n) (b_next (st_bufs s NBUF))
      = Some (Some b)"
    using j find_ring(1) [OF r] by simp
  have bi: "buf_inv H s b" using cache_invD(7) [OF inv b(1)] .
  have ct: "content s n = (if b_valid (st_bufs s b) then b_data (st_bufs s b) else st_disk s n)"
    by (rule content_cached [OF cache_invD(8) [OF inv] c])
  have d: "dirty_block s n = b_dirty (st_bufs s b)" unfolding dirty_block_def using u c by blast
  have ref: "b_refcnt (st_bufs s b) = 0" "\<not> sl_locked (st_slocks s (BufSL b))"
    "b_dirty (st_bufs s b) \<Longrightarrow> b_valid (st_bufs s b)"
    using bi H by (auto simp: buf_inv_def Let_def)
  let ?t = "s\<lparr>st_bufs := (st_bufs s)(b := (st_bufs s b)\<lparr>b_refcnt := 1\<rparr>),
     st_slocks := (st_slocks s)(BufSL b := (st_slocks s (BufSL b))\<lparr>sl_locked := True, sl_pid := my_pid s\<rparr>)\<rparr>"
  have g: "bget 1 n s = Ret b ?t"
    using cache_invD(1,2,4) [OF inv] b f ref
    by (simp add: bget_def upd_buf_def kseq_run kbind_run acquire_ok release_acquired acquiresleep_run kframe)
  show ?thesis
  proof (cases "b_valid (st_bufs s b)")
    case True
    have e: "(st_bufs s b)\<lparr>b_valid := True, b_dirty := dirty_block s n, b_dev := 1, b_blockno := n, b_refcnt := 1,
        b_data := content s n\<rparr> = (st_bufs s b)\<lparr>b_refcnt := 1\<rparr>"
      using b d ct True by (intro buf.equality) simp_all
    show ?thesis unfolding taken_def e using g True by (simp add: kwhen_def bread_def kbind_run kseq_run getbuf_def)
  next
    case False
    have "iderw b ?t = Ret () (?t\<lparr>st_bufs := (st_bufs ?t)(b := (st_bufs ?t b)
        \<lparr>b_data := st_disk ?t (b_blockno (st_bufs ?t b)), b_valid := True\<rparr>)\<rparr>)"
      using cache_invD(1,4) [OF inv] False b n ref by (intro iderw_read_run) auto
    moreover have e: "(st_bufs s b)\<lparr>b_valid := True, b_dirty := dirty_block s n, b_dev := 1, b_blockno := n,
        b_refcnt := 1, b_data := content s n\<rparr>
        = (st_bufs s b)\<lparr>b_refcnt := 1, b_data := st_disk s n, b_valid := True\<rparr>"
      using b d ct False ref by (intro buf.equality) simp_all
    ultimately show ?thesis unfolding taken_def e using g False b
      by (simp add: kwhen_def bread_def kbind_run kseq_run getbuf_def)
  qed
qed

lemma bread_evict:
  assumes inv: "cache_inv H s" and c: "\<forall>i. \<not> cached s n i" and n: "n < st_disksize s"
    and free: "i < NBUF" "i \<notin> H" "\<not> b_dirty (st_bufs s i)"
  shows "\<exists>b. takes H b n s \<and> bread 1 n s = Ret b (taken b n s)"
proof -
  obtain xs where r: "ring_bufs (st_bufs s) xs" using cache_invD(5) [OF inv] by blast
  have nf: "find_next (Suc NBUF) (st_bufs s) (\<lambda>x. b_dev x = 1 \<and> b_blockno x = n) (b_next (st_bufs s NBUF))
      = Some None"
    using c r find_ring(1) [OF r] by (auto simp: find_None_iff cached_def ring_bufs_def)
  have ri: "b_refcnt (st_bufs s i) = 0"
    using cache_invD(7) [OF inv free(1)] free(2) by (simp add: buf_inv_def Let_def)
  obtain b where f: "find (\<lambda>i. b_refcnt (st_bufs s i) = 0 \<and> \<not> b_dirty (st_bufs s i)) (rev xs) = Some b"
      and b: "b < NBUF" "b_refcnt (st_bufs s b) = 0" "\<not> b_dirty (st_bufs s b)"
    using find_some_ring(2) [OF r free(1), of "\<lambda>x. b_refcnt x = 0 \<and> \<not> b_dirty x"] free(3) ri by auto
  have bH: "b \<notin> H" "\<not> sl_locked (st_slocks s (BufSL b))"
    using cache_invD(7) [OF inv b(1)] b by (auto simp: buf_inv_def Let_def split: if_splits)
  have fp: "find_prev (Suc NBUF) (st_bufs s) (\<lambda>x. b_refcnt x = 0 \<and> \<not> b_dirty x) (b_prev (st_bufs s NBUF))
      = Some (Some b)"
    using f find_ring(2) [OF r] by simp
  have ct: "content s n = st_disk s n" "\<not> dirty_block s n" using c by (simp_all add: content_uncached dirty_block_def)
  let ?x = "(st_bufs s b)\<lparr>b_dev := 1, b_blockno := n, b_valid := False, b_dirty := False, b_refcnt := 1\<rparr>"
  let ?t = "s\<lparr>st_bufs := (st_bufs s)(b := ?x),
     st_slocks := (st_slocks s)(BufSL b := (st_slocks s (BufSL b))\<lparr>sl_locked := True, sl_pid := my_pid s\<rparr>)\<rparr>"
  have g: "bget 1 n s = Ret b ?t"
    using cache_invD(1,2,4) [OF inv] b nf fp bH
    by (simp add: bget_def upd_buf_def kseq_run kbind_run acquire_ok release_acquired acquiresleep_run kframe)
  have w: "iderw b ?t = Ret () (?t\<lparr>st_bufs := (st_bufs ?t)(b := (st_bufs ?t b)
      \<lparr>b_data := st_disk ?t (b_blockno (st_bufs ?t b)), b_valid := True\<rparr>)\<rparr>)"
    using cache_invD(1,4) [OF inv] b n by (intro iderw_read_run) auto
  have e: "(st_bufs s b)\<lparr>b_valid := True, b_dirty := dirty_block s n, b_dev := 1, b_blockno := n,
      b_refcnt := 1, b_data := content s n\<rparr> = ?x\<lparr>b_data := st_disk s n, b_valid := True\<rparr>"
    using ct by (intro buf.equality) simp_all
  have "bread 1 n s = Ret b (taken b n s)"
    unfolding taken_def e using g w by (simp add: kwhen_def bread_def kbind_run kseq_run getbuf_def)
  then show ?thesis using b bH c by (auto simp: takes_def)
qed

lemma bread_run:
  assumes inv: "cache_inv H s" and n: "n < st_disksize s"
    and H: "\<And>i. i \<in> H \<Longrightarrow> b_blockno (st_bufs s i) \<noteq> n"
    and free: "\<exists>i<NBUF. i \<notin> H \<and> \<not> b_dirty (st_bufs s i)"
  obtains b where "takes H b n s" "bread 1 n s = Ret b (taken b n s)"
proof (cases "\<exists>b. cached s n b")
  case True
  then obtain b where b: "cached s n b" by blast
  then have "b \<notin> H" using H by (auto simp: cached_def)
  then show ?thesis using that [of b] bread_cached [OF inv b _ n] b by (auto simp: takes_def cached_def)
next
  case False
  then show ?thesis using bread_evict [OF inv _ n] free that by blast
qed

text \<open>What reading a block keeps.\<close>

lemma cached_taken:
  assumes "takes H b n s"
  shows "cached (taken b n s) m i \<longleftrightarrow> (if i = b then m = n else cached s m i)"
  using assms by (auto simp: cached_def taken_def takes_def)

lemma taken_unique:
  assumes "cache_inv H s" "takes H b n s" "cached (taken b n s) m i" "cached (taken b n s) m j"
  shows "i = j"
  using cache_invD(8) [OF assms(1)] assms(2-4)
  by (auto simp: cached_taken [OF assms(2)] takes_def split: if_splits)

lemma taken_inv:
  assumes inv: "cache_inv H s" and t: "takes H b n s"
  shows "cache_inv (insert b H) (taken b n s)"
proof -
  have b: "b < NBUF" "b \<notin> H" using t by (auto simp: takes_def)
  have "buf_inv (insert b H) (taken b n s) i" if "i < NBUF" for i
    using cache_invD(7) [OF inv that] b by (auto simp: buf_inv_def Let_def taken_def)
  moreover have "\<exists>xs. ring_bufs (st_bufs (taken b n s)) xs"
    using cache_invD(5) [OF inv] by (auto simp: taken_def intro!: ring_bufs_upd)
  ultimately show ?thesis
    using inv taken_unique [OF inv t] b unfolding cache_inv_def by (simp add: taken_def)
qed

lemma taken_dirty: "cache_inv H s \<Longrightarrow> takes H b n s \<Longrightarrow> dirty_block (taken b n s) m = dirty_block s m"
  unfolding dirty_block_def cached_taken
  by (auto simp: taken_def takes_def dirty_block_def cached_def)

lemma content_eqI:
  assumes "\<And>i j. cached t m i \<Longrightarrow> cached t m j \<Longrightarrow> i = j"
    "\<And>i. cached t m i \<Longrightarrow> (if b_valid (st_bufs t i) then b_data (st_bufs t i) else st_disk t m) = x"
    "\<forall>i. \<not> cached t m i \<Longrightarrow> st_disk t m = x"
  shows "content t m = x"
proof (cases "\<exists>i. cached t m i")
  case True
  then obtain i where i: "cached t m i" by blast
  show ?thesis using content_cached [OF assms(1) i] assms(2) [OF i] by simp
next
  case False
  then show ?thesis using assms(3) by (simp add: content_uncached)
qed

lemma taken_content:
  assumes inv: "cache_inv H s" and t: "takes H b n s"
  shows "content (taken b n s) m = content s m"
proof (rule content_eqI)
  show "i = j" if "cached (taken b n s) m i" "cached (taken b n s) m j" for i j
    using taken_unique [OF inv t that] .
next
  fix i
  assume c: "cached (taken b n s) m i"
  show "(if b_valid (st_bufs (taken b n s) i) then b_data (st_bufs (taken b n s) i) else st_disk (taken b n s) m)
      = content s m"
  proof (cases "i = b")
    case True
    then show ?thesis using c by (simp add: cached_taken [OF t]) (simp add: taken_def)
  next
    case False
    then have i: "cached s m i" using c by (simp add: cached_taken [OF t])
    show ?thesis using content_cached [OF cache_invD(8) [OF inv] i] False by (simp add: taken_def)
  qed
next
  assume n: "\<forall>i. \<not> cached (taken b n s) m i"
  have "m \<noteq> n" using n [rule_format, of b] by (simp add: cached_taken [OF t])
  have o: "\<not> cached s m i" if "i \<noteq> b" for i using n [rule_format, of i] that by (simp add: cached_taken [OF t])
  show "st_disk (taken b n s) m = content s m"
  proof (cases "cached s m b")
    case True
    then have clean: "\<not> b_dirty (st_bufs s b)" using t \<open>m \<noteq> n\<close> by (auto simp: takes_def cached_def)
    have "b_valid (st_bufs s b) \<Longrightarrow> b_data (st_bufs s b) = st_disk s m"
      using cache_invD(7) [OF inv, of b] t True clean by (auto simp: takes_def buf_inv_def Let_def cached_def)
    then show ?thesis using content_cached [OF cache_invD(8) [OF inv] True] by (simp add: taken_def)
  next
    case False
    then have "\<forall>i. \<not> cached s m i" using o by metis
    then show ?thesis by (simp add: content_uncached) (simp add: taken_def)
  qed
qed

section \<open>Changing a held block\<close>

definition set_data :: "nat \<Rightarrow> uchar list \<Rightarrow> 'a bmach_scheme \<Rightarrow> 'a bmach_scheme" where
  "set_data b d s = s\<lparr>st_bufs := (st_bufs s)(b := (st_bufs s b)\<lparr>b_data := d\<rparr>)\<rparr>"

definition set_dirty :: "nat \<Rightarrow> 'a bmach_scheme \<Rightarrow> 'a bmach_scheme" where
  "set_dirty b s = s\<lparr>st_bufs := (st_bufs s)(b := (st_bufs s b)\<lparr>b_dirty := True\<rparr>)\<rparr>"

text \<open>The state after the buffer is written to the disk.\<close>

definition written :: "nat \<Rightarrow> nat \<Rightarrow> 'a bmach_scheme \<Rightarrow> 'a bmach_scheme" where
  "written b n s = s\<lparr>st_bufs := (st_bufs s)(b := (st_bufs s b)\<lparr>b_dirty := False, b_valid := True\<rparr>),
     st_disk := (st_disk s)(n := b_data (st_bufs s b)),
     st_dwrites := st_dwrites s @ [(n, b_data (st_bufs s b))]\<rparr>"

lemma cached_changed [simp]:
  "cached (set_data b d s) m i = cached s m i" "cached (set_dirty b s) m i = cached s m i"
  "cached (written b n s) m i = cached s m i"
  by (auto simp: cached_def set_data_def set_dirty_def written_def)

lemma heldD:
  assumes "cache_inv H s" "b \<in> H"
  shows "b < NBUF" "cpu_ok s" "lock_free s (BufLock b)" "sl_locked (st_slocks s (BufSL b))"
    "sl_pid (st_slocks s (BufSL b)) = my_pid s" "b_refcnt (st_bufs s b) = 1" "b_valid (st_bufs s b)"
    "b_dev (st_bufs s b) = 1" "cached s (b_blockno (st_bufs s b)) b"
proof -
  have b: "b < NBUF" using cache_invD(6) [OF assms(1)] assms(2) by auto
  have bi: "buf_inv H s b" using cache_invD(7) [OF assms(1) b] .
  show "b < NBUF" "cpu_ok s" "lock_free s (BufLock b)" "sl_locked (st_slocks s (BufSL b))"
    "sl_pid (st_slocks s (BufSL b)) = my_pid s" "b_refcnt (st_bufs s b) = 1" "b_valid (st_bufs s b)"
    "b_dev (st_bufs s b) = 1" "cached s (b_blockno (st_bufs s b)) b"
    using b bi assms cache_invD(1,4) [OF assms(1)] by (simp_all add: buf_inv_def Let_def cached_def)
qed

lemma bwrite_run:
  assumes inv: "cache_inv H s" and b: "b \<in> H" "b_blockno (st_bufs s b) < st_disksize s"
  shows "bwrite b s = Ret () (written b (b_blockno (st_bufs s b)) s)"
proof -
  note h = heldD [OF inv b(1)]
  have e: "(st_bufs s b)\<lparr>b_dirty := True, b_dirty := False, b_valid := True\<rparr>
      = (st_bufs s b)\<lparr>b_dirty := False, b_valid := True\<rparr>" by simp
  show ?thesis
    using h b(2)
    by (simp add: bwrite_def iderw_def getbuf_def upd_buf_def kbind_run kseq_run holdingsleep_run written_def)
qed

lemma changed_ring:
  "\<exists>xs. ring_bufs (st_bufs s) xs \<Longrightarrow> \<exists>xs. ring_bufs (st_bufs (set_data b d s)) xs"
  "\<exists>xs. ring_bufs (st_bufs s) xs \<Longrightarrow> \<exists>xs. ring_bufs (st_bufs (set_dirty b s)) xs"
  "\<exists>xs. ring_bufs (st_bufs s) xs \<Longrightarrow> \<exists>xs. ring_bufs (st_bufs (written b n s)) xs"
  by (auto simp: set_data_def set_dirty_def written_def intro!: ring_bufs_upd)

lemma changed_buf_inv:
  assumes "cache_inv H s" "b \<in> H" "i < NBUF" "n = b_blockno (st_bufs s b)"
  shows "buf_inv H (set_data b d s) i" "buf_inv H (set_dirty b s) i" "buf_inv H (written b n s) i"
proof -
  have bi: "buf_inv H s i" using cache_invD(7) [OF assms(1,3)] .
  note h = heldD [OF assms(1,2)]
  show "buf_inv H (set_data b d s) i" "buf_inv H (set_dirty b s) i"
    using bi h assms(2) by (auto simp: buf_inv_def Let_def set_data_def set_dirty_def)
  have "i \<noteq> b \<Longrightarrow> b_dev (st_bufs s i) = 1 \<Longrightarrow> b_blockno (st_bufs s i) \<noteq> n"
    using cache_invD(8) [OF assms(1), of n i b] h(9) assms(3,4) by (auto simp: cached_def)
  then show "buf_inv H (written b n s) i"
    using bi h assms(2) by (auto simp: buf_inv_def Let_def written_def)
qed

lemma changed_inv:
  assumes "cache_inv H s" "b \<in> H"
  shows "cache_inv H (set_data b d s)" "cache_inv H (set_dirty b s)"
    "cache_inv H (written b (b_blockno (st_bufs s b)) s)"
  using assms(1) changed_buf_inv [OF assms] changed_ring [OF cache_invD(5) [OF assms(1)]]
    cache_invD(8) [OF assms(1)]
  unfolding cache_inv_def cached_changed
  by (simp_all add: set_data_def set_dirty_def written_def)

lemma held_eq: "cache_inv H s \<Longrightarrow> b \<in> H \<Longrightarrow> cached s m i \<Longrightarrow> i = b \<longleftrightarrow> m = b_blockno (st_bufs s b)"
  using heldD(9) [of H s b] cache_invD(8) [of H s m i b] by (auto simp: cached_def)

lemma changed_dirty:
  assumes inv: "cache_inv H s" "b \<in> H"
  shows "dirty_block (set_data b d s) m = dirty_block s m"
    "dirty_block (set_dirty b s) m \<longleftrightarrow> dirty_block s m \<or> m = b_blockno (st_bufs s b)"
    "dirty_block (written b (b_blockno (st_bufs s b)) s) m \<longleftrightarrow> dirty_block s m \<and> m \<noteq> b_blockno (st_bufs s b)"
proof -
  have b: "cached s (b_blockno (st_bufs s b)) b" by (rule heldD(9) [OF inv])
  have d: "b_dirty (st_bufs (set_data b d s) i) = b_dirty (st_bufs s i)"
    "b_dirty (st_bufs (set_dirty b s) i) = (b_dirty (st_bufs s i) \<or> i = b)"
    "b_dirty (st_bufs (written b n s) i) = (b_dirty (st_bufs s i) \<and> i \<noteq> b)" for i n
    by (simp_all add: set_data_def set_dirty_def written_def)
  show "dirty_block (set_data b d s) m = dirty_block s m"
    "dirty_block (set_dirty b s) m \<longleftrightarrow> dirty_block s m \<or> m = b_blockno (st_bufs s b)"
    "dirty_block (written b (b_blockno (st_bufs s b)) s) m \<longleftrightarrow> dirty_block s m \<and> m \<noteq> b_blockno (st_bufs s b)"
    unfolding dirty_block_def cached_changed d using held_eq [OF inv] b by blast+
qed

lemma changed_content:
  assumes inv: "cache_inv H s" and b: "b \<in> H"
  shows "content (set_data b d s) m = (if m = b_blockno (st_bufs s b) then d else content s m)"
    "content (set_dirty b s) m = content s m"
    "content (written b (b_blockno (st_bufs s b)) s) m = content s m"
proof -
  let ?n = "b_blockno (st_bufs s b)"
  note h = heldD [OF inv b] and u = cache_invD(8) [OF inv]
  have eq: "i = b \<longleftrightarrow> m = ?n" if "cached s m i" for i
    by (rule held_eq [OF inv b that])
  have c: "content s m = (if b_valid (st_bufs s i) then b_data (st_bufs s i) else st_disk s m)"
    if "cached s m i" for i using content_cached [OF u that] .
  have nc: "m \<noteq> ?n" "content s m = st_disk s m" if "\<forall>i. \<not> cached s m i"
    using that h(9) content_uncached [OF that] by auto
  have st: "st_bufs (set_data b d s) = (st_bufs s)(b := (st_bufs s b)\<lparr>b_data := d\<rparr>)"
    "st_bufs (set_dirty b s) = (st_bufs s)(b := (st_bufs s b)\<lparr>b_dirty := True\<rparr>)"
    "st_bufs (written b ?n s) = (st_bufs s)(b := (st_bufs s b)\<lparr>b_dirty := False, b_valid := True\<rparr>)"
    "st_disk (set_data b d s) = st_disk s" "st_disk (set_dirty b s) = st_disk s"
    "st_disk (written b ?n s) = (st_disk s)(?n := b_data (st_bufs s b))"
    by (simp_all add: set_data_def set_dirty_def written_def)
  have cb: "content s ?n = b_data (st_bufs s b)" using content_cached [OF u h(9)] h(7) by simp
  have vals: "(if b_valid (st_bufs (set_data b d s) i) then b_data (st_bufs (set_data b d s) i)
        else st_disk (set_data b d s) m) = (if m = ?n then d else content s m)"
      "(if b_valid (st_bufs (set_dirty b s) i) then b_data (st_bufs (set_dirty b s) i)
        else st_disk (set_dirty b s) m) = content s m"
      "(if b_valid (st_bufs (written b ?n s) i) then b_data (st_bufs (written b ?n s) i)
        else st_disk (written b ?n s) m) = content s m" if "cached s m i" for i
    using eq [OF that] c [OF that] h(7) cb by (auto simp: st)
  show "content (set_data b d s) m = (if m = ?n then d else content s m)"
  proof (rule content_eqI, unfold cached_changed)
    show "i = j" if "cached s m i" "cached s m j" for i j by (rule u [OF that])
  qed (use vals(1) nc st in auto)
  show "content (set_dirty b s) m = content s m"
  proof (rule content_eqI, unfold cached_changed)
    show "i = j" if "cached s m i" "cached s m j" for i j by (rule u [OF that])
  qed (use vals(2) nc st in auto)
  show "content (written b ?n s) m = content s m"
  proof (rule content_eqI, unfold cached_changed)
    show "i = j" if "cached s m i" "cached s m j" for i j by (rule u [OF that])
  qed (use vals(3) nc st in auto)
qed

section \<open>Releasing a block\<close>

definition set_prev :: "nat \<Rightarrow> nat \<Rightarrow> (nat \<Rightarrow> buf) \<Rightarrow> (nat \<Rightarrow> buf)" where
  "set_prev i v B = B(i := (B i)\<lparr>b_prev := v\<rparr>)"

definition set_next :: "nat \<Rightarrow> nat \<Rightarrow> (nat \<Rightarrow> buf) \<Rightarrow> (nat \<Rightarrow> buf)" where
  "set_next i v B = B(i := (B i)\<lparr>b_next := v\<rparr>)"

lemma links [simp]:
  "b_next (set_prev i v B j) = b_next (B j)" "b_prev (set_next i v B j) = b_prev (B j)"
  "b_next (set_next i v B j) = ((\<lambda>j. b_next (B j))(i := v)) j"
  "b_prev (set_prev i v B j) = ((\<lambda>j. b_prev (B j))(i := v)) j"
  by (auto simp: set_prev_def set_next_def)

lemma links_keep [simp]:
  "b_valid (set_prev i v B j) = b_valid (B j)" "b_valid (set_next i v B j) = b_valid (B j)"
  "b_dirty (set_prev i v B j) = b_dirty (B j)" "b_dirty (set_next i v B j) = b_dirty (B j)"
  "b_dev (set_prev i v B j) = b_dev (B j)" "b_dev (set_next i v B j) = b_dev (B j)"
  "b_blockno (set_prev i v B j) = b_blockno (B j)" "b_blockno (set_next i v B j) = b_blockno (B j)"
  "b_refcnt (set_prev i v B j) = b_refcnt (B j)" "b_refcnt (set_next i v B j) = b_refcnt (B j)"
  "b_data (set_prev i v B j) = b_data (B j)" "b_data (set_next i v B j) = b_data (B j)"
  by (auto simp: set_prev_def set_next_def)

definition unlinked :: "nat \<Rightarrow> (nat \<Rightarrow> buf) \<Rightarrow> (nat \<Rightarrow> buf)" where
  "unlinked b B = set_next (b_prev (B b)) (b_next (B b)) (set_prev (b_next (B b)) (b_prev (B b)) B)"

definition pushed_front :: "nat \<Rightarrow> (nat \<Rightarrow> buf) \<Rightarrow> (nat \<Rightarrow> buf)" where
  "pushed_front b B = (let C = set_prev b NBUF (set_next b (b_next (B NBUF)) B) in
     set_next NBUF b (set_prev (b_next (C NBUF)) b C))"

lemma brelse_move_run:
  "brelse_move b s = Ret () (s\<lparr>st_bufs := pushed_front b (unlinked b (st_bufs s))\<rparr>)"
  by (simp add: brelse_move_def getbuf_def upd_buf_def kbind_run kseq_run pushed_front_def unlinked_def
      Let_def set_prev_def set_next_def)

lemma links_moved:
  "(\<lambda>j. b_next (pushed_front b (unlinked b B) j))
     = (let n1 = (\<lambda>j. b_next (B j))(b_prev (B b) := b_next (B b)) in (n1(b := n1 NBUF))(NBUF := b))"
  "(\<lambda>j. b_prev (pushed_front b (unlinked b B) j))
     = (let n1 = (\<lambda>j. b_next (B j))(b_prev (B b) := b_next (B b)) in
        ((\<lambda>j. b_prev (B j))(b_next (B b) := b_prev (B b), b := NBUF))((n1(b := n1 NBUF)) NBUF := b))"
  by (simp_all only: pushed_front_def unlinked_def Let_def links links_keep fun_upd_def if_True refl)

lemma moved_ring:
  assumes "ring_bufs B xs" "b < NBUF"
  shows "\<exists>ys. ring_bufs (pushed_front b (unlinked b B)) ys"
proof -
  obtain ys zs where xs: "xs = ys @ b # zs"
    using assms split_list [of b xs] by (auto simp: ring_bufs_def)
  have "ring NBUF (b # ys @ zs) (\<lambda>j. b_next (pushed_front b (unlinked b B) j))
      (\<lambda>j. b_prev (pushed_front b (unlinked b B) j))"
    unfolding links_moved Let_def
    using ring_move [of NBUF ys b zs "\<lambda>j. b_next (B j)" "\<lambda>j. b_prev (B j)"] assms(1) xs by (simp add: ring_bufs_def)
  then show ?thesis using assms(1) xs by (intro exI [of _ "b # ys @ zs"]) (auto simp: ring_bufs_def)
qed

lemma moved_keep [simp]:
  "b_valid (pushed_front b (unlinked b B) j) = b_valid (B j)"
  "b_dirty (pushed_front b (unlinked b B) j) = b_dirty (B j)"
  "b_dev (pushed_front b (unlinked b B) j) = b_dev (B j)"
  "b_blockno (pushed_front b (unlinked b B) j) = b_blockno (B j)"
  "b_refcnt (pushed_front b (unlinked b B) j) = b_refcnt (B j)"
  "b_data (pushed_front b (unlinked b B) j) = b_data (B j)"
  by (simp_all add: pushed_front_def unlinked_def Let_def)

definition given :: "nat \<Rightarrow> 'a bmach_scheme \<Rightarrow> 'a bmach_scheme" where
  "given b s = (woken (ChanBufLock b) (s\<lparr>st_slocks := (st_slocks s)(BufSL b := (st_slocks s (BufSL b))
       \<lparr>sl_locked := False, sl_pid := 0\<rparr>)\<rparr>))
     \<lparr>st_bufs := pushed_front b (unlinked b ((st_bufs s)(b := (st_bufs s b)\<lparr>b_refcnt := 0\<rparr>)))\<rparr>"

lemma woken_bio [simp]:
  "st_bufs (woken ch s) = st_bufs s" "st_disk (woken ch s) = st_disk s"
  "st_disksize (woken ch s) = st_disksize s" "st_dwrites (woken ch s) = st_dwrites s"
  by (simp_all add: woken_def)

lemma brelse_run:
  assumes inv: "cache_inv H s" and b: "b \<in> H"
  shows "brelse b s = Ret () (given b s)"
  using heldD [OF inv b] cache_invD(2,3) [OF inv]
  by (simp add: brelse_def getbuf_def upd_buf_def kbind_run kseq_run kwhen_run holdingsleep_run
      releasesleep_run acquire_ok brelse_move_run kframe release_acquired given_def)

lemma given_sel:
  "cached (given b s) n i = cached s n i"
  "st_disk (given b s) = st_disk s" "st_disksize (given b s) = st_disksize s"
  "st_dwrites (given b s) = st_dwrites s" "my_pid (given b s) = my_pid s"
  "b_valid (st_bufs (given b s) i) = b_valid (st_bufs s i)" "b_dirty (st_bufs (given b s) i) = b_dirty (st_bufs s i)"
  "b_dev (st_bufs (given b s) i) = b_dev (st_bufs s i)" "b_blockno (st_bufs (given b s) i) = b_blockno (st_bufs s i)"
  "b_data (st_bufs (given b s) i) = b_data (st_bufs s i)"
  "b_refcnt (st_bufs (given b s) i) = (if i = b then 0 else b_refcnt (st_bufs s i))"
  "sl_locked (st_slocks (given b s) (BufSL i)) = (i \<noteq> b \<and> sl_locked (st_slocks s (BufSL i)))"
  "i \<noteq> b \<Longrightarrow> sl_pid (st_slocks (given b s) (BufSL i)) = sl_pid (st_slocks s (BufSL i))"
  by (simp_all add: given_def cached_def)

lemma given_content: "content (given b s) n = content s n" "dirty_block (given b s) n = dirty_block s n"
  by (simp_all add: content_def dirty_block_def given_sel split: option.splits)

lemma given_inv:
  assumes inv: "cache_inv H s" and b: "b \<in> H"
    and d: "b_dirty (st_bufs s b) \<or> b_data (st_bufs s b) = st_disk s (b_blockno (st_bufs s b))"
  shows "cache_inv (H - {b}) (given b s)"
proof -
  note h = heldD [OF inv b]
  have "buf_inv (H - {b}) (given b s) i" if "i < NBUF" for i
    using cache_invD(7) [OF inv that] h d b by (auto simp: buf_inv_def Let_def given_sel)
  moreover have "\<exists>xs. ring_bufs (st_bufs (given b s)) xs"
    using cache_invD(5) [OF inv] h(1) by (auto simp: given_def intro!: moved_ring ring_bufs_upd)
  ultimately show ?thesis
    using inv unfolding cache_inv_def given_sel(1)
    by (intro conjI) (blast | simp add: given_def)+
qed

section \<open>What the rest of the kernel sees of the cache\<close>

definition bio_step :: "'a bmach_scheme \<Rightarrow> 'a bmach_scheme \<Rightarrow> bool" where
  "bio_step s t \<longleftrightarrow> t = s\<lparr>st_procs := st_procs t, st_slocks := st_slocks t, st_bufs := st_bufs t,
     st_disk := st_disk t, st_dwrites := st_dwrites t\<rparr>
     \<and> (\<forall>k. st_slocks t (InodeSL k) = st_slocks s (InodeSL k))"

lemma bio_step_eq:
  "bio_step s t \<Longrightarrow> t = s\<lparr>st_procs := st_procs t, st_slocks := st_slocks t, st_bufs := st_bufs t,
     st_disk := st_disk t, st_dwrites := st_dwrites t\<rparr>"
  by (simp only: bio_step_def)

lemma bio_step_inodes: "bio_step s t \<Longrightarrow> st_slocks t (InodeSL k) = st_slocks s (InodeSL k)"
  by (simp only: bio_step_def)

lemma bio_step_refl: "bio_step s s"
  by (simp add: bio_step_def)

lemma bio_step_trans:
  fixes s t u :: "'a bmach_scheme"
  assumes "bio_step s t" "bio_step t u"
  shows "bio_step s u"
  unfolding bio_step_def
proof
  show "u = s\<lparr>st_procs := st_procs u, st_slocks := st_slocks u, st_bufs := st_bufs u, st_disk := st_disk u,
      st_dwrites := st_dwrites u\<rparr>"
    by (rule bmach.equality) (subst bio_step_eq [OF assms(2)], subst bio_step_eq [OF assms(1)], simp)+
  show "\<forall>k. st_slocks u (InodeSL k) = st_slocks s (InodeSL k)"
    using bio_step_inodes [OF assms(1)] bio_step_inodes [OF assms(2)] by simp
qed

lemma bio_step_rest:
  assumes "bio_step s t"
  shows "st_disksize t = st_disksize s" "bmach.more t = bmach.more s"
  by (subst bio_step_eq [OF assms], simp)+

lemma bio_step_ops: "bio_step s (taken b n s)" "bio_step s (set_data b d s)" "bio_step s (set_dirty b s)"
  "bio_step s (written b n s)" "bio_step s (given b s)"
  by (simp_all add: bio_step_def taken_def set_data_def set_dirty_def written_def given_def woken_def)

lemma finite_dirty: "finite {n. dirty_block s n}"
proof (rule finite_subset)
  show "{n. dirty_block s n} \<subseteq> (\<lambda>i. b_blockno (st_bufs s i)) ` {..<NBUF}"
    by (auto simp: dirty_block_def cached_def)
qed simp

text \<open>A clean buffer that is not held exists unless dirty blocks and held buffers fill the cache.\<close>

lemma clean_buffer:
  assumes inv: "cache_inv H s" and c: "card {n. dirty_block s n} + card H < NBUF"
  shows "\<exists>i<NBUF. i \<notin> H \<and> \<not> b_dirty (st_bufs s i)"
proof (rule ccontr)
  assume a: "\<not> ?thesis"
  let ?D = "{i. i < NBUF \<and> b_dirty (st_bufs s i)}" and ?f = "\<lambda>i. b_blockno (st_bufs s i)"
  have "{..<NBUF} \<subseteq> H \<union> ?D" using a by auto
  moreover have f: "finite (H \<union> ?D)" using cache_invD(6) [OF inv] finite_subset by auto
  ultimately have "NBUF \<le> card (H \<union> ?D)" using card_mono [OF f, of "{..<NBUF}"] by simp
  also have "\<dots> \<le> card H + card ?D" by (rule card_Un_le)
  also have "card ?D \<le> card {n. dirty_block s n}"
  proof (rule card_inj_on_le [of ?f])
    have dev: "cached s (?f i) i" if "i \<in> ?D" for i
      using cache_invD(7) [OF inv, of i] that by (auto simp: buf_inv_def Let_def cached_def)
    show "inj_on ?f ?D"
    proof (rule inj_onI)
      fix i j
      assume "i \<in> ?D" "j \<in> ?D" "?f i = ?f j"
      then show "i = j" using cache_invD(8) [OF inv dev [of i]] dev [of j] by simp
    qed
    show "?f ` ?D \<subseteq> {n. dirty_block s n}" using dev by (auto simp: dirty_block_def)
  qed (rule finite_dirty)
  finally show False using c by simp
qed

lemma bread_spec:
  fixes s :: "'a bmach_scheme"
  assumes inv: "cache_inv H s" and n: "n < st_disksize s"
    and H: "\<And>i. i \<in> H \<Longrightarrow> b_blockno (st_bufs s i) \<noteq> n"
    and room: "dirty_block s n \<or> card {m. dirty_block s m} + card H < NBUF"
  obtains b and t :: "'a bmach_scheme" where "bread 1 n s = Ret b t" "b \<notin> H" "cache_inv (insert b H) t" "bio_step s t"
    "b_blockno (st_bufs t b) = n" "b_data (st_bufs t b) = content s n"
    "\<And>m. content t m = content s m" "\<And>m. dirty_block t m = dirty_block s m"
    "st_disk t = st_disk s" "st_dwrites t = st_dwrites s" "\<And>i. i \<noteq> b \<Longrightarrow> st_bufs t i = st_bufs s i"
    "b_dirty (st_bufs t b) = dirty_block s n"
proof -
  have "\<exists>b. takes H b n s \<and> bread 1 n s = Ret b (taken b n s)"
  proof (cases "dirty_block s n")
    case True
    then obtain b where b: "cached s n b" by (auto simp: dirty_block_def)
    then have "b \<notin> H" using H by (auto simp: cached_def)
    then show ?thesis using bread_cached [OF inv b _ n] b by (auto simp: takes_def cached_def)
  next
    case False
    then have e: "\<exists>i<NBUF. i \<notin> H \<and> \<not> b_dirty (st_bufs s i)" using clean_buffer [OF inv] room by simp
    show ?thesis by (rule bread_run [OF inv n H e]) auto
  qed
  then obtain b where b: "takes H b n s" "bread 1 n s = Ret b (taken b n s)" by blast
  show ?thesis
    using that [OF b(2) _ taken_inv [OF inv b(1)] bio_step_ops(1)] b(1)
      taken_content [OF inv b(1)] taken_dirty [OF inv b(1)]
    by (simp add: takes_def) (simp add: taken_def)
qed

lemma bwrite_spec:
  fixes s :: "'a bmach_scheme"
  assumes inv: "cache_inv H s" and b: "b \<in> H" "b_blockno (st_bufs s b) < st_disksize s"
  obtains t :: "'a bmach_scheme" where "bwrite b s = Ret () t" "cache_inv H t" "bio_step s t"
    "\<And>m. content t m = content s m"
    "\<And>m. dirty_block t m \<longleftrightarrow> dirty_block s m \<and> m \<noteq> b_blockno (st_bufs s b)"
    "st_disk t = (st_disk s)(b_blockno (st_bufs s b) := b_data (st_bufs s b))"
    "st_dwrites t = st_dwrites s @ [(b_blockno (st_bufs s b), b_data (st_bufs s b))]"
    "\<And>i. i \<noteq> b \<Longrightarrow> st_bufs t i = st_bufs s i" "b_data (st_bufs t b) = b_data (st_bufs s b)"
    "b_blockno (st_bufs t b) = b_blockno (st_bufs s b)"
  by (rule that [OF bwrite_run [OF inv b] changed_inv(3) [OF inv b(1)] bio_step_ops(4)
        changed_content(3) [OF inv b(1)] changed_dirty(3) [OF inv b(1)]])
    (simp_all add: written_def)

lemma brelse_spec:
  fixes s :: "'a bmach_scheme"
  assumes inv: "cache_inv H s" and b: "b \<in> H"
    and d: "b_dirty (st_bufs s b) \<or> b_data (st_bufs s b) = st_disk s (b_blockno (st_bufs s b))"
  obtains t :: "'a bmach_scheme" where "brelse b s = Ret () t" "cache_inv (H - {b}) t" "bio_step s t"
    "\<And>m. content t m = content s m" "\<And>m. dirty_block t m = dirty_block s m"
    "st_disk t = st_disk s" "st_dwrites t = st_dwrites s"
    "\<And>i. b_data (st_bufs t i) = b_data (st_bufs s i)" "\<And>i. b_dirty (st_bufs t i) = b_dirty (st_bufs s i)"
    "\<And>i. b_blockno (st_bufs t i) = b_blockno (st_bufs s i)"
  by (rule that [OF brelse_run [OF inv b] given_inv [OF inv b d] bio_step_ops(5) given_content])
    (simp_all add: given_sel)

lemma clean_content:
  assumes inv: "cache_inv {} s" and d: "\<not> dirty_block s m"
  shows "content s m = st_disk s m"
proof (rule content_eqI)
  fix i
  assume c: "cached s m i"
  then have "buf_inv {} s i" "\<not> b_dirty (st_bufs s i)"
    using cache_invD(7) [OF inv, of i] d by (auto simp: cached_def dirty_block_def)
  then show "(if b_valid (st_bufs s i) then b_data (st_bufs s i) else st_disk s m) = st_disk s m"
    using c by (simp add: buf_inv_def Let_def cached_def)
qed (use cache_invD(8) [OF inv] in auto)

text \<open>A run that writes the blocks \<open>ws\<close>, in this order, through the cache.\<close>

definition apply_writes :: "(nat \<times> uchar list) list \<Rightarrow> (nat \<Rightarrow> uchar list) \<Rightarrow> (nat \<Rightarrow> uchar list)" where
  "apply_writes ws d = fold (\<lambda>(n, x) f. f(n := x)) ws d"

lemma apply_writes_simps [simp]:
  "apply_writes [] d = d" "apply_writes (w # ws) d = apply_writes ws (d(fst w := snd w))"
  "apply_writes (ws @ vs) d = apply_writes vs (apply_writes ws d)"
  by (simp_all add: apply_writes_def case_prod_beta)

definition wrote :: "(nat \<times> uchar list) list \<Rightarrow> 'a bmach_scheme \<Rightarrow> 'a bmach_scheme \<Rightarrow> bool" where
  "wrote ws s t \<longleftrightarrow> cache_inv {} t \<and> bio_step s t \<and> content t = apply_writes ws (content s)
     \<and> st_disk t = apply_writes ws (st_disk s) \<and> st_dwrites t = st_dwrites s @ ws
     \<and> (\<forall>m. dirty_block t m \<longleftrightarrow> dirty_block s m \<and> m \<notin> fst ` set ws)"

lemma wrote_refl: "cache_inv {} s \<Longrightarrow> wrote [] s s"
  by (simp add: wrote_def bio_step_refl)

lemma wrote_trans: "wrote ws s t \<Longrightarrow> wrote vs t u \<Longrightarrow> wrote (ws @ vs) s u"
  unfolding wrote_def using bio_step_trans [of s t u] by auto

lemma wroteD:
  assumes "wrote ws s t"
  shows "cache_inv {} t" "bio_step s t" "content t = apply_writes ws (content s)"
    "st_disk t = apply_writes ws (st_disk s)" "st_dwrites t = st_dwrites s @ ws"
    "dirty_block t m \<longleftrightarrow> dirty_block s m \<and> m \<notin> fst ` set ws" "st_disksize t = st_disksize s"
  using assms bio_step_rest [of s t] by (auto simp: wrote_def)

lemma wrote_card: "wrote ws s t \<Longrightarrow> card {m. dirty_block t m} \<le> card {m. dirty_block s m}"
  by (rule card_mono [OF finite_dirty]) (auto dest: wroteD(6))

section \<open>Initialisation\<close>

lemma ring_push:
  assumes r: "ring N xs nxt prv" and b: "b \<notin> insert N (set xs)"
  shows "ring N (b # xs) (nxt(b := nxt N, N := b)) (prv(b := N, nxt N := b))"
proof -
  have d: "distinct (N # xs)" "lseg nxt (nxt N) xs N" and inv: "\<And>x. x \<in> insert N (set xs) \<Longrightarrow> prv (nxt x) = x"
    using r by (auto simp: ring_def)
  have f: "nxt N \<in> insert N (set xs)" using d(2) by (cases xs) auto
  have "(prv(b := N, nxt N := b)) ((nxt(b := nxt N, N := b)) x) = x" if x: "x \<in> insert N (set (b # xs))" for x
  proof -
    consider "x = N" | "x = b" | "x \<noteq> N" "x \<in> set xs" using x by auto
    then show ?thesis
    proof cases
      case 3
      have "nxt x \<noteq> nxt N" using inv [of x] inv [of N] 3 by auto
      moreover have "nxt x \<noteq> b" using lseg_closed [OF d(2), of x] 3 b by auto
      ultimately show ?thesis using inv [of x] 3 b by auto
    qed (use f b in auto)
  qed
  then show ?thesis using d b unfolding ring_def by simp
qed

definition made :: "nat \<Rightarrow> 'a bmach_scheme \<Rightarrow> 'a bmach_scheme" where
  "made b s = s\<lparr>m_locks := (m_locks s)(BufLock b := \<lparr>lk_locked = False, lk_name = ''sleep lock'', lk_cpu = None\<rparr>),
     st_slocks := (st_slocks s)(BufSL b := (st_slocks s (BufSL b))\<lparr>sl_name := ''buffer'', sl_locked := False, sl_pid := 0\<rparr>),
     st_bufs := pushed_front b (st_bufs s)\<rparr>"

lemma binit_one_run: "binit_one b s = Ret () (made b s)"
  by (simp add: binit_one_def getbuf_def upd_buf_def upd_sl_def initsleeplock_def initlock_def kbind_run kseq_run
      pushed_front_def Let_def set_prev_def set_next_def made_def)

definition binit_inv :: "nat \<Rightarrow> 'a bmach_scheme \<Rightarrow> bool" where
  "binit_inv k s \<longleftrightarrow> cpu_ok s \<and> lock_free s BcacheLock \<and> lock_free s PtableLock
     \<and> (\<forall>i<k. lock_free s (BufLock i) \<and> \<not> sl_locked (st_slocks s (BufSL i)))
     \<and> ring NBUF (rev [0..<k]) (\<lambda>i. b_next (st_bufs s i)) (\<lambda>i. b_prev (st_bufs s i))
     \<and> (\<forall>i<NBUF. b_refcnt (st_bufs s i) = 0 \<and> \<not> b_dirty (st_bufs s i) \<and> b_dev (st_bufs s i) = 0)"

lemma front_keep [simp]:
  "b_valid (pushed_front b B j) = b_valid (B j)" "b_dirty (pushed_front b B j) = b_dirty (B j)"
  "b_dev (pushed_front b B j) = b_dev (B j)" "b_blockno (pushed_front b B j) = b_blockno (B j)"
  "b_refcnt (pushed_front b B j) = b_refcnt (B j)" "b_data (pushed_front b B j) = b_data (B j)"
  by (simp_all add: pushed_front_def Let_def)

lemma front_links:
  assumes "b \<noteq> NBUF"
  shows "(\<lambda>j. b_next (pushed_front b B j)) = (\<lambda>j. b_next (B j))(b := b_next (B NBUF), NBUF := b)"
    "(\<lambda>j. b_prev (pushed_front b B j)) = (\<lambda>j. b_prev (B j))(b := NBUF, b_next (B NBUF) := b)"
  using assms by (auto simp: pushed_front_def Let_def)

lemma made_inv:
  assumes "binit_inv k s" "k < NBUF"
  shows "binit_inv (Suc k) (made k s)"
proof -
  have "ring NBUF (k # rev [0..<k]) (\<lambda>j. b_next (pushed_front k (st_bufs s) j)) (\<lambda>j. b_prev (pushed_front k (st_bufs s) j))"
    using ring_push [of NBUF "rev [0..<k]" "\<lambda>j. b_next (st_bufs s j)" "\<lambda>j. b_prev (st_bufs s j)" k] assms
    by (simp add: front_links binit_inv_def)
  then show ?thesis
    using assms by (auto simp: binit_inv_def made_def less_Suc_eq lock_free_def cpu_ok_def cpuno_def cur_def)
qed

lemma binit_loop:
  fixes s :: "'a bmach_scheme"
  shows "binit_inv 0 s \<Longrightarrow> k \<le> NBUF \<Longrightarrow>
     \<exists>t :: 'a bmach_scheme. kfor binit_one [0..<k] s = Ret () t \<and> binit_inv k t \<and> st_disk t = st_disk s
       \<and> (\<forall>i. b_dev (st_bufs t i) = b_dev (st_bufs s i))"
proof (induction k)
  case (Suc k)
  then obtain t :: "'a bmach_scheme" where t: "kfor binit_one [0..<k] s = Ret () t" "binit_inv k t" "st_disk t = st_disk s"
      "\<forall>i. b_dev (st_bufs t i) = b_dev (st_bufs s i)"
    by auto
  have "kfor binit_one [0..<Suc k] s = Ret () (made k t)"
    by (simp add: kfor_append kseq_run t(1) binit_one_run)
  then show ?case using made_inv [OF t(2)] Suc.prems t(3,4) by (simp add: made_def)
qed auto

lemma binit_cache:
  assumes "cpu_ok s" "lock_free s PtableLock"
    "\<And>i. i < NBUF \<Longrightarrow> b_refcnt (st_bufs s i) = 0 \<and> \<not> b_dirty (st_bufs s i) \<and> b_dev (st_bufs s i) = 0"
  shows "\<exists>t. binit s = Ret () t \<and> cache_inv {} t \<and> st_disk t = st_disk s \<and> (\<forall>n i. \<not> cached t n i)"
proof -
  let ?u = "s\<lparr>m_locks := (m_locks s)(BcacheLock := \<lparr>lk_locked = False, lk_name = ''bcache'', lk_cpu = None\<rparr>),
    st_bufs := (st_bufs s)(NBUF := (st_bufs s NBUF)\<lparr>b_prev := NBUF, b_next := NBUF\<rparr>)\<rparr>"
  have i: "binit_inv 0 ?u"
    using assms by (auto simp: binit_inv_def ring_def lock_free_def cpu_ok_def cpuno_def cur_def)
  obtain t where t: "kfor binit_one [0..<NBUF] ?u = Ret () t" "binit_inv NBUF t" "st_disk t = st_disk ?u"
      "\<forall>i. b_dev (st_bufs t i) = b_dev (st_bufs ?u i)"
    using binit_loop [OF i order_refl] by blast
  have b: "binit s = Ret () t"
    using t(1) by (simp add: binit_def initlock_def upd_buf_def kseq_run)
  have nc: "\<forall>n i. \<not> cached t n i" using t(4) assms(3) by (auto simp: cached_def)
  have "\<exists>xs. ring_bufs (st_bufs t) xs"
    using t(2) by (intro exI [of _ "rev [0..<NBUF]"]) (auto simp: binit_inv_def ring_bufs_def)
  then have "cache_inv {} t"
    using t(2) nc by (simp add: cache_inv_def binit_inv_def buf_inv_def Let_def)
  then show ?thesis using b nc t(3) by simp
qed

section \<open>Properties\<close>

text \<open>An example: no buffer is in use, and every block of the disk holds its number in every byte.\<close>

definition ex_bmach :: bmach where
  "ex_bmach = smach.extend ex_smach
     (bmach.fields (\<lambda>i. \<lparr>b_valid = False, b_dirty = False, b_dev = 0, b_blockno = 0, b_refcnt = 0, b_prev = 0, b_next = 0,
         b_qnext = None, b_data = []\<rparr>) (\<lambda>n. replicate 512 (of_nat n)) 1000 [])"

lemma ex_bmach_mach: "mach.truncate ex_bmach = ex_mach"
  unfolding ex_smach_mach [symmetric] by (simp add: ex_bmach_def mach.defs smach.defs)

lemma ex_bmach_simps [simp]:
  "st_procs ex_bmach = st_procs ex_pmach" "m_cpus ex_bmach = m_cpus ex_pmach" "st_slocks ex_bmach = st_slocks ex_smach"
  "st_disk ex_bmach = (\<lambda>n. replicate 512 (of_nat n))" "st_disksize ex_bmach = 1000" "st_dwrites ex_bmach = []"
  "st_bufs ex_bmach i = \<lparr>b_valid = False, b_dirty = False, b_dev = 0, b_blockno = 0, b_refcnt = 0, b_prev = 0, b_next = 0,
         b_qnext = None, b_data = []\<rparr>"
  using ex_smach_simps(1,2) by (simp_all add: ex_bmach_def smach.defs bmach.defs)

lemma ex_bmach_ok: "running 0 ex_bmach" "cpu_ok ex_bmach" "lock_free ex_bmach l"
proof -
  have "cur ex_bmach = 0" "cpu_ok ex_bmach" "lock_free ex_bmach l" for l
    using ex_mach_ok by (simp_all flip: ex_bmach_mach add: mach_truncate)
  then show "running 0 ex_bmach" "cpu_ok ex_bmach" "lock_free ex_bmach l"
    by (simp_all add: running_def two_cpus_def)
qed

lemma ex_binit: "\<exists>t. binit ex_bmach = Ret () t \<and> cache_inv {} t \<and> st_disk t = st_disk ex_bmach
    \<and> st_disksize t = 1000 \<and> (\<forall>n i. \<not> cached t n i)"
proof -
  have k: "keeps st_disksize (binit :: (bmach, unit) K)"
    unfolding binit_def binit_one_def initlock_def upd_buf_def getbuf_def initsleeplock_def upd_sl_def
    by (intro kkeep) simp_all
  obtain t where t: "binit ex_bmach = Ret () t" "cache_inv {} t" "st_disk t = st_disk ex_bmach" "\<forall>n i. \<not> cached t n i"
    using binit_cache [of ex_bmach] ex_bmach_ok by auto
  then show ?thesis using keepsD [OF k, of ex_bmach] by simp
qed

text \<open>
  C4. The buffer cache is transparent: under its invariant (a doubly linked ring through all buffers,
  no block in two buffers, unheld clean buffers equal to the disk), reading a block that the thread
  does not hold returns a locked buffer with the newest contents of that block, keeps the invariant,
  and changes the contents of no block, whichever buffer is evicted. It needs a clean free buffer,
  or the block to be one of the dirty ones.
\<close>

theorem bread_returns_block:
  assumes "cache_inv H s" "n < st_disksize s" "\<forall>i\<in>H. b_blockno (st_bufs s i) \<noteq> n"
    "dirty_block s n \<or> card {m. dirty_block s m} + card H < NBUF"
  shows "\<exists>b t. bread 1 n s = Ret b t \<and> b \<notin> H \<and> cache_inv (insert b H) t \<and> b_blockno (st_bufs t b) = n
    \<and> b_data (st_bufs t b) = content s n \<and> (\<forall>m. content t m = content s m) \<and> st_disk t = st_disk s"
proof -
  have H: "\<And>i. i \<in> H \<Longrightarrow> b_blockno (st_bufs s i) \<noteq> n" using assms(3) by blast
  show ?thesis by (rule bread_spec [OF assms(1,2) H assms(4)]) auto
qed

theorem bread_returns_block_witness:
  "\<exists>t b u. binit ex_bmach = Ret () t \<and> bread 1 5 t = Ret b u \<and> b_data (st_bufs u b) = replicate 512 5"
proof -
  obtain t where t: "binit ex_bmach = Ret () t" "cache_inv {} t" "st_disk t = st_disk ex_bmach" "st_disksize t = 1000"
      "\<forall>n i. \<not> cached t n i"
    using ex_binit by blast
  have "{m. dirty_block t m} = {}" using t(5) by (simp add: dirty_block_def)
  then have "dirty_block t 5 \<or> card {m. dirty_block t m} + card ({} :: nat set) < NBUF"
    by (simp add: param_defs)
  then show ?thesis
    using bread_returns_block [OF t(2), of 5] t content_uncached [of t 5] by auto
qed

declare One_nat_def [simp]

end
