(* ===== verification/Wal.thy ===== *)
theory Wal
  imports Bio
begin

text \<open>
  The write-ahead log, \<^verbatim>\<open>src/log.c\<close>, and the super block (\<^verbatim>\<open>struct superblock\<close> of
  \<^verbatim>\<open>src/fs.h\<close>, \<open>readsb\<close> of \<^verbatim>\<open>src/fs.c\<close>), which the log reads its place from.

  The on-disk header is decoded from and encoded into the bytes of its block. \<open>begin_op_loop\<close> is
  the loop of \<open>begin_op\<close> from its head on, entered again after \<open>sleep_resume\<close>.
\<close>

section \<open>State\<close>

record superblock =
  sb_size :: nat
  sb_nblocks :: nat
  sb_ninodes :: nat
  sb_nlog :: nat
  sb_logstart :: nat
  sb_inodestart :: nat
  sb_bmapstart :: nat

record logheader =
  lh_n :: int
  lh_block :: "nat \<Rightarrow> nat"

record log =
  l_start :: nat
  l_size :: int
  l_outstanding :: int
  l_committing :: bool
  l_dev :: nat
  l_lh :: logheader

record wmach = bmach +
  st_log :: log

definition upd_log :: "(log \<Rightarrow> log) \<Rightarrow> ('a wmach_scheme, unit) K" where
  "upd_log f = kmod (\<lambda>s. s\<lparr>st_log := f (st_log s)\<rparr>)"

section \<open>The super block\<close>

definition decode_sb :: "uchar list \<Rightarrow> superblock" where
  "decode_sb d =
     \<lparr>sb_size = unat (get32 d 0), sb_nblocks = unat (get32 d 4), sb_ninodes = unat (get32 d 8),
      sb_nlog = unat (get32 d 12), sb_logstart = unat (get32 d 16),
      sb_inodestart = unat (get32 d 20), sb_bmapstart = unat (get32 d 24)\<rparr>"

definition readsb :: "nat \<Rightarrow> ('a wmach_scheme, superblock) K" where
  "readsb dev =
     kbind (bread dev 1) (\<lambda>bp.
     kbind (getbuf bp) (\<lambda>b.
     kseq (brelse bp) (ret (decode_sb (b_data b)))))"

section \<open>Recovery and commit\<close>

definition install_one :: "nat \<Rightarrow> ('a wmach_scheme, unit) K" where
  "install_one tail =
     kbind (kget st_log) (\<lambda>lg.
     kbind (bread (l_dev lg) (l_start lg + tail + 1)) (\<lambda>lbuf.
     kbind (bread (l_dev lg) (lh_block (l_lh lg) tail)) (\<lambda>dbuf.
     kbind (getbuf lbuf) (\<lambda>lb.
     kseq (upd_buf dbuf (\<lambda>b. b\<lparr>b_data := b_data lb\<rparr>)) (
     kseq (bwrite dbuf) (
     kseq (brelse lbuf) (brelse dbuf)))))))"

definition install_trans :: "('a wmach_scheme, unit) K" where
  "install_trans = kbind (kget (\<lambda>s. lh_n (l_lh (st_log s)))) (\<lambda>n. kfor install_one [0..<nat n])"

definition read_head :: "('a wmach_scheme, unit) K" where
  "read_head =
     kbind (kget st_log) (\<lambda>lg.
     kbind (bread (l_dev lg) (l_start lg)) (\<lambda>buf.
     kbind (getbuf buf) (\<lambda>b.
     let n = sint (get32 (b_data b) 0) in
     kseq (upd_log (\<lambda>l. l\<lparr>l_lh := (l_lh l)\<lparr>lh_n := n\<rparr>\<rparr>)) (
     if n > int LOGSIZE then kstop (Wild ''log.lh.block'')
     else
       kseq (kfor (\<lambda>i. upd_log (\<lambda>l. l\<lparr>l_lh := (l_lh l)\<lparr>lh_block :=
               (lh_block (l_lh l))(i := unat (get32 (b_data b) (4 + 4 * i)))\<rparr>\<rparr>)) [0..<nat n])
            (brelse buf)))))"

definition write_head :: "('a wmach_scheme, unit) K" where
  "write_head =
     kbind (kget st_log) (\<lambda>lg.
     kbind (bread (l_dev lg) (l_start lg)) (\<lambda>buf.
     kseq (upd_buf buf (\<lambda>b. b\<lparr>b_data := put32 (b_data b) 0 (of_int (lh_n (l_lh lg)))\<rparr>)) (
     kseq (kfor (\<lambda>i. upd_buf buf (\<lambda>b. b\<lparr>b_data :=
             put32 (b_data b) (4 + 4 * i) (of_nat (lh_block (l_lh lg) i))\<rparr>)) [0..<nat (lh_n (l_lh lg))]) (
     kseq (bwrite buf) (brelse buf)))))"

definition recover_from_log :: "('a wmach_scheme, unit) K" where
  "recover_from_log =
     kseq read_head (
     kseq install_trans (
     kseq (upd_log (\<lambda>l. l\<lparr>l_lh := (l_lh l)\<lparr>lh_n := 0\<rparr>\<rparr>)) write_head))"

definition initlog :: "nat \<Rightarrow> ('a wmach_scheme, unit) K" where
  "initlog dev =
     (if 4 + 4 * LOGSIZE \<ge> BSIZE then panic ''initlog: too big logheader''
      else
        kseq (initlock LogLock ''log'') (
        kbind (readsb dev) (\<lambda>sb.
        kseq (upd_log (\<lambda>l. l\<lparr>l_start := sb_logstart sb, l_size := int (sb_nlog sb), l_dev := dev\<rparr>))
             recover_from_log)))"

definition write_log_one :: "nat \<Rightarrow> ('a wmach_scheme, unit) K" where
  "write_log_one tail =
     kbind (kget st_log) (\<lambda>lg.
     kbind (bread (l_dev lg) (l_start lg + tail + 1)) (\<lambda>to'.
     kbind (bread (l_dev lg) (lh_block (l_lh lg) tail)) (\<lambda>from'.
     kbind (getbuf from') (\<lambda>fb.
     kseq (upd_buf to' (\<lambda>b. b\<lparr>b_data := b_data fb\<rparr>)) (
     kseq (bwrite to') (
     kseq (brelse from') (brelse to')))))))"

definition write_log :: "('a wmach_scheme, unit) K" where
  "write_log = kbind (kget (\<lambda>s. lh_n (l_lh (st_log s)))) (\<lambda>n. kfor write_log_one [0..<nat n])"

definition commit :: "('a wmach_scheme, unit) K" where
  "commit =
     kbind (kget (\<lambda>s. lh_n (l_lh (st_log s)))) (\<lambda>n.
     kwhen (n > 0) (
       kseq write_log (
       kseq write_head (
       kseq install_trans (
       kseq (upd_log (\<lambda>l. l\<lparr>l_lh := (l_lh l)\<lparr>lh_n := 0\<rparr>\<rparr>)) write_head)))))"

section \<open>Transactions\<close>

definition begin_op_loop :: "('a wmach_scheme, unit) K" where
  "begin_op_loop =
     kbind (kget st_log) (\<lambda>lg.
     if l_committing lg then sleep ChanLog LogLock
     else if lh_n (l_lh lg) + (l_outstanding lg + 1) * int MAXOPBLOCKS > int LOGSIZE
       then sleep ChanLog LogLock
     else
       kseq (upd_log (\<lambda>l. l\<lparr>l_outstanding := l_outstanding l + 1\<rparr>)) (release LogLock))"

definition begin_op :: "('a wmach_scheme, unit) K" where
  "begin_op = kseq (acquire LogLock) begin_op_loop"

definition end_op :: "('a wmach_scheme, unit) K" where
  "end_op =
     kseq (acquire LogLock) (
     kseq (upd_log (\<lambda>l. l\<lparr>l_outstanding := l_outstanding l - 1\<rparr>)) (
     kbind (kget st_log) (\<lambda>lg.
     if l_committing lg then panic ''log.committing''
     else
       kseq (if l_outstanding lg = 0 then upd_log (\<lambda>l. l\<lparr>l_committing := True\<rparr>) else wakeup ChanLog) (
       kseq (release LogLock)
            (kwhen (l_outstanding lg = 0) (
               kseq commit (
               kseq (acquire LogLock) (
               kseq (upd_log (\<lambda>l. l\<lparr>l_committing := False\<rparr>)) (
               kseq (wakeup ChanLog) (release LogLock))))))))))"

definition log_write :: "nat \<Rightarrow> ('a wmach_scheme, unit) K" where
  "log_write i =
     kbind (kget st_log) (\<lambda>lg.
     if lh_n (l_lh lg) \<ge> int LOGSIZE \<or> lh_n (l_lh lg) \<ge> l_size lg - 1 then panic ''too big a transaction''
     else if l_outstanding lg < 1 then panic ''log_write outside of trans''
     else
       kseq (acquire LogLock) (
       kbind (kget st_log) (\<lambda>lg.
       kbind (getbuf i) (\<lambda>b.
       let n = nat (lh_n (l_lh lg));
           k = (case find (\<lambda>k. lh_block (l_lh lg) k = b_blockno b) [0..<n] of Some k \<Rightarrow> k | None \<Rightarrow> n)
       in
       kseq (upd_log (\<lambda>l. l\<lparr>l_lh := (l_lh l)\<lparr>lh_block := (lh_block (l_lh l))(k := b_blockno b)\<rparr>\<rparr>)) (
       kseq (kwhen (k = n) (upd_log (\<lambda>l. l\<lparr>l_lh := (l_lh l)\<lparr>lh_n := lh_n (l_lh l) + 1\<rparr>\<rparr>))) (
       kseq (upd_buf i (\<lambda>b. b\<lparr>b_dirty := True\<rparr>)) (release LogLock)))))))"

section \<open>Frame\<close>

lemma log_frame [simp]:
  "cpuno (s\<lparr>st_log := x\<rparr>) = cpuno s" "cur (s\<lparr>st_log := x\<rparr>) = cur s"
  "cpu_ok (s\<lparr>st_log := x\<rparr>) = cpu_ok s" "lock_free (s\<lparr>st_log := x\<rparr>) l = lock_free s l"
  "holds (s\<lparr>st_log := x\<rparr>) c l = holds s c l" "IF_on (s\<lparr>st_log := x\<rparr>) = IF_on s"
  by (simp_all add: cpuno_def cur_def cpu_ok_def lock_free_def holds_def IF_on_def)

lemma acquired_log [kframe]:
  "(acquired l s)\<lparr>st_log := x\<rparr> = acquired l (s\<lparr>st_log := x\<rparr>)"
  by (simp_all add: acquired_def pushed_def IF_on_def)

lemma acquired_log_sel [simp]:
  "st_log (acquired l s) = st_log s"
  by (simp_all add: acquired_def pushed_def)

section \<open>Words in a block\<close>

lemma length_le_bytes [simp]: "length (le_bytes v) = 4"
  by (simp add: le_bytes_def)

lemma le_word_le_bytes [simp]: "le_word (le_bytes v) = v"
proof (rule bit_word_eqI)
  fix n
  assume "n < LENGTH(32)"
  then consider "n < 8" | "8 \<le> n" "n < 16" | "16 \<le> n" "n < 24" | "24 \<le> n" "n < 32" by fastforce
  then show "bit (le_word (le_bytes v)) n = bit v n"
    by cases (auto simp: le_word_def le_bytes_def bit_simps less_diff_conv2)
qed

lemma splice_length [simp]: "off + length bs \<le> length d \<Longrightarrow> length (splice d off bs) = length d"
  by (simp add: splice_def)

lemma put32_length [simp]: "off + 4 \<le> length d \<Longrightarrow> length (put32 d off v) = length d"
  by (simp add: put32_def)

lemma get32_put32 [simp]: "off + 4 \<le> length d \<Longrightarrow> get32 (put32 d off v) off = v"
  by (simp add: get32_def put32_def splice_def)

lemma splice_nth:
  "off + length bs \<le> length d \<Longrightarrow> i < length d \<Longrightarrow>
     splice d off bs ! i = (if off \<le> i \<and> i < off + length bs then bs ! (i - off) else d ! i)"
  by (cases "i < off"; cases "i < off + length bs") (auto simp: splice_def nth_append less_diff_conv2)

lemma get32_put32_other:
  assumes "off + 4 \<le> length d" "off' + 4 \<le> off \<or> off + 4 \<le> off'"
  shows "get32 (put32 d off v) off' = get32 d off'"
proof -
  have "take 4 (drop off' (put32 d off v)) = take 4 (drop off' d)"
    (is "?l = ?r")
  proof (rule nth_equalityI)
    show "length ?l = length ?r" using assms by simp
    fix i
    assume "i < length ?l"
    then have i: "i < 4" "off' + i < length d" using assms by auto
    then show "?l ! i = ?r ! i" using assms by (auto simp: put32_def splice_nth)
  qed
  then show ?thesis by (simp add: get32_def)
qed

section \<open>One block of the log\<close>

definition log_ok :: "'a wmach_scheme \<Rightarrow> bool" where
  "log_ok s \<longleftrightarrow> cache_inv {} s \<and> l_dev (st_log s) = 1 \<and> card {m. dirty_block s m} < NBUF"

lemma bio_step_log: "bio_step s t \<Longrightarrow> st_log t = st_log s"
  by (drule bio_step_eq, erule ssubst) simp

lemma upd_data: "upd_buf b (\<lambda>x. x\<lparr>b_data := f x\<rparr>) s = Ret () (set_data b (f (st_bufs s b)) s)"
  by (simp add: upd_buf_def set_data_def)

lemma set_data_sel [simp]:
  "st_bufs (set_data b d s) i = (if i = b then (st_bufs s b)\<lparr>b_data := d\<rparr> else st_bufs s i)"
  "st_disk (set_data b d s) = st_disk s" "st_dwrites (set_data b d s) = st_dwrites s"
  "st_disksize (set_data b d s) = st_disksize s"
  by (simp_all add: set_data_def)

lemma wrote_step:
  assumes "bio_step s s'" "content s' = content s" "dirty_block s' = dirty_block s" "st_disk s' = st_disk s"
    "st_dwrites s' = st_dwrites s" "wrote ws s' t"
  shows "wrote ws s t"
  using assms bio_step_trans [of s s' t] by (simp add: wrote_def)

text \<open>The two copies of the log end alike: the source's data in the target, which is written.\<close>

definition copy_block :: "nat \<Rightarrow> nat \<Rightarrow> ('a wmach_scheme, unit) K" where
  "copy_block c b =
     kbind (getbuf c) (\<lambda>x.
     kseq (upd_buf b (\<lambda>y. y\<lparr>b_data := b_data x\<rparr>)) (
     kseq (bwrite b) (
     kseq (brelse c) (brelse b))))"

lemma copy_block_run:
  fixes s :: "'a wmach_scheme"
  defines "d \<equiv> \<lambda>c. b_data (st_bufs s c)" and "n \<equiv> \<lambda>b. b_blockno (st_bufs s b)"
  assumes inv: "cache_inv {c, b} s" and ne: "c \<noteq> b" and sz: "n b < st_disksize s"
    and c: "b_dirty (st_bufs s c) \<or> d c = st_disk s (n c)"
  shows "\<exists>t :: 'a wmach_scheme. copy_block c b s = Ret () t \<and> wrote [(n b, d c)] s t"
proof -
  have nb: "n c \<noteq> n b" using heldD(9) [OF inv, of b] heldD(9) [OF inv, of c] cache_invD(8) [OF inv, of "n b" c b] ne
    by (auto simp: n_def)
  define s3 where "s3 = set_data b (d c) s"
  have inv3: "cache_inv {c, b} s3" unfolding s3_def by (rule changed_inv(1)) (use inv in auto)
  have c3: "content s3 m = (if m = n b then d c else content s m)"
    "dirty_block s3 m = dirty_block s m" for m
    unfolding s3_def n_def using changed_content(1) [OF inv, of b] changed_dirty(1) [OF inv, of b] by auto
  obtain s4 :: "'a wmach_scheme" where
    4: "bwrite b s3 = Ret () s4" "cache_inv {c, b} s4" "bio_step s3 s4" "\<And>m. content s4 m = content s3 m"
      "\<And>m. dirty_block s4 m \<longleftrightarrow> dirty_block s m \<and> m \<noteq> n b"
      "st_disk s4 = (st_disk s)(n b := d c)" "st_dwrites s4 = st_dwrites s @ [(n b, d c)]"
      "st_bufs s4 c = st_bufs s c" "b_data (st_bufs s4 b) = d c" "b_blockno (st_bufs s4 b) = n b"
    by (rule bwrite_spec [OF inv3, of b]) (use sz ne c3 in \<open>auto simp: s3_def n_def\<close>)
  obtain s5 :: "'a wmach_scheme" where
    5: "brelse c s4 = Ret () s5" "cache_inv ({c, b} - {c}) s5" "bio_step s4 s5" "\<And>m. content s5 m = content s4 m"
      "\<And>m. dirty_block s5 m = dirty_block s4 m" "st_disk s5 = st_disk s4" "st_dwrites s5 = st_dwrites s4"
      "\<And>i. b_data (st_bufs s5 i) = b_data (st_bufs s4 i)" "\<And>i. b_blockno (st_bufs s5 i) = b_blockno (st_bufs s4 i)"
    by (rule brelse_spec [OF 4(2), of c]) (use 4(6,8) c nb in \<open>auto simp: n_def d_def\<close>)
  obtain t :: "'a wmach_scheme" where
    6: "brelse b s5 = Ret () t" "cache_inv ({c, b} - {c} - {b}) t" "bio_step s5 t" "\<And>m. content t m = content s5 m"
      "\<And>m. dirty_block t m = dirty_block s5 m" "st_disk t = st_disk s5" "st_dwrites t = st_dwrites s5"
    by (rule brelse_spec [OF 5(2), of b]) (use ne 4(6,9,10) 5(6,8,9) in auto)
  have H: "{c, b} - {c} - {b} = {}" by auto
  have run: "copy_block c b s = Ret () t"
    using 4(1) 5(1) 6(1) by (simp add: copy_block_def kbind_run kseq_run getbuf_def upd_data s3_def d_def)
  have "bio_step s t"
    using bio_step_ops(2) [of s b "d c"] 4(3) 5(3) 6(3) bio_step_trans unfolding s3_def by metis
  then have "wrote [(n b, d c)] s t"
    using 6 5 4 c3 unfolding wrote_def H by auto
  then show ?thesis using run by blast
qed

text \<open>Two different blocks read one after the other, neither of them held before.\<close>

lemma bread_two:
  fixes s :: "'a wmach_scheme"
  assumes inv: "cache_inv {} s" and room: "card {k. dirty_block s k} < NBUF"
    and n: "n < st_disksize s" "m < st_disksize s" "n \<noteq> m"
    and m: "dirty_block s m \<or> card {k. dirty_block s k} + 1 < NBUF"
  obtains b c and s1 s2 :: "'a wmach_scheme" where "bread 1 n s = Ret b s1" "bread 1 m s1 = Ret c s2" "b \<noteq> c"
    "cache_inv {c, b} s2" "bio_step s s2" "b_blockno (st_bufs s2 b) = n" "b_blockno (st_bufs s2 c) = m"
    "b_data (st_bufs s2 b) = content s n" "b_data (st_bufs s2 c) = content s m"
    "content s2 = content s" "dirty_block s2 = dirty_block s" "st_disk s2 = st_disk s" "st_dwrites s2 = st_dwrites s"
    "b_dirty (st_bufs s2 b) = dirty_block s n" "b_dirty (st_bufs s2 c) = dirty_block s m"
proof -
  obtain b and s1 :: "'a wmach_scheme" where
    1: "bread 1 n s = Ret b s1" "cache_inv (insert b {}) s1" "bio_step s s1" "b_blockno (st_bufs s1 b) = n"
      "b_data (st_bufs s1 b) = content s n" "\<And>m. content s1 m = content s m" "\<And>m. dirty_block s1 m = dirty_block s m"
      "st_disk s1 = st_disk s" "st_dwrites s1 = st_dwrites s" "b_dirty (st_bufs s1 b) = dirty_block s n"
    using room by - (rule bread_spec [OF inv n(1)], auto)
  have sz1: "st_disksize s1 = st_disksize s" using bio_step_rest [OF 1(3)] by simp
  obtain c and s2 :: "'a wmach_scheme" where
    2: "bread 1 m s1 = Ret c s2" "c \<noteq> b" "cache_inv {c, b} s2" "bio_step s1 s2" "b_blockno (st_bufs s2 c) = m"
      "b_data (st_bufs s2 c) = content s m"
      "\<And>m. content s2 m = content s m" "\<And>m. dirty_block s2 m = dirty_block s m"
      "st_disk s2 = st_disk s" "st_dwrites s2 = st_dwrites s" "st_bufs s2 b = st_bufs s1 b"
      "b_dirty (st_bufs s2 c) = dirty_block s m"
  proof (rule bread_spec [OF 1(2), of m])
    show "m < st_disksize s1" using sz1 n by simp
    show "b_blockno (st_bufs s1 x) \<noteq> m" if "x \<in> {b}" for x using that n 1(4) by simp
    show "dirty_block s1 m \<or> card {k. dirty_block s1 k} + card {b} < NBUF" using m 1(7) by simp
  qed (use 1 in auto)
  show ?thesis
    by (rule that [OF 1(1) 2(1)]) (use 1 2 bio_step_trans [OF 1(3) 2(4)] in \<open>auto simp: fun_eq_iff\<close>)
qed

lemma write_log_one_run:
  fixes s :: "'a wmach_scheme"
  defines "lg \<equiv> st_log s"
  assumes ok: "log_ok s" and to': "l_start lg + i + 1 < st_disksize s"
    and from': "lh_block (l_lh lg) i < st_disksize s" "dirty_block s (lh_block (l_lh lg) i)"
    and nd: "\<not> dirty_block s (l_start lg + i + 1)"
  shows "\<exists>t :: 'a wmach_scheme. write_log_one i s = Ret () t
     \<and> wrote [(l_start lg + i + 1, content s (lh_block (l_lh lg) i))] s t"
proof -
  let ?to = "l_start lg + i + 1" and ?fr = "lh_block (l_lh lg) i"
  have ne: "?to \<noteq> ?fr" using from' nd by auto
  obtain b c and s1 s2 :: "'a wmach_scheme" where r: "bread 1 ?to s = Ret b s1" "bread 1 ?fr s1 = Ret c s2" "b \<noteq> c"
    "cache_inv {c, b} s2" "bio_step s s2" "b_blockno (st_bufs s2 b) = ?to" "b_blockno (st_bufs s2 c) = ?fr"
    "b_data (st_bufs s2 c) = content s ?fr"
    "content s2 = content s" "dirty_block s2 = dirty_block s" "st_disk s2 = st_disk s" "st_dwrites s2 = st_dwrites s"
    "b_dirty (st_bufs s2 c) = dirty_block s ?fr"
    by (rule bread_two [of s ?to ?fr]) (use ok to' from' ne in \<open>auto simp: log_ok_def\<close>)
  obtain t :: "'a wmach_scheme" where
    t: "copy_block c b s2 = Ret () t" "wrote [(?to, content s ?fr)] s2 t"
    using copy_block_run [OF r(4)] r(3,6,8,13) from' to' bio_step_rest(1) [OF r(5)] by auto
  have "write_log_one i s = Ret () t"
    using r(1,2) t(1) ok unfolding lg_def by (simp add: write_log_one_def copy_block_def kbind_run log_ok_def)
  then show ?thesis using wrote_step [OF r(5,9,10,11,12) t(2)] by blast
qed

lemma install_one_run:
  fixes s :: "'a wmach_scheme"
  defines "lg \<equiv> st_log s"
  assumes ok: "log_ok s" and from': "l_start lg + i + 1 < st_disksize s"
    and to': "lh_block (l_lh lg) i < st_disksize s" "lh_block (l_lh lg) i \<noteq> l_start lg + i + 1"
    and room: "dirty_block s (lh_block (l_lh lg) i) \<or> card {m. dirty_block s m} + 1 < NBUF"
    and nd: "\<not> dirty_block s (l_start lg + i + 1)"
  shows "\<exists>t :: 'a wmach_scheme. install_one i s = Ret () t
     \<and> wrote [(lh_block (l_lh lg) i, content s (l_start lg + i + 1))] s t"
proof -
  let ?fr = "l_start lg + i + 1" and ?to = "lh_block (l_lh lg) i"
  obtain c b and s1 s2 :: "'a wmach_scheme" where r: "bread 1 ?fr s = Ret c s1" "bread 1 ?to s1 = Ret b s2" "c \<noteq> b"
    "cache_inv {b, c} s2" "bio_step s s2" "b_blockno (st_bufs s2 c) = ?fr" "b_blockno (st_bufs s2 b) = ?to"
    "b_data (st_bufs s2 c) = content s ?fr"
    "content s2 = content s" "dirty_block s2 = dirty_block s" "st_disk s2 = st_disk s" "st_dwrites s2 = st_dwrites s"
    by (rule bread_two [of s ?fr ?to]) (use ok to' from' room in \<open>auto simp: log_ok_def\<close>)
  have cs: "content s ?fr = st_disk s ?fr" using clean_content nd ok by (auto simp: log_ok_def)
  obtain t :: "'a wmach_scheme" where
    t: "copy_block c b s2 = Ret () t" "wrote [(?to, content s ?fr)] s2 t"
    using copy_block_run [of c b s2] r(3,4,6,7,8,11) cs to' bio_step_rest(1) [OF r(5)] by (auto simp: insert_commute)
  have "install_one i s = Ret () t"
    using r(1,2) t(1) ok unfolding lg_def by (simp add: install_one_def copy_block_def kbind_run log_ok_def)
  then show ?thesis using wrote_step [OF r(5,9,10,11,12) t(2)] by blast
qed

section \<open>The loops of the log\<close>

lemma apply_writes_other: "m \<notin> fst ` set ws \<Longrightarrow> apply_writes ws d m = d m"
  by (induction ws arbitrary: d) auto

lemma wrote_log_ok: "wrote ws s t \<Longrightarrow> log_ok s \<Longrightarrow> log_ok t"
  using wrote_card [of ws s t] bio_step_log [of s t] wroteD(1,2) [of ws s t] by (simp add: log_ok_def)

definition log_copies :: "nat \<Rightarrow> nat \<Rightarrow> (nat \<Rightarrow> nat) \<Rightarrow> (nat \<Rightarrow> uchar list) \<Rightarrow> (nat \<times> uchar list) list" where
  "log_copies start n h c = map (\<lambda>i. (start + i + 1, c (h i))) [0..<n]"

definition home_copies :: "nat \<Rightarrow> nat \<Rightarrow> (nat \<Rightarrow> nat) \<Rightarrow> (nat \<Rightarrow> uchar list) \<Rightarrow> (nat \<times> uchar list) list" where
  "home_copies start n h c = map (\<lambda>i. (h i, c (start + i + 1))) [0..<n]"

lemma copies_Suc:
  "log_copies start (Suc n) h c = log_copies start n h c @ [(start + n + 1, c (h n))]"
  "home_copies start (Suc n) h c = home_copies start n h c @ [(h n, c (start + n + 1))]"
  "log_copies start 0 h c = []" "home_copies start 0 h c = []"
  by (simp_all add: log_copies_def home_copies_def)

lemma copies_fst:
  "fst ` set (log_copies start n h c) = {start + 1..start + n}"
  "fst ` set (home_copies start n h c) = h ` {..<n}"
proof -
  have "x \<in> (\<lambda>i. start + i + 1) ` {0..<n}" if "x \<in> {start + 1..start + n}" for x
    using that by (intro image_eqI [of _ _ "x - start - 1"]) auto
  then have "(\<lambda>i. start + i + 1) ` {0..<n} = {start + 1..start + n}" by auto
  then show "fst ` set (log_copies start n h c) = {start + 1..start + n}"
    by (simp add: log_copies_def image_image)
  show "fst ` set (home_copies start n h c) = h ` {..<n}"
    by (simp add: home_copies_def image_image atLeast0LessThan)
qed

text \<open>The part of a transaction's state on which its writes do not interfere.\<close>

definition log_area :: "nat \<Rightarrow> nat \<Rightarrow> (nat \<Rightarrow> nat) \<Rightarrow> nat \<Rightarrow> bool" where
  "log_area start n h sz \<longleftrightarrow> start + n < sz \<and> (\<forall>i<n. h i < sz \<and> h i \<notin> {start..start + n})"

lemma write_log_loop:
  fixes s :: "'a wmach_scheme"
  defines "lg \<equiv> st_log s" and "h \<equiv> lh_block (l_lh (st_log s))"
  assumes ok: "log_ok s" and area: "log_area (l_start lg) n h (st_disksize s)"
    and d: "\<And>i. i < n \<Longrightarrow> dirty_block s (h i)" "\<And>m. m \<in> {l_start lg..l_start lg + n} \<Longrightarrow> \<not> dirty_block s m"
  shows "k \<le> n \<Longrightarrow> \<exists>t :: 'a wmach_scheme. kfor write_log_one [0..<k] s = Ret () t
    \<and> wrote (log_copies (l_start lg) k h (content s)) s t"
proof (induction k)
  case 0
  then show ?case using ok wrote_refl [of s] by (simp add: log_ok_def copies_Suc)
next
  case (Suc k)
  let ?ws = "log_copies (l_start lg) k h (content s)"
  obtain t :: "'a wmach_scheme" where t: "kfor write_log_one [0..<k] s = Ret () t" "wrote ?ws s t" using Suc by auto
  have lg: "st_log t = lg" "st_disksize t = st_disksize s"
    using bio_step_log [OF wroteD(2) [OF t(2)]] wroteD(7) [OF t(2)] by (simp_all add: lg_def)
  have hk: "h k < st_disksize s" "h k \<notin> {l_start lg..l_start lg + n}" "l_start lg + n < st_disksize s"
    using area Suc.prems by (auto simp: log_area_def)
  then have fr: "h k \<notin> fst ` set ?ws" using Suc.prems by (auto simp: copies_fst)
  then have ck: "content t (h k) = content s (h k)"
    using wroteD(3) [OF t(2)] by (simp add: apply_writes_other)
  have "\<exists>u :: 'a wmach_scheme. write_log_one k t = Ret () u \<and> wrote [(l_start lg + k + 1, content t (h k))] t u"
    using write_log_one_run [OF wrote_log_ok [OF t(2) ok], of k] lg hk Suc.prems d fr wroteD(6) [OF t(2)]
    by (simp add: h_def lg_def)
  then obtain u :: "'a wmach_scheme" where
    u: "write_log_one k t = Ret () u" "wrote [(l_start lg + k + 1, content s (h k))] t u" using ck by auto
  have "wrote (log_copies (l_start lg) (Suc k) h (content s)) s u"
    using wrote_trans [OF t(2) u(2)] by (simp only: copies_Suc)
  then show ?case using t(1) u(1) by (auto simp: kfor_append kseq_run)
qed

lemma install_loop:
  fixes s :: "'a wmach_scheme"
  defines "lg \<equiv> st_log s" and "h \<equiv> lh_block (l_lh (st_log s))"
  assumes ok: "log_ok s" and area: "log_area (l_start lg) n h (st_disksize s)"
    and room: "(\<forall>i<n. dirty_block s (h i)) \<and> inj_on h {..<n} \<or> card {m. dirty_block s m} + 1 < NBUF"
    and d: "\<And>m. m \<in> {l_start lg..l_start lg + n} \<Longrightarrow> \<not> dirty_block s m"
  shows "k \<le> n \<Longrightarrow> \<exists>t :: 'a wmach_scheme. kfor install_one [0..<k] s = Ret () t
    \<and> wrote (home_copies (l_start lg) k h (content s)) s t"
proof (induction k)
  case 0
  then show ?case using ok wrote_refl [of s] by (simp add: log_ok_def copies_Suc)
next
  case (Suc k)
  let ?ws = "home_copies (l_start lg) k h (content s)" and ?fr = "l_start lg + k + 1"
  obtain t :: "'a wmach_scheme" where t: "kfor install_one [0..<k] s = Ret () t" "wrote ?ws s t" using Suc by auto
  have lg: "st_log t = lg" "st_disksize t = st_disksize s"
    using bio_step_log [OF wroteD(2) [OF t(2)]] wroteD(7) [OF t(2)] by (simp_all add: lg_def)
  have hk: "h k < st_disksize s" "h k \<notin> {l_start lg..l_start lg + n}" "l_start lg + n < st_disksize s"
    using area Suc.prems by (auto simp: log_area_def)
  have frn: "?fr \<in> {l_start lg..l_start lg + n}" using Suc.prems by simp
  have hn: "h i \<notin> {l_start lg..l_start lg + n}" if "i < k" for i
    using area Suc.prems that unfolding log_area_def by (metis Suc_le_lessD less_trans)
  have "?fr \<notin> fst ` set ?ws"
  proof
    assume "?fr \<in> fst ` set ?ws"
    then obtain i where "i < k" "?fr = h i" unfolding copies_fst by blast
    then show False using hn [of i] frn by simp
  qed
  then have ck: "content t ?fr = content s ?fr"
    using wroteD(3) [OF t(2)] by (simp add: apply_writes_other)
  have r: "dirty_block t (h k) \<or> card {m. dirty_block t m} + 1 < NBUF"
  proof (cases "card {m. dirty_block s m} + 1 < NBUF")
    case True
    then show ?thesis using wrote_card [OF t(2)] by auto
  next
    case False
    then have "inj_on h {..<n}" "dirty_block s (h k)" using room Suc.prems by simp_all
    moreover from this have "h k \<notin> h ` {..<k}"
      using inj_on_image_mem_iff [of h "{..<n}" k "{..<k}"] Suc.prems by auto
    ultimately have "h k \<notin> h ` {..<k}" "dirty_block s (h k)" by simp_all
    then show ?thesis using wroteD(6) [OF t(2)] by (simp add: copies_fst)
  qed
  have hf: "h k \<noteq> ?fr" using hk(2) frn by metis
  have nd: "\<not> dirty_block t ?fr" using d [of ?fr] Suc.prems wroteD(6) [OF t(2)] by simp
  have "\<exists>u :: 'a wmach_scheme. install_one k t = Ret () u \<and> wrote [(h k, content t ?fr)] t u"
    using install_one_run [OF wrote_log_ok [OF t(2) ok], of k] lg hk Suc.prems r nd hf by (simp add: h_def lg_def)
  then obtain u :: "'a wmach_scheme" where
    u: "install_one k t = Ret () u" "wrote [(h k, content s ?fr)] t u" using ck by auto
  have "wrote (home_copies (l_start lg) (Suc k) h (content s)) s u"
    using wrote_trans [OF t(2) u(2)] by (simp only: copies_Suc)
  then show ?case using t(1) u(1) by (auto simp: kfor_append kseq_run)
qed

section \<open>The header block\<close>

definition put_head :: "logheader \<Rightarrow> uchar list \<Rightarrow> uchar list" where
  "put_head lh d = fold (\<lambda>i d. put32 d (4 + 4 * i) (of_nat (lh_block lh i))) [0..<nat (lh_n lh)]
     (put32 d 0 (of_int (lh_n lh)))"

lemma put_head_loop:
  "4 + 4 * n \<le> length d \<Longrightarrow>
     (let e = fold (\<lambda>i d. put32 d (4 + 4 * i) (of_nat (h i))) [0..<n] (put32 d 0 v) in
      length e = length d \<and> get32 e 0 = v \<and> (\<forall>i<n. get32 e (4 + 4 * i) = of_nat (h i)))"
proof (induction n)
  case (Suc n)
  let ?e = "fold (\<lambda>i d. put32 d (4 + 4 * i) (of_nat (h i))) [0..<n] (put32 d 0 v)"
  have e: "length ?e = length d" "get32 ?e 0 = v" "\<And>i. i < n \<Longrightarrow> get32 ?e (4 + 4 * i) = of_nat (h i)"
    using Suc by (auto simp: Let_def)
  have "get32 (put32 ?e (4 + 4 * n) (of_nat (h n))) (4 + 4 * i) = of_nat (h i)" if "i < Suc n" for i
    using that e Suc.prems by (cases "i = n") (auto simp: get32_put32_other)
  then show ?case using e Suc.prems by (simp add: Let_def get32_put32_other)
qed simp

lemma put_head:
  assumes "length d = BSIZE" "nat (lh_n lh) \<le> LOGSIZE"
  shows "length (put_head lh d) = BSIZE" "get32 (put_head lh d) 0 = of_int (lh_n lh)"
    "i < nat (lh_n lh) \<Longrightarrow> get32 (put_head lh d) (4 + 4 * i) = of_nat (lh_block lh i)"
  using put_head_loop [of "nat (lh_n lh)" d "lh_block lh" "of_int (lh_n lh)"] assms
  by (auto simp: put_head_def Let_def BSIZE_def param_defs)

lemma set_data_same: "set_data b (b_data (st_bufs s b)) s = s" "set_data b e (set_data b d s) = set_data b e s"
  by (simp_all add: set_data_def)

lemma kfor_upd_data:
  "kfor (\<lambda>i. upd_buf b (\<lambda>x. x\<lparr>b_data := f i (b_data x)\<rparr>)) is s
     = Ret () (set_data b (fold f is (b_data (st_bufs s b))) s)"
  by (induction "is" arbitrary: s) (simp_all add: set_data_same kseq_run upd_data)

lemma write_head_run:
  fixes s :: "'a wmach_scheme"
  defines "lg \<equiv> st_log s"
  assumes ok: "log_ok s" and sz: "l_start lg < st_disksize s"
  shows "\<exists>t :: 'a wmach_scheme. write_head s = Ret () t
    \<and> wrote [(l_start lg, put_head (l_lh lg) (content s (l_start lg)))] s t"
proof -
  let ?n = "l_start lg" and ?d = "put_head (l_lh lg) (content s (l_start lg))"
  have inv: "cache_inv {} s" and room: "card {m. dirty_block s m} < NBUF" and dev: "l_dev lg = 1"
    using ok by (auto simp: log_ok_def lg_def)
  obtain b and s1 :: "'a wmach_scheme" where
    1: "bread 1 ?n s = Ret b s1" "cache_inv (insert b {}) s1" "bio_step s s1" "b_blockno (st_bufs s1 b) = ?n"
      "b_data (st_bufs s1 b) = content s ?n" "\<And>m. content s1 m = content s m" "\<And>m. dirty_block s1 m = dirty_block s m"
      "st_disk s1 = st_disk s" "st_dwrites s1 = st_dwrites s"
    using room by - (rule bread_spec [OF inv sz], auto)
  define s2 where "s2 = set_data b ?d s1"
  have inv2: "cache_inv {b} s2" unfolding s2_def by (rule changed_inv(1)) (use 1 in auto)
  have c2: "content s2 m = (if m = ?n then ?d else content s m)" "dirty_block s2 m = dirty_block s m" for m
    unfolding s2_def using changed_content(1) [OF 1(2), of b] changed_dirty(1) [OF 1(2), of b] 1 by auto
  have sz2: "st_disksize s2 = st_disksize s" using bio_step_rest(1) [OF 1(3)] by (simp add: s2_def)
  obtain s3 :: "'a wmach_scheme" where
    3: "bwrite b s2 = Ret () s3" "cache_inv {b} s3" "bio_step s2 s3" "\<And>m. content s3 m = content s2 m"
      "\<And>m. dirty_block s3 m \<longleftrightarrow> dirty_block s m \<and> m \<noteq> ?n"
      "st_disk s3 = (st_disk s)(?n := ?d)" "st_dwrites s3 = st_dwrites s @ [(?n, ?d)]"
      "b_data (st_bufs s3 b) = ?d" "b_blockno (st_bufs s3 b) = ?n"
    by (rule bwrite_spec [OF inv2, of b]) (use sz sz2 1 c2 in \<open>auto simp: s2_def\<close>)
  obtain t :: "'a wmach_scheme" where
    4: "brelse b s3 = Ret () t" "cache_inv ({b} - {b}) t" "bio_step s3 t" "\<And>m. content t m = content s3 m"
      "\<And>m. dirty_block t m = dirty_block s3 m" "st_disk t = st_disk s3" "st_dwrites t = st_dwrites s3"
    by (rule brelse_spec [OF 3(2), of b]) (use 3 in auto)
  have "write_head s = Ret () t"
    using 1(1,5) 3(1) 4(1) dev kfor_upd_data [of b "\<lambda>i d. put32 d (4 + 4 * i) (of_nat (lh_block (l_lh lg) i))"
        "[0..<nat (lh_n (l_lh lg))]" "set_data b (put32 (content s (l_start lg)) 0 (of_int (lh_n (l_lh lg)))) s1"]
    by (simp add: write_head_def kbind_run kseq_run upd_data set_data_same flip: lg_def)
      (simp add: s2_def put_head_def kseq_run)
  moreover have "bio_step s t"
    using 1(3) bio_step_ops(2) [of s1 b ?d] 3(3) 4(3) bio_step_trans unfolding s2_def by metis
  ultimately show ?thesis using 4 3 c2 by (auto simp: wrote_def)
qed

section \<open>Commit\<close>

text \<open>What a transaction that is ready to commit looks like.\<close>

definition commit_ready :: "'a wmach_scheme \<Rightarrow> bool" where
  "commit_ready s \<longleftrightarrow> log_ok s \<and> (let lg = st_log s; n = nat (lh_n (l_lh lg)); h = lh_block (l_lh lg) in
     0 < lh_n (l_lh lg) \<and> n \<le> LOGSIZE \<and> log_area (l_start lg) n h (st_disksize s) \<and> inj_on h {..<n}
     \<and> {m. dirty_block s m} = h ` {..<n} \<and> length (content s (l_start lg)) = BSIZE)"

text \<open>The writes of a commit, in order: the log, the header, the home blocks, the empty header.\<close>

definition commit_writes :: "nat \<Rightarrow> logheader \<Rightarrow> (nat \<Rightarrow> uchar list) \<Rightarrow> (nat \<times> uchar list) list" where
  "commit_writes start lh c = (let n = nat (lh_n lh); h = lh_block lh; d = put_head lh (c start) in
     map (\<lambda>i. (start + i + 1, c (h i))) [0..<n] @ [(start, d)] @ map (\<lambda>i. (h i, c (h i))) [0..<n]
     @ [(start, put_head (lh\<lparr>lh_n := 0\<rparr>) d)])"

lemma apply_log_copies: "i < n \<Longrightarrow> apply_writes (log_copies start n h c) d (start + i + 1) = c (h i)"
  by (induction n) (auto simp: copies_Suc less_Suc_eq)

lemma cache_inv_log [simp]:
  fixes s :: "'a wmach_scheme"
  shows "cache_inv H (s\<lparr>st_log := x\<rparr>) = cache_inv H s" "content (s\<lparr>st_log := x\<rparr>) = content s"
    "dirty_block (s\<lparr>st_log := x\<rparr>) = dirty_block s"
proof -
  have c: "cached (s\<lparr>st_log := x\<rparr>) = cached s" by (simp add: cached_def fun_eq_iff)
  have p: "my_pid (s\<lparr>st_log := x\<rparr>) = my_pid s" by (simp add: my_pid_def procp_def split: option.splits)
  show "cache_inv H (s\<lparr>st_log := x\<rparr>) = cache_inv H s" "content (s\<lparr>st_log := x\<rparr>) = content s"
    "dirty_block (s\<lparr>st_log := x\<rparr>) = dirty_block s"
    by (simp_all add: cache_inv_def buf_inv_def content_def dirty_block_def fun_eq_iff c p Let_def split: option.splits)
qed

lemma bio_step_upd_log: "bio_step s t \<Longrightarrow> bio_step (s\<lparr>st_log := x\<rparr>) (t\<lparr>st_log := x\<rparr>)"
  unfolding bio_step_def by (erule conjE, rule conjI, erule ssubst) simp_all

lemma wrote_upd_log: "wrote ws s t \<Longrightarrow> wrote ws (s\<lparr>st_log := x\<rparr>) (t\<lparr>st_log := x\<rparr>)"
  using bio_step_upd_log [of s t x] by (simp add: wrote_def)

lemma commit_readyD:
  assumes "commit_ready s"
  defines "lg \<equiv> st_log s"
  shows "log_ok s" "0 < lh_n (l_lh lg)" "nat (lh_n (l_lh lg)) \<le> LOGSIZE"
    "log_area (l_start lg) (nat (lh_n (l_lh lg))) (lh_block (l_lh lg)) (st_disksize s)"
    "inj_on (lh_block (l_lh lg)) {..<nat (lh_n (l_lh lg))}"
    "\<And>i. i < nat (lh_n (l_lh lg)) \<Longrightarrow> dirty_block s (lh_block (l_lh lg) i)"
    "\<And>m. m \<in> {l_start lg..l_start lg + nat (lh_n (l_lh lg))} \<Longrightarrow> \<not> dirty_block s m"
    "length (content s (l_start lg)) = BSIZE"
proof -
  let ?n = "nat (lh_n (l_lh lg))" and ?h = "lh_block (l_lh lg)"
  have c: "log_ok s" "0 < lh_n (l_lh lg)" "?n \<le> LOGSIZE" "log_area (l_start lg) ?n ?h (st_disksize s)" "inj_on ?h {..<?n}"
    "{m. dirty_block s m} = ?h ` {..<?n}" "length (content s (l_start lg)) = BSIZE"
    using assms(1) by (simp_all add: commit_ready_def Let_def lg_def)
  have d: "dirty_block s m \<longleftrightarrow> m \<in> ?h ` {..<?n}" for m using c(6) by blast
  show "log_ok s" "0 < lh_n (l_lh lg)" "?n \<le> LOGSIZE" "log_area (l_start lg) ?n ?h (st_disksize s)" "inj_on ?h {..<?n}"
    "length (content s (l_start lg)) = BSIZE" using c by simp_all
  show "dirty_block s (?h i)" if "i < ?n" for i using that by (simp add: d)
  show "\<not> dirty_block s m" if "m \<in> {l_start lg..l_start lg + ?n}" for m
    using that c(4) unfolding d log_area_def by blast
qed

lemma commit_run:
  fixes s :: "'a wmach_scheme"
  defines "lg \<equiv> st_log s"
  assumes r: "commit_ready s"
  shows "\<exists>t :: 'a wmach_scheme. commit s = Ret () t
    \<and> wrote (commit_writes (l_start lg) (l_lh lg) (content s)) (s\<lparr>st_log := lg\<lparr>l_lh := (l_lh lg)\<lparr>lh_n := 0\<rparr>\<rparr>\<rparr>) t"
proof -
  let ?n = "nat (lh_n (l_lh lg))" and ?h = "lh_block (l_lh lg)" and ?a = "l_start lg" and ?c = "content s"
  note c = commit_readyD [OF r, folded lg_def]
  let ?L = "log_copies ?a ?n ?h ?c" and ?d = "put_head (l_lh lg) (?c ?a)"
  obtain s1 :: "'a wmach_scheme" where 1: "kfor write_log_one [0..<?n] s = Ret () s1" "wrote ?L s s1"
    using write_log_loop [OF c(1), of ?n ?n] c(4,6,7) by (auto simp: lg_def)
  have lg1: "st_log s1 = lg" "st_disksize s1 = st_disksize s" "log_ok s1"
    using bio_step_log [OF wroteD(2) [OF 1(2)]] wroteD(7) [OF 1(2)] wrote_log_ok [OF 1(2) c(1)] by (simp_all add: lg_def)
  have as: "?a < st_disksize s" using c(4) by (simp add: log_area_def)
  have ca: "content s1 ?a = ?c ?a" using wroteD(3) [OF 1(2)] by (simp add: apply_writes_other copies_fst)
  obtain s2 :: "'a wmach_scheme" where 2: "write_head s1 = Ret () s2" "wrote [(?a, ?d)] s1 s2"
    using write_head_run [OF lg1(3)] lg1 as ca by auto
  note w2 = wrote_trans [OF 1(2) 2(2)]
  have lg2: "st_log s2 = lg" "st_disksize s2 = st_disksize s" "log_ok s2"
    using bio_step_log [OF wroteD(2) [OF w2]] wroteD(7) [OF w2] wrote_log_ok [OF w2 c(1)] by (simp_all add: lg_def)
  have c2: "content s2 (?a + i + 1) = ?c (?h i)" if "i < ?n" for i
    using wroteD(3) [OF w2] that apply_log_copies [OF that, of ?a ?h ?c ?c] by simp
  have d2: "dirty_block s2 m \<longleftrightarrow> dirty_block s m" for m
    using wroteD(6) [OF w2, of m] c(7) [of m] by (auto simp: copies_fst)
  let ?H = "map (\<lambda>i. (?h i, ?c (?h i))) [0..<?n]"
  have H: "home_copies ?a ?n ?h (content s2) = ?H" using c2 by (simp add: home_copies_def)
  obtain s3 :: "'a wmach_scheme" where 3: "kfor install_one [0..<?n] s2 = Ret () s3" "wrote ?H s2 s3"
    using install_loop [OF lg2(3), of ?n ?n] c(4,5,6,7) lg2 d2 H by auto
  note w3 = wrote_trans [OF w2 3(2)]
  let ?lg0 = "lg\<lparr>l_lh := (l_lh lg)\<lparr>lh_n := 0\<rparr>\<rparr>"
  let ?s0 = "s\<lparr>st_log := ?lg0\<rparr>" and ?s3 = "s3\<lparr>st_log := ?lg0\<rparr>"
  have lg3: "st_log s3 = lg" "st_disksize s3 = st_disksize s" "log_ok ?s3"
    using bio_step_log [OF wroteD(2) [OF w3]] wroteD(7) [OF w3] wrote_log_ok [OF w3 c(1)] by (simp_all add: lg_def log_ok_def)
  have "?a \<notin> fst ` set ?H" using c(4) by (auto simp: log_area_def)
  then have c3: "content s3 ?a = ?d" using wroteD(3) [OF w3] by (simp add: apply_writes_other)
  obtain t :: "'a wmach_scheme" where
    4: "write_head ?s3 = Ret () t" "wrote [(?a, put_head ((l_lh lg)\<lparr>lh_n := 0\<rparr>) ?d)] ?s3 t"
    using write_head_run [OF lg3(3)] lg3 as c3 by auto
  have "commit s = Ret () t"
    using 1(1) 2(1) 3(1) 4(1) lg2 lg3 c(2) unfolding lg_def
    by (simp add: commit_def write_log_def install_trans_def upd_log_def kbind_run kseq_run kwhen_run)
  moreover have "wrote (commit_writes ?a (l_lh lg) ?c) ?s0 t"
    using wrote_trans [OF wrote_upd_log [OF w3] 4(2)] by (simp add: commit_writes_def log_copies_def Let_def)
  ultimately show ?thesis by blast
qed

section \<open>Recovery\<close>

definition get_head :: "uchar list \<Rightarrow> logheader \<Rightarrow> logheader" where
  "get_head d lh = lh\<lparr>lh_n := sint (get32 d 0), lh_block := (\<lambda>i. if i < nat (sint (get32 d 0))
     then unat (get32 d (4 + 4 * i)) else lh_block lh i)\<rparr>"

lemma upd_log_run: "upd_log f s = Ret () (s\<lparr>st_log := f (st_log s)\<rparr>)"
  by (simp add: upd_log_def)

lemma kfor_upd_log: "kfor (\<lambda>i. upd_log (F i)) is s = Ret () (s\<lparr>st_log := fold F is (st_log s)\<rparr>)"
  by (induction "is" arbitrary: s) (simp_all add: upd_log_run kseq_run)

lemma fold_block:
  "fold (\<lambda>i l. l\<lparr>l_lh := (l_lh l)\<lparr>lh_block := (lh_block (l_lh l))(i := g i)\<rparr>\<rparr>) [0..<k] l
     = l\<lparr>l_lh := (l_lh l)\<lparr>lh_block := (\<lambda>i. if i < k then g i else lh_block (l_lh l) i)\<rparr>\<rparr>"
proof (induction k)
  case (Suc k)
  have "(\<lambda>i. if i < k then g i else lh_block (l_lh l) i)(k := g k)
      = (\<lambda>i. if i < Suc k then g i else lh_block (l_lh l) i)" by (auto simp: less_Suc_eq)
  then show ?case using Suc by (simp del: fun_upd_apply)
qed simp

lemma read_head_run:
  fixes s :: "'a wmach_scheme"
  defines "lg \<equiv> st_log s"
  assumes ok: "log_ok s" and sz: "l_start lg < st_disksize s" and nd: "\<not> dirty_block s (l_start lg)"
    and n: "sint (get32 (content s (l_start lg)) 0) \<le> int LOGSIZE"
  shows "\<exists>t :: 'a wmach_scheme. read_head s = Ret () t
    \<and> wrote [] (s\<lparr>st_log := lg\<lparr>l_lh := get_head (content s (l_start lg)) (l_lh lg)\<rparr>\<rparr>) t"
proof -
  let ?a = "l_start lg" and ?d = "content s (l_start lg)"
  let ?lg = "lg\<lparr>l_lh := get_head ?d (l_lh lg)\<rparr>"
  have inv: "cache_inv {} s" and room: "card {m. dirty_block s m} < NBUF" and dev: "l_dev lg = 1"
    using ok by (auto simp: log_ok_def lg_def)
  obtain b and s1 :: "'a wmach_scheme" where
    1: "bread 1 ?a s = Ret b s1" "cache_inv (insert b {}) s1" "bio_step s s1" "b_blockno (st_bufs s1 b) = ?a"
      "b_data (st_bufs s1 b) = ?d" "\<And>m. content s1 m = content s m" "\<And>m. dirty_block s1 m = dirty_block s m"
      "st_disk s1 = st_disk s" "st_dwrites s1 = st_dwrites s"
    using room by - (rule bread_spec [OF inv sz], auto)
  have lg1: "st_log s1 = lg" using bio_step_log [OF 1(3)] by (simp add: lg_def)
  have d: "?d = st_disk s ?a" by (rule clean_content [OF inv nd])
  obtain t :: "'a wmach_scheme" where
    2: "brelse b (s1\<lparr>st_log := ?lg\<rparr>) = Ret () t" "cache_inv ({b} - {b}) t" "bio_step (s1\<lparr>st_log := ?lg\<rparr>) t"
      "\<And>m. content t m = content s1 m" "\<And>m. dirty_block t m = dirty_block s1 m"
      "st_disk t = st_disk s1" "st_dwrites t = st_dwrites s1"
    by (rule brelse_spec [of "{b}" "s1\<lparr>st_log := ?lg\<rparr>" b]) (use 1 d in auto)
  have "bio_step (s\<lparr>st_log := ?lg\<rparr>) t"
    using bio_step_upd_log [OF 1(3)] 2(3) bio_step_trans by blast
  then have "wrote [] (s\<lparr>st_log := ?lg\<rparr>) t" using 1 2 by (auto simp: wrote_def)
  moreover have "read_head s = Ret () t"
    using 1(1,5) 2(1) dev n lg1 unfolding lg_def
    by (simp add: read_head_def kbind_run kseq_run getbuf_def Let_def upd_log_run kfor_upd_log fold_block get_head_def cong: if_cong)
  ultimately show ?thesis by blast
qed

text \<open>The header of a disk, and what recovery makes of a disk.\<close>

definition head_of :: "nat \<Rightarrow> (nat \<Rightarrow> uchar list) \<Rightarrow> nat list" where
  "head_of start d = map (\<lambda>i. unat (get32 (d start) (4 + 4 * i))) [0..<nat (sint (get32 (d start) 0))]"

definition recover_writes :: "nat \<Rightarrow> (nat \<Rightarrow> uchar list) \<Rightarrow> (nat \<times> uchar list) list" where
  "recover_writes start d = home_copies start (length (head_of start d)) (\<lambda>i. head_of start d ! i) d
     @ [(start, put32 (d start) 0 0)]"

text \<open>A kernel that has just booted: nothing in the cache waits to be written.\<close>

definition booted :: "nat \<Rightarrow> 'a wmach_scheme \<Rightarrow> bool" where
  "booted start s \<longleftrightarrow> cache_inv {} s \<and> (\<forall>m. \<not> dirty_block s m) \<and> l_dev (st_log s) = 1 \<and> l_start (st_log s) = start"

definition head_ok :: "nat \<Rightarrow> (nat \<Rightarrow> uchar list) \<Rightarrow> nat \<Rightarrow> bool" where
  "head_ok start d sz \<longleftrightarrow> length (d start) = BSIZE \<and> sint (get32 (d start) 0) \<le> int LOGSIZE
     \<and> log_area start (length (head_of start d)) (\<lambda>i. head_of start d ! i) sz"

lemma recover_run:
  fixes s :: "'a wmach_scheme"
  assumes b: "booted start s" and h: "head_ok start (st_disk s) (st_disksize s)"
  shows "\<exists>t :: 'a wmach_scheme. recover_from_log s = Ret () t
    \<and> st_disk t = apply_writes (recover_writes start (st_disk s)) (st_disk s)
    \<and> cache_inv {} t \<and> (\<forall>m. \<not> dirty_block t m) \<and> lh_n (l_lh (st_log t)) = 0"
proof -
  let ?d = "st_disk s" and ?lg = "st_log s" and ?n = "length (head_of start (st_disk s))"
  have D: "{m. dirty_block s m} = {}" and cd: "content s = ?d" and st: "l_start ?lg = start"
    using b clean_content [of s] by (auto simp: booted_def fun_eq_iff)
  have ok: "log_ok s" using b D by (simp add: booted_def log_ok_def param_defs)
  have as: "start < st_disksize s" using h by (simp add: head_ok_def log_area_def)
  let ?lh = "get_head (?d start) (l_lh ?lg)"
  let ?s1 = "s\<lparr>st_log := ?lg\<lparr>l_lh := ?lh\<rparr>\<rparr>"
  have nn: "nat (lh_n ?lh) = ?n" by (simp add: get_head_def head_of_def)
  have hb: "lh_block ?lh i = head_of start ?d ! i" if "i < ?n" for i
    using that by (simp add: get_head_def head_of_def)
  obtain t1 :: "'a wmach_scheme" where 1: "read_head s = Ret () t1" "wrote [] ?s1 t1"
    using read_head_run [OF ok] b h as cd st by (auto simp: booted_def head_ok_def)
  have lg1: "st_log t1 = ?lg\<lparr>l_lh := ?lh\<rparr>" "st_disksize t1 = st_disksize s" "log_ok t1" "content t1 = ?d"
      "{m. dirty_block t1 m} = {}"
    using bio_step_log [OF wroteD(2) [OF 1(2)]] wroteD(7) [OF 1(2)] wrote_log_ok [OF 1(2)] wroteD(3,6) [OF 1(2)] ok cd D
    by (simp_all add: log_ok_def)
  have nd1: "\<not> dirty_block t1 m" for m using lg1(5) by blast
  have area: "log_area start ?n (lh_block ?lh) (st_disksize s)" using h hb by (simp add: head_ok_def log_area_def)
  have hc: "home_copies start ?n (lh_block ?lh) ?d = home_copies start ?n (\<lambda>i. head_of start ?d ! i) ?d"
    using hb by (simp add: home_copies_def)
  obtain t2 :: "'a wmach_scheme" where
    2: "kfor install_one [0..<?n] t1 = Ret () t2" "wrote (home_copies start ?n (\<lambda>i. head_of start ?d ! i) ?d) t1 t2"
    using install_loop [OF lg1(3), of ?n ?n] lg1 area nd1 st hc by (auto simp: param_defs)
  let ?lg0 = "?lg\<lparr>l_lh := ?lh\<lparr>lh_n := 0\<rparr>\<rparr>"
  let ?t3 = "t2\<lparr>st_log := ?lg0\<rparr>"
  have lg2: "st_log t2 = ?lg\<lparr>l_lh := ?lh\<rparr>" "st_disksize t2 = st_disksize s" "log_ok ?t3" "\<not> dirty_block t2 m" for m
    using bio_step_log [OF wroteD(2) [OF 2(2)]] wroteD(6,7) [OF 2(2)] wrote_log_ok [OF 2(2) lg1(3)] lg1 nd1
    by (simp_all add: log_ok_def)
  have "start \<notin> fst ` set (home_copies start ?n (\<lambda>i. head_of start ?d ! i) ?d)"
    using h unfolding copies_fst head_ok_def log_area_def by auto
  then have c2: "content t2 start = ?d start" using wroteD(3) [OF 2(2)] lg1 by (simp add: apply_writes_other)
  obtain t :: "'a wmach_scheme" where 3: "write_head ?t3 = Ret () t" "wrote [(start, put32 (?d start) 0 0)] ?t3 t"
    using write_head_run [OF lg2(3)] lg2 as st c2 by (auto simp: put_head_def)
  have run: "recover_from_log s = Ret () t"
    using 1(1) 2(1) 3(1) lg1 lg2 nn by (simp add: recover_from_log_def install_trans_def upd_log_run kbind_run kseq_run)
  have "st_disk t = apply_writes (recover_writes start ?d) ?d"
    using wroteD(4) [OF 3(2)] wroteD(4) [OF 2(2)] wroteD(4) [OF 1(2)] by (simp add: recover_writes_def)
  moreover have "\<not> dirty_block t m" for m using wroteD(6) [OF 3(2)] lg2(4) by simp
  moreover have "lh_n (l_lh (st_log t)) = 0" using bio_step_log [OF wroteD(2) [OF 3(2)]] by simp
  ultimately show ?thesis using run wroteD(1) [OF 3(2)] by blast
qed

section \<open>Crashes\<close>

lemma apply_home:
  "apply_writes (map (\<lambda>i. (h i, c (h i))) is) d m = (if m \<in> h ` set is then c m else d m)"
  by (induction "is" arbitrary: d) auto

lemma head_empty:
  "sint (get32 (d start) 0) \<le> 0 \<Longrightarrow> head_of start d = []"
  by (simp add: head_of_def)

lemma head_put:
  assumes "d start = put_head lh e" "length e = BSIZE" "0 \<le> lh_n lh" "nat (lh_n lh) \<le> LOGSIZE"
    "\<And>i. i < nat (lh_n lh) \<Longrightarrow> lh_block lh i < 2 ^ 32"
  shows "sint (get32 (d start) 0) = lh_n lh" "head_of start d = map (lh_block lh) [0..<nat (lh_n lh)]"
proof -
  have "sint (of_int (lh_n lh) :: uint) = lh_n lh"
    using assms(3,4) by (simp add: sint_sbintrunc' signed_take_bit_int_eq_self param_defs)
  then show n: "sint (get32 (d start) 0) = lh_n lh" using put_head(2) [OF assms(2,4)] assms(1) by simp
  have "unat (get32 (d start) (4 + 4 * i)) = lh_block lh i" if "i < nat (lh_n lh)" for i
    using put_head(3) [OF assms(2,4) that] assms(1) assms(5) [OF that] by (simp add: unat_of_nat)
  then show "head_of start d = map (lh_block lh) [0..<nat (lh_n lh)]" by (simp add: head_of_def n)
qed

text \<open>
  The disk after the first \<open>k\<close> writes of a commit, in the three phases: before the header is
  written, up to the last home block, and after the header is cleared.
\<close>

lemma crash_before:
  fixes a :: nat and c d :: "nat \<Rightarrow> uchar list" and lh :: logheader
  assumes "k \<le> nat (lh_n lh)"
  defines "D \<equiv> apply_writes (take k (commit_writes a lh c)) d"
  shows "D a = d a" "m \<notin> {a..a + nat (lh_n lh)} \<Longrightarrow> D m = d m"
proof -
  let ?n = "nat (lh_n lh)"
  let ?ws = "take k (map (\<lambda>i. (a + i + 1, c (lh_block lh i))) [0..<?n])"
  have t: "D = apply_writes ?ws d" using assms(1) by (simp add: D_def commit_writes_def Let_def)
  have "fst ` set ?ws \<subseteq> {a + 1..a + ?n}" by (auto dest!: in_set_takeD)
  then have "m \<notin> {a + 1..a + ?n} \<Longrightarrow> D m = d m" for m unfolding t by (blast intro: apply_writes_other)
  then show "D a = d a" "m \<notin> {a..a + ?n} \<Longrightarrow> D m = d m" by auto
qed

lemma crash_after:
  fixes a :: nat and c d :: "nat \<Rightarrow> uchar list" and lh :: logheader
  assumes "nat (lh_n lh) < k" "k \<le> 2 * nat (lh_n lh) + 1"
    and h: "\<And>i. i < nat (lh_n lh) \<Longrightarrow> lh_block lh i \<notin> {a..a + nat (lh_n lh)}"
  defines "D \<equiv> apply_writes (take k (commit_writes a lh c)) d"
  shows "D a = put_head lh (c a)" "i < nat (lh_n lh) \<Longrightarrow> D (a + i + 1) = c (lh_block lh i)"
    "m \<notin> {a..a + nat (lh_n lh)} \<Longrightarrow> m \<notin> lh_block lh ` {..<nat (lh_n lh)} \<Longrightarrow> D m = d m"
proof -
  let ?n = "nat (lh_n lh)" and ?h = "lh_block lh"
  let ?L = "log_copies a ?n ?h c" and ?H = "map (\<lambda>i. (?h i, c (?h i))) [0..<?n]" and ?j = "k - ?n - 1"
  have k: "k = ?n + 1 + ?j" "?j \<le> ?n" using assms(1,2) by simp_all
  have "take k (commit_writes a lh c) = ?L @ [(a, put_head lh (c a))] @ take ?j ?H"
    by (subst k(1)) (use k(2) in \<open>simp add: commit_writes_def Let_def log_copies_def\<close>)
  then have D: "D = apply_writes (map (\<lambda>i. (?h i, c (?h i))) [0..<?j]) ((apply_writes ?L d)(a := put_head lh (c a)))"
    using k(2) by (simp add: D_def take_map)
  have nh: "x \<notin> ?h ` {..<?j}" if "x \<in> {a..a + ?n}" for x using h that k(2) by force
  show "D a = put_head lh (c a)" using nh [of a] by (simp add: D apply_home atLeast0LessThan)
  show "i < ?n \<Longrightarrow> D (a + i + 1) = c (?h i)"
    using nh [of "a + i + 1"] apply_log_copies [of i ?n a ?h c d] by (simp add: D apply_home atLeast0LessThan)
  show "m \<notin> {a..a + ?n} \<Longrightarrow> m \<notin> ?h ` {..<?n} \<Longrightarrow> D m = d m"
    using k(2) by (auto simp: D apply_home atLeast0LessThan apply_writes_other copies_fst)
qed

lemma crash_done:
  fixes a :: nat and c d :: "nat \<Rightarrow> uchar list" and lh :: logheader
  assumes "length (commit_writes a lh c) \<le> k"
    and h: "\<And>i. i < nat (lh_n lh) \<Longrightarrow> lh_block lh i \<notin> {a..a + nat (lh_n lh)}"
  defines "D \<equiv> apply_writes (take k (commit_writes a lh c)) d"
  shows "D a = put_head (lh\<lparr>lh_n := 0\<rparr>) (put_head lh (c a))"
    "m \<notin> {a..a + nat (lh_n lh)} \<Longrightarrow> D m = (if m \<in> lh_block lh ` {..<nat (lh_n lh)} then c m else d m)"
proof -
  let ?n = "nat (lh_n lh)"
  have D: "D = (apply_writes (map (\<lambda>i. (lh_block lh i, c (lh_block lh i))) [0..<?n])
      ((apply_writes (log_copies a ?n (lh_block lh) c) d)(a := put_head lh (c a))))
      (a := put_head (lh\<lparr>lh_n := 0\<rparr>) (put_head lh (c a)))"
    using assms(1) by (simp add: D_def commit_writes_def Let_def log_copies_def)
  show "D a = put_head (lh\<lparr>lh_n := 0\<rparr>) (put_head lh (c a))" by (simp add: D)
  show "m \<notin> {a..a + ?n} \<Longrightarrow> D m = (if m \<in> lh_block lh ` {..<?n} then c m else d m)"
    by (auto simp: D apply_home atLeast0LessThan apply_writes_other copies_fst)
qed

lemma recovered_empty: "head_of a D = [] \<Longrightarrow> m \<noteq> a \<Longrightarrow> apply_writes (recover_writes a D) D m = D m"
  by (simp add: recover_writes_def copies_Suc)

lemma recovered_full:
  assumes "head_of a D = map h [0..<n]" "\<And>i. i < n \<Longrightarrow> D (a + i + 1) = c (h i)" "m \<noteq> a"
  shows "apply_writes (recover_writes a D) D m = (if m \<in> h ` {..<n} then c m else D m)"
proof -
  have "home_copies a n (\<lambda>i. head_of a D ! i) D = map (\<lambda>i. (h i, c (h i))) [0..<n]"
    using assms(1,2) by (simp add: home_copies_def)
  then show ?thesis using assms(1,3) by (simp add: recover_writes_def apply_home atLeast0LessThan)
qed

lemma crash_recovers:
  fixes a n :: nat and c d :: "nat \<Rightarrow> uchar list" and lh :: logheader
  defines "n \<equiv> nat (lh_n lh)"
  assumes lh: "0 < lh_n lh" "n \<le> LOGSIZE" and area: "log_area a n (lh_block lh) sz" and sz: "sz \<le> 2 ^ 32"
    and e: "sint (get32 (d a) 0) = 0" and len: "length (d a) = BSIZE" and ca: "c a = d a"
    and cd: "\<And>m. m \<notin> lh_block lh ` {..<n} \<Longrightarrow> c m = d m"
  defines "D \<equiv> \<lambda>k. apply_writes (take k (commit_writes a lh c)) d"
  shows "head_ok a (D k) sz \<and> (\<forall>m. m \<notin> {a..a + n} \<longrightarrow>
      apply_writes (recover_writes a (D k)) (D k) m = (if k \<le> n then d m else c m))"
proof -
  let ?h = "lh_block lh"
  have h: "?h i \<notin> {a..a + n}" "?h i < 2 ^ 32" if "i < n" for i using area that sz by (auto simp: log_area_def)
  have az: "log_area a 0 f sz" for f using area by (simp add: log_area_def)
  have hl: "length (put_head lh (c a)) = BSIZE" using put_head(1) [of "c a" lh] len lh ca by (simp add: n_def)
  consider "k \<le> n" | "n < k" "k \<le> 2 * n + 1" | "2 * n + 2 \<le> k" by linarith
  then show ?thesis
  proof cases
    case 1
    note b = crash_before [OF 1 [unfolded n_def], where a = a and c = c and d = d, folded n_def]
    have he: "head_of a (D k) = []" using b(1) e by (simp add: head_empty D_def)
    have "head_ok a (D k) sz" using b(1) len e he az by (simp add: head_ok_def D_def)
    moreover have "apply_writes (recover_writes a (D k)) (D k) m = d m" if "m \<notin> {a..a + n}" for m
      using recovered_empty [OF he, of m] b(2) [of m] that by (auto simp: D_def)
    ultimately show ?thesis using 1 by simp
  next
    case 2
    note b = crash_after [OF 2 [unfolded n_def] h(1) [unfolded n_def], where c = c and d = d, folded n_def]
    have he: "sint (get32 (D k a) 0) = lh_n lh" "head_of a (D k) = map ?h [0..<n]"
      using head_put [of "D k" a lh "c a"] b(1) len lh ca h(2) by (simp_all add: n_def D_def)
    have "log_area a n (\<lambda>i. map ?h [0..<n] ! i) sz" using area by (simp add: log_area_def)
    then have "head_ok a (D k) sz" using b(1) hl he lh by (simp add: head_ok_def n_def D_def)
    moreover have "apply_writes (recover_writes a (D k)) (D k) m = c m" if m: "m \<notin> {a..a + n}" for m
      using recovered_full [OF he(2), of c m] b(2) b(3) [of m] m cd [of m] by (auto simp: D_def)
    ultimately show ?thesis using 2 by simp
  next
    case 3
    have k: "length (commit_writes a lh c) \<le> k" using 3 by (simp add: commit_writes_def Let_def n_def)
    note b = crash_done [OF k h(1) [unfolded n_def], where d = d, folded n_def]
    let ?l0 = "lh\<lparr>lh_n := 0\<rparr>"
    have z: "sint (get32 (D k a) 0) = 0" "head_of a (D k) = []" "length (D k a) = BSIZE"
      using head_put [of "D k" a ?l0 "put_head lh (c a)"] put_head(1) [of "put_head lh (c a)" ?l0] b(1) hl
      by (simp_all add: D_def)
    have "head_ok a (D k) sz" using z az by (simp add: head_ok_def)
    moreover have "apply_writes (recover_writes a (D k)) (D k) m = c m" if m: "m \<notin> {a..a + n}" for m
      using recovered_empty [OF z(2), of m] b(2) [of m] m cd [of m] by (auto simp: D_def)
    ultimately show ?thesis using 3 by simp
  qed
qed

section \<open>Properties\<close>

text \<open>
  C2. Commit is atomic with respect to crashes. For a transaction that is ready to commit, \<open>commit\<close>
  returns, the disk then holds the newest contents of every block outside the log, and if the
  machine stops after any number of the disk writes commit makes, then the recovery that the next
  boot runs returns and leaves on the disk, outside the log, either every block as it was before the
  transaction (a crash before the header is written) or every block with the transaction's contents
  (a crash after it), never a mixture.
\<close>

theorem commit_crash_atomic:
  fixes s :: "'a wmach_scheme"
  defines "a \<equiv> l_start (st_log s)" and "n \<equiv> nat (lh_n (l_lh (st_log s)))"
  assumes c: "commit_ready s" and sz: "st_disksize s \<le> 2 ^ 32" and e: "sint (get32 (st_disk s a) 0) = 0"
  shows "\<exists>t ws. commit s = Ret () t \<and> st_dwrites t = st_dwrites s @ ws
    \<and> (\<forall>m. m \<notin> {a..a + n} \<longrightarrow> st_disk t m = content s m)
    \<and> (\<forall>k (r :: 'b wmach_scheme). booted a r \<and> st_disksize r = st_disksize s
         \<and> st_disk r = apply_writes (take k ws) (st_disk s) \<longrightarrow>
         (\<exists>r'. recover_from_log r = Ret () r' \<and> (\<forall>m. m \<notin> {a..a + n} \<longrightarrow>
            st_disk r' m = (if k \<le> n then st_disk s m else content s m))))"
proof -
  let ?lh = "l_lh (st_log s)" and ?c = "content s" and ?d = "st_disk s"
  let ?ws = "commit_writes a ?lh ?c"
  note r = commit_readyD [OF c, folded a_def n_def]
  have inv: "cache_inv {} s" using r(1) by (simp add: log_ok_def)
  have ca: "?c a = ?d a" "length (?d a) = BSIZE" using clean_content [OF inv, of a] r(7,8) by auto
  have D: "{m. dirty_block s m} = lh_block ?lh ` {..<n}" using c by (simp add: commit_ready_def Let_def n_def)
  have cm: "?c m = ?d m" if "m \<notin> lh_block ?lh ` {..<n}" for m
    using clean_content [OF inv, of m] that unfolding D [symmetric] by simp
  note cr = crash_recovers [of ?lh a "st_disksize s" ?d ?c, folded n_def, OF r(2,3,4) sz e ca(2,1) cm]
  obtain t where t: "commit s = Ret () t" "wrote ?ws (s\<lparr>st_log := (st_log s)\<lparr>l_lh := ?lh\<lparr>lh_n := 0\<rparr>\<rparr>\<rparr>) t"
    using commit_run [OF c] by (auto simp: a_def)
  have h: "lh_block ?lh i \<notin> {a..a + nat (lh_n ?lh)}" if "i < nat (lh_n ?lh)" for i
    using r(4) that by (simp add: log_area_def n_def)
  have "st_disk t m = ?c m" if m: "m \<notin> {a..a + n}" for m
    using wroteD(4) [OF t(2)] crash_done(2) [OF order_refl h, of m ?c ?d] m cm [of m] by (auto simp: n_def)
  moreover have "\<exists>r'. recover_from_log q = Ret () r' \<and> (\<forall>m. m \<notin> {a..a + n} \<longrightarrow>
      st_disk r' m = (if k \<le> n then ?d m else ?c m))"
    if "booted a q" "st_disksize q = st_disksize s" "st_disk q = apply_writes (take k ?ws) ?d"
    for k and q :: "'b wmach_scheme"
    using recover_run [OF that(1)] cr [of k] that(2,3) by auto
  ultimately show ?thesis using t(1) wroteD(5) [OF t(2)] by (intro exI [of _ t] exI [of _ ?ws]) auto
qed

text \<open>An example: a cache without blocks, then the same with one block changed and logged.\<close>

definition ex_bufs :: "nat \<Rightarrow> buf" where
  "ex_bufs i = \<lparr>b_valid = False, b_dirty = False, b_dev = 0, b_blockno = 0, b_refcnt = 0, b_prev = (i + NBUF) mod Suc NBUF,
     b_next = Suc i mod Suc NBUF, b_qnext = None, b_data = []\<rparr>"

definition ex_wmach :: wmach where
  "ex_wmach = bmach.extend (ex_bmach\<lparr>st_bufs := ex_bufs, st_disk := (\<lambda>n. replicate 512 0)\<rparr>)
     (wmach.fields \<lparr>l_start = 2, l_size = 30, l_outstanding = 0, l_committing = False, l_dev = 1,
        l_lh = \<lparr>lh_n = 0, lh_block = (\<lambda>i. 0)\<rparr>\<rparr>)"

definition ex_trans :: wmach where
  "ex_trans = ex_wmach\<lparr>st_bufs := ex_bufs(0 := (ex_bufs 0)\<lparr>b_valid := True, b_dirty := True, b_dev := 1, b_blockno := 100,
       b_data := replicate 512 9\<rparr>),
     st_log := (st_log ex_wmach)\<lparr>l_lh := \<lparr>lh_n = 1, lh_block = (\<lambda>i. 100)\<rparr>\<rparr>\<rparr>"

lemma ex_wmach_mach: "mach.truncate ex_wmach = ex_mach"
  unfolding ex_bmach_mach [symmetric] by (simp add: ex_wmach_def mach.defs bmach.defs)

lemma ex_wmach_simps [simp]:
  "st_procs ex_wmach = st_procs ex_pmach" "m_cpus ex_wmach = m_cpus ex_pmach" "st_slocks ex_wmach = st_slocks ex_smach"
  "st_disk ex_wmach = (\<lambda>n. replicate 512 0)" "st_disksize ex_wmach = 1000" "st_dwrites ex_wmach = []"
  "st_bufs ex_wmach = ex_bufs"
  "st_log ex_wmach = \<lparr>l_start = 2, l_size = 30, l_outstanding = 0, l_committing = False, l_dev = 1,
        l_lh = \<lparr>lh_n = 0, lh_block = (\<lambda>i. 0)\<rparr>\<rparr>"
  using ex_bmach_simps(1-3) by (simp_all add: ex_wmach_def bmach.defs wmach.defs)

lemma ex_wmach_ok: "running 0 ex_wmach" "cpu_ok ex_wmach" "lock_free ex_wmach l"
proof -
  have "cur ex_wmach = 0" "cpu_ok ex_wmach" "lock_free ex_wmach l" for l
    using ex_mach_ok by (simp_all flip: ex_wmach_mach add: mach_truncate)
  then show "running 0 ex_wmach" "cpu_ok ex_wmach" "lock_free ex_wmach l"
    by (simp_all add: running_def two_cpus_def)
qed

lemma lseg_upt: "a \<le> c \<Longrightarrow> (\<And>i. a \<le> i \<Longrightarrow> i < c \<Longrightarrow> nxt i = Suc i) \<Longrightarrow> lseg nxt a [a..<c] c"
proof (induction "c - a" arbitrary: a)
  case (Suc k)
  then show ?case by (simp add: upt_conv_Cons)
qed simp

lemma ex_ring: "ring_bufs ex_bufs [0..<NBUF]"
proof -
  have "lseg (\<lambda>i. b_next (ex_bufs i)) 0 [0..<NBUF] NBUF"
    by (rule lseg_upt) (auto simp: ex_bufs_def)
  moreover have "Suc (x + NBUF) mod Suc NBUF = x" if "x < NBUF" for x
    using mod_add_self2 [of x "Suc NBUF"] that by simp
  ultimately show ?thesis by (auto simp: ring_bufs_def ring_def ex_bufs_def)
qed

lemma ex_wmach_cache:
  "cache_inv {} (ex_wmach\<lparr>st_disk := D\<rparr>)" "\<not> dirty_block (ex_wmach\<lparr>st_disk := D\<rparr>) m"
  using ex_ring ex_wmach_ok
  by (auto simp: cache_inv_def buf_inv_def Let_def cached_def ex_bufs_def dirty_block_def)

lemma ex_trans_ready: "commit_ready ex_trans" "content ex_trans 100 = replicate 512 9"
proof -
  have c: "cached ex_trans m i \<longleftrightarrow> i = 0 \<and> m = 100" for m i
    by (auto simp: cached_def ex_trans_def ex_bufs_def param_defs)
  have D: "{m. dirty_block ex_trans m} = {100}" by (simp add: dirty_block_def c) (simp add: ex_trans_def)
  have "buf_inv {} ex_trans i" for i by (simp add: buf_inv_def Let_def ex_trans_def ex_bufs_def)
  moreover have "\<exists>xs. ring_bufs (st_bufs ex_trans) xs"
    unfolding ex_trans_def by (simp del: fun_upd_apply) (rule exI, rule ring_bufs_upd [OF ex_ring], simp_all)
  moreover have "cpu_ok ex_trans" "lock_free ex_trans l" for l using ex_wmach_ok by (simp_all add: ex_trans_def)
  ultimately have "cache_inv {} ex_trans" unfolding cache_inv_def c by simp
  moreover have "content ex_trans 2 = replicate 512 0"
    by (subst content_uncached) (simp add: c, simp add: ex_trans_def)
  ultimately show "commit_ready ex_trans"
    unfolding commit_ready_def log_ok_def D
    by (simp add: ex_trans_def Let_def log_area_def param_defs BSIZE_def lessThan_Suc)
  show "content ex_trans 100 = replicate 512 9"
    using content_cached [of ex_trans 100 0] by (simp add: c) (simp add: ex_trans_def)
qed

theorem commit_crash_atomic_witness:
  "\<exists>t ws r'. commit ex_trans = Ret () t \<and> st_dwrites t = ws
     \<and> recover_from_log (ex_wmach\<lparr>st_disk := apply_writes (take 2 ws) (\<lambda>n. replicate 512 0)\<rparr>) = Ret () r'
     \<and> st_disk r' 100 = replicate 512 9"
proof -
  have e: "sint (get32 (st_disk ex_trans (l_start (st_log ex_trans))) 0) = 0"
    by (simp add: ex_trans_def get32_def le_word_def numeral_nat)
  have p: "st_disksize ex_trans \<le> 2 ^ 32" "st_dwrites ex_trans = []" "st_disk ex_trans = (\<lambda>n. replicate 512 0)"
    "st_disksize ex_trans = 1000" "l_start (st_log ex_trans) = 2" "nat (lh_n (l_lh (st_log ex_trans))) = 1"
    by (simp_all add: ex_trans_def)
  have b: "booted 2 (ex_wmach\<lparr>st_disk := D\<rparr>)" for D using ex_wmach_cache by (simp add: booted_def)
  show ?thesis
    using commit_crash_atomic [where 'b = unit, OF ex_trans_ready(1) p(1) e] b p ex_trans_ready(2) by fastforce
qed

section \<open>Transactions\<close>

text \<open>
  The invariant between operations of a transaction: the dirty blocks are exactly the logged ones,
  each logged once, none of them in the log itself; the header on the disk is empty; the log has at
  most the size \<^verbatim>\<open>LOGSIZE\<close> that \<^verbatim>\<open>mkfs\<close> gives it.
\<close>

definition logged :: "'a wmach_scheme \<Rightarrow> nat set" where
  "logged s = lh_block (l_lh (st_log s)) ` {..<nat (lh_n (l_lh (st_log s)))}"

definition trans_inv :: "nat set \<Rightarrow> 'a wmach_scheme \<Rightarrow> bool" where
  "trans_inv H s \<longleftrightarrow> cache_inv H s \<and> lock_free s LogLock \<and> (let lg = st_log s; n = lh_n (l_lh lg); a = l_start lg in
     l_dev lg = 1 \<and> 0 \<le> n \<and> n < l_size lg \<and> l_size lg \<le> int LOGSIZE \<and> a + nat (l_size lg) \<le> st_disksize s
     \<and> st_disksize s \<le> 2 ^ 32 \<and> inj_on (lh_block (l_lh lg)) {..<nat n} \<and> {m. dirty_block s m} = logged s
     \<and> (\<forall>m\<in>logged s. m < st_disksize s \<and> m \<notin> {a..<a + nat (l_size lg)})
     \<and> length (content s a) = BSIZE \<and> sint (get32 (st_disk s a) 0) = 0)"

lemma trans_invD:
  assumes "trans_inv H s"
  defines "lg \<equiv> st_log s"
  shows "cache_inv H s" "lock_free s LogLock" "cpu_ok s" "lock_free s PtableLock" "0 \<le> lh_n (l_lh lg)"
    "lh_n (l_lh lg) < l_size lg" "l_size lg \<le> int LOGSIZE" "inj_on (lh_block (l_lh lg)) {..<nat (lh_n (l_lh lg))}"
    "{m. dirty_block s m} = logged s"
  using assms(1) cache_invD(1,3) [of H s] by (simp_all add: trans_inv_def Let_def lg_def)

lemma trans_commit_ready:
  assumes "trans_inv {} s" "0 < lh_n (l_lh (st_log s))"
  shows "commit_ready s"
proof -
  let ?lg = "st_log s"
  let ?n = "nat (lh_n (l_lh ?lg))"
  have n: "?n < nat (l_size ?lg)" "?n \<le> LOGSIZE" "?n < NBUF" using trans_invD(5-7) [OF assms(1)] by (auto simp: param_defs)
  have D: "{m. dirty_block s m} = lh_block (l_lh ?lg) ` {..<?n}" using trans_invD(9) [OF assms(1)] by (simp add: logged_def)
  have "card {m. dirty_block s m} < NBUF" using n card_image_le [of "{..<?n}" "lh_block (l_lh ?lg)"] by (simp add: D)
  then have "log_ok s" using assms(1) by (simp add: trans_inv_def log_ok_def Let_def)
  moreover have "log_area (l_start ?lg) ?n (lh_block (l_lh ?lg)) (st_disksize s)"
    using assms(1) n by (fastforce simp: trans_inv_def Let_def log_area_def logged_def)
  ultimately show ?thesis
    using assms n D by (simp add: commit_ready_def trans_inv_def Let_def)
qed

definition log_added :: "nat \<Rightarrow> logheader \<Rightarrow> logheader" where
  "log_added m lh = (if m \<in> lh_block lh ` {..<nat (lh_n lh)} then lh
     else lh\<lparr>lh_n := lh_n lh + 1, lh_block := (lh_block lh)(nat (lh_n lh) := m)\<rparr>)"

lemma log_write_run:
  assumes "cpu_ok s" "lock_free s LogLock"
  defines "lg \<equiv> st_log s"
  shows "log_write b s =
    (if lh_n (l_lh lg) \<ge> int LOGSIZE \<or> lh_n (l_lh lg) \<ge> l_size lg - 1 then Stop (Panic ''too big a transaction'') s
     else if l_outstanding lg < 1 then Stop (Panic ''log_write outside of trans'') s
     else Ret () (set_dirty b (s\<lparr>st_log := lg\<lparr>l_lh := log_added (b_blockno (st_bufs s b)) (l_lh lg)\<rparr>\<rparr>)))"
proof -
  let ?h = "lh_block (l_lh lg)" and ?n = "nat (lh_n (l_lh lg))" and ?m = "b_blockno (st_bufs s b)"
  show ?thesis
  proof (cases "find (\<lambda>k. ?h k = ?m) [0..<?n]")
    case None
    then have "?m \<notin> ?h ` {..<?n}" by (auto simp: find_None_iff)
    then show ?thesis
      using assms None
      by (simp add: log_write_def kbind_run kseq_run kwhen_run acquire_ok getbuf_def upd_log_run upd_buf_def Let_def
          kframe release_acquired log_added_def set_dirty_def panic_def)
  next
    case (Some k)
    then have k: "k < ?n" "?h k = ?m" by (auto simp: find_Some_iff)
    then have "?m \<in> ?h ` {..<?n}" "?h(k := ?m) = ?h" by (metis imageI lessThan_iff, simp add: fun_upd_idem_iff)
    then show ?thesis
      using assms Some k
      by (simp add: log_write_def kbind_run kseq_run kwhen_run acquire_ok getbuf_def upd_log_run upd_buf_def Let_def
          kframe release_acquired log_added_def set_dirty_def panic_def)
  qed
qed

lemma log_added_props:
  fixes m :: nat and lh :: logheader
  assumes "0 \<le> lh_n lh" "inj_on (lh_block lh) {..<nat (lh_n lh)}"
  defines "lh' \<equiv> log_added m lh"
  shows "lh_block lh' ` {..<nat (lh_n lh')} = insert m (lh_block lh ` {..<nat (lh_n lh)})"
    "inj_on (lh_block lh') {..<nat (lh_n lh')}" "lh_n lh \<le> lh_n lh'" "lh_n lh' \<le> lh_n lh + 1"
proof -
  let ?n = "nat (lh_n lh)"
  have l: "{..<nat (lh_n lh + 1)} = insert ?n {..<?n}" using assms(1) by (auto simp: nat_add_distrib)
  show "lh_block lh' ` {..<nat (lh_n lh')} = insert m (lh_block lh ` {..<?n})"
    "inj_on (lh_block lh') {..<nat (lh_n lh')}" "lh_n lh \<le> lh_n lh'" "lh_n lh' \<le> lh_n lh + 1"
    using assms(2) by (auto simp: lh'_def log_added_def l inj_on_def)
qed

lemma begin_op_run:
  assumes "running i s" "lock_free s LogLock" "lock_free s PtableLock"
  defines "lg \<equiv> st_log s"
  shows "begin_op s =
    (if l_committing lg \<or> lh_n (l_lh lg) + (l_outstanding lg + 1) * int MAXOPBLOCKS > int LOGSIZE
     then Stop (Sleeping ChanLog) (acquired PtableLock (set_proc i (asleep ChanLog) s))
     else Ret () (s\<lparr>st_log := lg\<lparr>l_outstanding := l_outstanding lg + 1\<rparr>\<rparr>))"
proof -
  have ok: "cpu_ok s" using assms(1) by (simp add: running_def)
  show ?thesis
    using assms ok sleep_run [OF assms(1,3,2), of ChanLog]
    by (simp add: begin_op_def begin_op_loop_def kbind_run kseq_run acquire_ok upd_log_run kframe release_acquired)
qed

lemma woken_log [simp]: "st_log (woken ch s) = st_log s"
  by (simp add: woken_def)

lemma commit_nothing: "lh_n (l_lh (st_log s)) \<le> 0 \<Longrightarrow> commit s = Ret () s"
  by (simp add: commit_def kbind_run kwhen_run)

lemma bio_step_locks: "bio_step s t \<Longrightarrow> cpu_ok t = cpu_ok s" "bio_step s t \<Longrightarrow> lock_free t l = lock_free s l"
  by (drule bio_step_eq, erule ssubst, simp)+

lemma cache_inv_woken [simp]:
  "cache_inv H (woken ch s) = cache_inv H s" "content (woken ch s) = content s" "dirty_block (woken ch s) = dirty_block s"
proof -
  have c: "cached (woken ch s) = cached s" by (simp add: cached_def fun_eq_iff)
  show "cache_inv H (woken ch s) = cache_inv H s" "content (woken ch s) = content s" "dirty_block (woken ch s) = dirty_block s"
    by (simp_all add: cache_inv_def buf_inv_def content_def dirty_block_def fun_eq_iff c Let_def split: option.splits)
qed

lemma trans_log_write:
  assumes t: "trans_inv H s" and b: "b \<in> H" and o: "1 \<le> l_outstanding (st_log s)"
    and n: "lh_n (l_lh (st_log s)) < l_size (st_log s) - 1"
    and m: "b_blockno (st_bufs s b) < st_disksize s"
      "b_blockno (st_bufs s b) \<notin> {l_start (st_log s)..<l_start (st_log s) + nat (l_size (st_log s))}"
  shows "\<exists>u. log_write b s = Ret () u \<and> trans_inv H u \<and> logged u = insert (b_blockno (st_bufs s b)) (logged s)
    \<and> content u = content s \<and> st_dwrites u = st_dwrites s"
proof -
  let ?lg = "st_log s" and ?m = "b_blockno (st_bufs s b)"
  let ?s1 = "s\<lparr>st_log := ?lg\<lparr>l_lh := log_added ?m (l_lh ?lg)\<rparr>\<rparr>"
  let ?u = "set_dirty b ?s1"
  note d = trans_invD [OF t]
  have inv1: "cache_inv H ?s1" using d(1) by simp
  have run: "log_write b s = Ret () ?u" using log_write_run [OF d(3,2), of b] n o d(7) by simp
  note p = log_added_props [OF d(5,8), of ?m]
  have u: "st_log ?u = ?lg\<lparr>l_lh := log_added ?m (l_lh ?lg)\<rparr>" "st_disk ?u = st_disk s" "st_disksize ?u = st_disksize s"
    "st_dwrites ?u = st_dwrites s" "lock_free ?u LogLock = lock_free s LogLock"
    by (simp_all add: set_dirty_def)
  have lgd: "logged ?u = insert ?m (logged s)" using p(1) by (simp add: logged_def u)
  have c: "content ?u = content s" using changed_content(2) [OF inv1 b] by (simp add: fun_eq_iff)
  have "dirty_block ?u x \<longleftrightarrow> dirty_block s x \<or> x = ?m" for x using changed_dirty(2) [OF inv1 b] by simp
  then have D: "{x. dirty_block ?u x} = logged ?u" unfolding lgd d(9) [symmetric] by auto
  have "trans_inv H ?u"
    using t p changed_inv(2) [OF inv1 b] n m D lgd unfolding trans_inv_def Let_def u c by simp
  then show ?thesis using run lgd c u(4) by blast
qed


definition cleared :: "log \<Rightarrow> log" where
  "cleared lg = lg\<lparr>l_lh := (l_lh lg)\<lparr>lh_n := 0\<rparr>\<rparr>"

lemma trans_commit_writes:
  fixes s :: "'a wmach_scheme"
  assumes t: "trans_inv {} s" and n: "0 < lh_n (l_lh (st_log s))"
  defines "a \<equiv> l_start (st_log s)"
  shows "\<exists>v :: 'a wmach_scheme. commit s = Ret () v \<and> bio_step (s\<lparr>st_log := cleared (st_log s)\<rparr>) v
    \<and> cache_inv {} v \<and> (\<forall>m. \<not> dirty_block v m) \<and> length (st_disk v a) = BSIZE \<and> sint (get32 (st_disk v a) 0) = 0
    \<and> (\<forall>m. m \<notin> {a..<a + nat (l_size (st_log s))} \<longrightarrow> st_disk v m = content s m)"
proof -
  let ?lh = "l_lh (st_log s)" and ?c = "content s" and ?d = "st_disk s"
  let ?n = "nat (lh_n ?lh)" and ?ws = "commit_writes a ?lh ?c" and ?l0 = "?lh\<lparr>lh_n := 0\<rparr>"
  note cr = trans_commit_ready [OF t n]
  note r = commit_readyD [OF cr, folded a_def]
  obtain v :: "'a wmach_scheme" where v: "commit s = Ret () v" "wrote ?ws (s\<lparr>st_log := cleared (st_log s)\<rparr>) v"
    using commit_run [OF cr] by (auto simp: a_def cleared_def)
  have h: "lh_block ?lh i \<notin> {a..a + ?n}" if "i < ?n" for i using r(4) that by (simp add: log_area_def)
  have vd: "st_disk v = apply_writes ?ws ?d" using wroteD(4) [OF v(2)] by simp
  have D: "{m. dirty_block s m} = lh_block ?lh ` {..<?n}" using trans_invD(9) [OF t] by (simp add: logged_def)
  have "lh_block ?lh ` {..<?n} \<subseteq> fst ` set ?ws" 
    by (auto simp: commit_writes_def Let_def image_Un image_image atLeast0LessThan)
  then have nd: "\<not> dirty_block v m" for m using wroteD(6) [OF v(2), of m] unfolding D [symmetric] by auto
  have hl: "length (put_head ?lh (?c a)) = BSIZE" by (rule put_head(1) [OF r(8,3)])
  have va: "st_disk v a = put_head ?l0 (put_head ?lh (?c a))" using crash_done(1) [OF order_refl h, of ?c ?d] vd by simp
  have "length (st_disk v a) = BSIZE" "sint (get32 (st_disk v a) 0) = 0"
    using put_head(1) [OF hl, of ?l0] head_put(1) [of "st_disk v" a ?l0, OF va hl] va by simp_all
  moreover have "st_disk v m = ?c m" if m: "m \<notin> {a..<a + nat (l_size (st_log s))}" for m
  proof -
    have "m \<notin> {a..a + ?n}" using m trans_invD(5,6) [OF t] by auto
    then have "st_disk v m = (if m \<in> lh_block ?lh ` {..<?n} then ?c m else ?d m)"
      using crash_done(2) [OF order_refl h, of m ?c ?d] vd by simp
    moreover have "m \<notin> lh_block ?lh ` {..<?n} \<Longrightarrow> ?c m = ?d m"
      using clean_content [OF trans_invD(1) [OF t], of m] unfolding D [symmetric] by simp
    ultimately show ?thesis by auto
  qed
  ultimately show ?thesis using v(1) nd wroteD(1,2) [OF v(2)] by blast
qed

lemma cleared_same: "lh_n (l_lh lg) = 0 \<Longrightarrow> cleared lg = lg"
  by (simp add: cleared_def)

lemma trans_commit:
  fixes s :: "'a wmach_scheme"
  assumes t: "trans_inv {} s"
  defines "a \<equiv> l_start (st_log s)"
  shows "\<exists>v :: 'a wmach_scheme. commit s = Ret () v \<and> bio_step (s\<lparr>st_log := cleared (st_log s)\<rparr>) v
    \<and> cache_inv {} v \<and> (\<forall>m. \<not> dirty_block v m) \<and> length (st_disk v a) = BSIZE \<and> sint (get32 (st_disk v a) 0) = 0
    \<and> (\<forall>m. m \<notin> {a..<a + nat (l_size (st_log s))} \<longrightarrow> st_disk v m = content s m)"
proof (cases "0 < lh_n (l_lh (st_log s))")
  case True
  then show ?thesis using trans_commit_writes [OF t] by (simp add: a_def)
next
  case False
  then have z: "lh_n (l_lh (st_log s)) = 0" using trans_invD(5) [OF t] by simp
  then have D: "\<not> dirty_block s m" for m using trans_invD(9) [OF t] by (auto simp: logged_def)
  have c: "content s m = st_disk s m" for m using clean_content [OF trans_invD(1) [OF t] D] .
  show ?thesis
    using t z D c by (intro exI [of _ s]) (simp add: commit_nothing cleared_same bio_step_refl trans_inv_def Let_def a_def)
qed

lemma trans_end_op:
  fixes s :: "'a wmach_scheme"
  assumes t: "trans_inv {} s" and o: "l_outstanding (st_log s) = 1" and nc: "\<not> l_committing (st_log s)"
  defines "a \<equiv> l_start (st_log s)"
  shows "\<exists>u :: 'a wmach_scheme. end_op s = Ret () u \<and> trans_inv {} u \<and> logged u = {}
    \<and> l_outstanding (st_log u) = 0 \<and> \<not> l_committing (st_log u)
    \<and> (\<forall>m. m \<notin> {a..<a + nat (l_size (st_log s))} \<longrightarrow> st_disk u m = content s m \<and> content u m = content s m)"
proof -
  let ?lg = "st_log s"
  let ?lg1 = "?lg\<lparr>l_outstanding := 0, l_committing := True\<rparr>"
  let ?s1 = "s\<lparr>st_log := ?lg1\<rparr>"
  note d = trans_invD [OF t]
  have t1: "trans_inv {} ?s1" using t by (simp add: trans_inv_def logged_def Let_def)
  obtain v :: "'a wmach_scheme" where v: "commit ?s1 = Ret () v" "bio_step (s\<lparr>st_log := cleared ?lg1\<rparr>) v"
      "cache_inv {} v" "\<forall>m. \<not> dirty_block v m" "length (st_disk v a) = BSIZE" "sint (get32 (st_disk v a) 0) = 0"
      "\<forall>m. m \<notin> {a..<a + nat (l_size ?lg)} \<longrightarrow> st_disk v m = content s m"
    using trans_commit [OF t1] by (auto simp: a_def)
  have lv: "st_log v = cleared ?lg1" "cpu_ok v" "lock_free v LogLock" "lock_free v PtableLock" "st_disksize v = st_disksize s"
    using bio_step_log [OF v(2)] bio_step_locks [OF v(2)] bio_step_rest(1) [OF v(2)] d by simp_all
  have cv: "content v m = st_disk v m" for m using clean_content [OF v(3)] v(4) by blast
  let ?u = "woken ChanLog (v\<lparr>st_log := (cleared ?lg1)\<lparr>l_committing := False\<rparr>\<rparr>)"
  have "end_op s = Ret () ?u"
    using d o nc v(1) lv
    by (simp add: end_op_def kbind_run kseq_run kwhen_run acquire_ok upd_log_run wakeup_woken kframe release_acquired)
  moreover have lu: "logged ?u = {}" by (simp add: logged_def cleared_def)
  moreover have "trans_inv {} ?u"
    using t v lv cv lu d(5,6) by (simp add: trans_inv_def Let_def) (simp add: cleared_def a_def)
  ultimately show ?thesis using v(7) cv by (intro exI [of _ ?u]) (simp add: cleared_def)
qed

text \<open>
  C22. Logging a block: under the transaction invariant, a thread that holds a buffer and calls
  \<open>log_write\<close> with room in the log returns with the block logged (once: a block already in the log is
  absorbed), pinned in the cache by its dirty flag, nothing written to the disk, no contents changed,
  and the invariant kept.
\<close>

theorem log_write_logs:
  assumes "trans_inv H s" "b \<in> H" "1 \<le> l_outstanding (st_log s)" "lh_n (l_lh (st_log s)) < l_size (st_log s) - 1"
    "b_blockno (st_bufs s b) < st_disksize s"
    "b_blockno (st_bufs s b) \<notin> {l_start (st_log s)..<l_start (st_log s) + nat (l_size (st_log s))}"
  shows "\<exists>u. log_write b s = Ret () u \<and> trans_inv H u \<and> logged u = insert (b_blockno (st_bufs s b)) (logged s)
    \<and> content u = content s \<and> st_disk u = st_disk s"
proof -
  obtain u where u: "log_write b s = Ret () u" "trans_inv H u" "logged u = insert (b_blockno (st_bufs s b)) (logged s)"
    "content u = content s" using trans_log_write [OF assms] by blast
  moreover have "st_disk u = st_disk s"
    using u(1) log_write_run [OF trans_invD(3,2) [OF assms(1)], of b] by (auto simp: set_dirty_def split: if_splits)
  ultimately show ?thesis by blast
qed

lemma ex_trans_inv: "trans_inv {} ex_trans" "logged ex_trans = {100}"
proof -
  have e: "sint (get32 (replicate 512 (0 :: uchar)) 0) = 0" by (simp add: get32_def le_word_def numeral_nat)
  show l: "logged ex_trans = {100}" by (simp add: logged_def ex_trans_def lessThan_Suc)
  show "trans_inv {} ex_trans"
    using ex_trans_ready(1) ex_wmach_ok e l
    by (simp add: trans_inv_def commit_ready_def log_ok_def logged_def Let_def ex_trans_def param_defs)
qed

theorem log_write_logs_witness:
  "\<exists>b t u. bread 1 101 (ex_trans\<lparr>st_log := (st_log ex_trans)\<lparr>l_outstanding := 1\<rparr>\<rparr>) = Ret b t \<and> log_write b t = Ret () u
     \<and> logged u = {101, 100}"
proof -
  let ?s = "ex_trans\<lparr>st_log := (st_log ex_trans)\<lparr>l_outstanding := 1\<rparr>\<rparr>"
  have t: "trans_inv {} ?s" using ex_trans_inv(1) by (simp add: trans_inv_def logged_def Let_def)
  have l: "logged ?s = {100}" using ex_trans_inv(2) by (simp add: logged_def)
  have D: "card {m. dirty_block ?s m} + card ({} :: nat set) < NBUF" using trans_invD(9) [OF t] l by (simp add: param_defs)
  obtain b and u :: wmach where u: "bread 1 101 ?s = Ret b u" "cache_inv (insert b {}) u" "bio_step ?s u" "b_blockno (st_bufs u b) = 101"
      "\<And>m. content u m = content ?s m" "\<And>m. dirty_block u m = dirty_block ?s m" "st_disk u = st_disk ?s"
    by (rule bread_spec [OF trans_invD(1) [OF t], of 101]) (use D in \<open>auto simp: ex_trans_def\<close>)
  have lu: "st_log u = st_log ?s" "st_disksize u = st_disksize ?s" "lock_free u LogLock = lock_free ?s LogLock" "logged u = {100}"
    using bio_step_log [OF u(3)] bio_step_rest(1) [OF u(3)] bio_step_locks(2) [OF u(3)] l by (simp_all add: logged_def)
  have "trans_inv {b} u" using t u lu l by (simp add: trans_inv_def Let_def)
  then show ?thesis using log_write_logs [of "{b}" u b] u(1,4) lu by (simp add: ex_trans_def) blast
qed

text \<open>
  C12. The last operation of a transaction makes it durable: when \<open>end_op\<close> is called by the only
  outstanding operation, it commits and returns with the log empty and not committing, and with every
  block outside the log on the disk as the transaction left it in the cache.
\<close>

theorem end_op_durable:
  assumes "trans_inv {} s" "l_outstanding (st_log s) = 1" "\<not> l_committing (st_log s)"
  shows "\<exists>u. end_op s = Ret () u \<and> trans_inv {} u \<and> logged u = {}
    \<and> l_outstanding (st_log u) = 0 \<and> \<not> l_committing (st_log u)
    \<and> (\<forall>m. m \<notin> {l_start (st_log s)..<l_start (st_log s) + nat (l_size (st_log s))} \<longrightarrow>
         st_disk u m = content s m \<and> content u m = content s m)"
  by (rule trans_end_op [OF assms])

theorem end_op_durable_witness:
  "\<exists>u. end_op (ex_trans\<lparr>st_log := (st_log ex_trans)\<lparr>l_outstanding := 1\<rparr>\<rparr>) = Ret () u \<and> st_disk u 100 = replicate 512 9"
proof -
  let ?s = "ex_trans\<lparr>st_log := (st_log ex_trans)\<lparr>l_outstanding := 1\<rparr>\<rparr>"
  have t: "trans_inv {} ?s" using ex_trans_inv(1) by (simp add: trans_inv_def logged_def Let_def)
  show ?thesis using end_op_durable [OF t] ex_trans_ready(2) by (fastforce simp: ex_trans_def)
qed





end
