(* ===== verification/Trans.thy ===== *)
theory Trans
  imports Wal
begin

text \<open>
  Changes of the disk inside a transaction, on top of the buffer cache and the log: what reading a
  block, changing it, logging it and releasing it do to the contents of the blocks. The file system
  is verified on these lemmas; it never looks at buffers or the log below them.
\<close>

section \<open>What the steps keep\<close>

text \<open>A step of a transaction changes nothing outside the cache, the disk and the log.\<close>

definition log_step :: "'a wmach_scheme \<Rightarrow> 'a wmach_scheme \<Rightarrow> bool" where
  "log_step s t \<longleftrightarrow> t = s\<lparr>st_procs := st_procs t, st_slocks := st_slocks t, st_bufs := st_bufs t,
     st_disk := st_disk t, st_dwrites := st_dwrites t, st_log := st_log t\<rparr>
     \<and> (\<forall>k. st_slocks t (InodeSL k) = st_slocks s (InodeSL k))"

lemma log_step_eq:
  "log_step s t \<Longrightarrow> t = s\<lparr>st_procs := st_procs t, st_slocks := st_slocks t, st_bufs := st_bufs t,
     st_disk := st_disk t, st_dwrites := st_dwrites t, st_log := st_log t\<rparr>"
  by (simp only: log_step_def)

lemma log_step_inodes: "log_step s t \<Longrightarrow> st_slocks t (InodeSL k) = st_slocks s (InodeSL k)"
  by (simp only: log_step_def)

lemma log_step_refl: "log_step s s"
  by (simp add: log_step_def)

lemma log_step_trans:
  fixes s t u :: "'a wmach_scheme"
  assumes "log_step s t" "log_step t u"
  shows "log_step s u"
  unfolding log_step_def
proof
  show "u = s\<lparr>st_procs := st_procs u, st_slocks := st_slocks u, st_bufs := st_bufs u, st_disk := st_disk u,
      st_dwrites := st_dwrites u, st_log := st_log u\<rparr>"
    by (rule wmach.equality) (subst log_step_eq [OF assms(2)], subst log_step_eq [OF assms(1)], simp)+
  show "\<forall>k. st_slocks u (InodeSL k) = st_slocks s (InodeSL k)"
    using log_step_inodes [OF assms(1)] log_step_inodes [OF assms(2)] by simp
qed

lemma bio_log_step: "bio_step s t \<Longrightarrow> log_step s t"
  unfolding bio_step_def log_step_def by (erule conjE, rule conjI, erule ssubst) simp_all

lemma log_step_rest:
  assumes "log_step s t"
  shows "st_disksize t = st_disksize s" "cpu_ok t = cpu_ok s" "lock_free t l = lock_free s l"
  by (subst log_step_eq [OF assms], simp)+

text \<open>
  The blocks a transaction may change, the log entries that are left, and the abstract state of a
  transaction: the contents of the blocks.
\<close>

definition usable :: "'a wmach_scheme \<Rightarrow> nat \<Rightarrow> bool" where
  "usable s n \<longleftrightarrow> n < st_disksize s \<and> n \<notin> {l_start (st_log s)..<l_start (st_log s) + nat (l_size (st_log s))}"

definition log_room :: "'a wmach_scheme \<Rightarrow> int \<Rightarrow> bool" where
  "log_room s k \<longleftrightarrow> 1 \<le> l_outstanding (st_log s) \<and> lh_n (l_lh (st_log s)) + k < l_size (st_log s)"

definition not_held :: "nat set \<Rightarrow> 'a bmach_scheme \<Rightarrow> nat \<Rightarrow> bool" where
  "not_held H s n \<longleftrightarrow> (\<forall>i\<in>H. b_blockno (st_bufs s i) \<noteq> n)"

lemma not_held_empty [simp]: "not_held {} s n"
  by (simp add: not_held_def)

lemma clean_unheld:
  assumes inv: "cache_inv H s" and d: "\<not> dirty_block s m" and n: "not_held H s m"
  shows "content s m = st_disk s m"
proof (rule content_eqI)
  fix i
  assume c: "cached s m i"
  then have "buf_inv H s i" "\<not> b_dirty (st_bufs s i)" "i \<notin> H"
    using cache_invD(7) [OF inv, of i] d n by (auto simp: cached_def dirty_block_def not_held_def)
  then show "(if b_valid (st_bufs s i) then b_data (st_bufs s i) else st_disk s m) = st_disk s m"
    using c by (simp add: buf_inv_def Let_def cached_def)
qed (use cache_invD(8) [OF inv] in auto)

lemma trans_card: "trans_inv H s \<Longrightarrow> card {m. dirty_block s m} = nat (lh_n (l_lh (st_log s)))"
  using trans_invD(8,9) [of H s] by (simp add: logged_def card_image)

section \<open>The steps\<close>

text \<open>A buffer that may be released: its change is logged, or it equals the disk.\<close>

definition releasable :: "'a bmach_scheme \<Rightarrow> nat \<Rightarrow> bool" where
  "releasable s b \<longleftrightarrow> b_dirty (st_bufs s b) \<or> b_data (st_bufs s b) = st_disk s (b_blockno (st_bufs s b))"

lemma trans_bread:
  fixes s :: "'a wmach_scheme"
  assumes t: "trans_inv H s" and n: "n < st_disksize s" and H: "not_held H s n"
    and room: "lh_n (l_lh (st_log s)) + int (card H) < int NBUF"
  obtains b and t :: "'a wmach_scheme" where "bread 1 n s = Ret b t" "b \<notin> H" "trans_inv (insert b H) t" "log_step s t"
    "st_log t = st_log s" "b_blockno (st_bufs t b) = n" "b_data (st_bufs t b) = content s n" "content t = content s"
    "\<And>i. i \<noteq> b \<Longrightarrow> st_bufs t i = st_bufs s i" "releasable t b" "st_disk t = st_disk s"
proof -
  have card: "card {m. dirty_block s m} + card H < NBUF"
    using trans_card [OF t] trans_invD(5) [OF t] room by simp
  obtain b and t :: "'a wmach_scheme" where
    b: "bread 1 n s = Ret b t" "b \<notin> H" "cache_inv (insert b H) t" "bio_step s t"
      "b_blockno (st_bufs t b) = n" "b_data (st_bufs t b) = content s n"
      "\<And>m. content t m = content s m" "\<And>m. dirty_block t m = dirty_block s m"
      "st_disk t = st_disk s" "st_dwrites t = st_dwrites s" "\<And>i. i \<noteq> b \<Longrightarrow> st_bufs t i = st_bufs s i"
      "b_dirty (st_bufs t b) = dirty_block s n"
    by (rule bread_spec [OF trans_invD(1) [OF t] n, of thesis]) (use H card in \<open>auto simp: not_held_def\<close>)
  have st: "st_log t = st_log s" "st_disksize t = st_disksize s" "lock_free t LogLock = lock_free s LogLock"
      "logged t = logged s" "content t = content s" "dirty_block t = dirty_block s"
    using bio_step_log [OF b(4)] bio_step_rest(1) [OF b(4)] bio_step_locks(2) [OF b(4)] b(7,8)
    by (simp_all add: logged_def fun_eq_iff)
  have tr: "trans_inv (insert b H) t" using t b(3,9) st by (simp add: trans_inv_def Let_def)
  have "releasable t b"
    using b(5,6,9,12) clean_unheld [OF trans_invD(1) [OF t] _ H] by (auto simp: releasable_def)
  then show ?thesis using that [OF b(1,2) tr bio_log_step [OF b(4)]] st b by simp
qed

lemma trans_set_data:
  fixes s :: "'a wmach_scheme"
  assumes t: "trans_inv H s" and b: "b \<in> H" and m: "b_blockno (st_bufs s b) \<noteq> l_start (st_log s)"
  shows "trans_inv H (set_data b d s)" "log_step s (set_data b d s)"
    "content (set_data b d s) = (content s)(b_blockno (st_bufs s b) := d)"
proof -
  have st: "st_log (set_data b d s) = st_log s" "st_disksize (set_data b d s) = st_disksize s"
    "lock_free (set_data b d s) LogLock = lock_free s LogLock" "logged (set_data b d s) = logged s"
    "st_disk (set_data b d s) = st_disk s"
    by (simp_all add: logged_def set_data_def)
  show c: "content (set_data b d s) = (content s)(b_blockno (st_bufs s b) := d)"
    using changed_content(1) [OF trans_invD(1) [OF t] b] by (auto simp: fun_eq_iff)
  have dd: "dirty_block (set_data b d s) = dirty_block s"
    using changed_dirty(1) [OF trans_invD(1) [OF t] b] by (simp add: fun_eq_iff)
  show "trans_inv H (set_data b d s)"
    using t changed_inv(1) [OF trans_invD(1) [OF t] b] dd st m
    unfolding trans_inv_def Let_def c by simp
  show "log_step s (set_data b d s)" by (rule bio_log_step [OF bio_step_ops(2)])
qed

lemma trans_logged:
  fixes s :: "'a wmach_scheme"
  assumes t: "trans_inv H s" and b: "b \<in> H" and r: "log_room s 1" and m: "usable s (b_blockno (st_bufs s b))"
  obtains u :: "'a wmach_scheme" where "log_write b s = Ret () u" "trans_inv H u" "log_step s u" "content u = content s"
    "\<And>k. log_room s k \<Longrightarrow> log_room u (k - 1)" "l_start (st_log u) = l_start (st_log s)" "l_size (st_log u) = l_size (st_log s)"
    "lh_n (l_lh (st_log u)) \<le> lh_n (l_lh (st_log s)) + 1"
    "\<And>i. i \<noteq> b \<Longrightarrow> st_bufs u i = st_bufs s i" "b_blockno (st_bufs u b) = b_blockno (st_bufs s b)" "releasable u b"
proof -
  let ?u = "set_dirty b (s\<lparr>st_log := (st_log s)\<lparr>l_lh := log_added (b_blockno (st_bufs s b)) (l_lh (st_log s))\<rparr>\<rparr>)"
  note d = trans_invD [OF t]
  have o: "1 \<le> l_outstanding (st_log s)" "lh_n (l_lh (st_log s)) < l_size (st_log s) - 1" using r by (auto simp: log_room_def)
  have run: "log_write b s = Ret () ?u" using log_write_run [OF d(3,2), of b] o d(7) by simp
  obtain u' where u': "log_write b s = Ret () u'" "trans_inv H u'" "content u' = content s"
    using trans_log_write [OF t b o] m by (auto simp: usable_def)
  have u: "u' = ?u" using u'(1) run by simp
  have st: "st_log ?u = (st_log s)\<lparr>l_lh := log_added (b_blockno (st_bufs s b)) (l_lh (st_log s))\<rparr>"
    by (simp add: set_dirty_def)
  have n: "lh_n (l_lh (st_log ?u)) \<le> lh_n (l_lh (st_log s)) + 1"
    using log_added_props(4) [OF d(5,8), of "b_blockno (st_bufs s b)"] by (simp add: st)
  have lr: "log_room s k \<Longrightarrow> log_room ?u (k - 1)" for k using n unfolding log_room_def st by simp
  have "log_step s ?u" by (simp add: log_step_def set_dirty_def)
  moreover have "releasable ?u b" by (simp add: releasable_def set_dirty_def)
  ultimately show ?thesis
    using that [OF run] u' u lr n st by (simp add: set_dirty_def)
qed

lemma trans_brelse:
  fixes s :: "'a wmach_scheme"
  assumes t: "trans_inv H s" and b: "b \<in> H" and r: "releasable s b"
  obtains u :: "'a wmach_scheme" where "brelse b s = Ret () u" "trans_inv (H - {b}) u" "log_step s u" "content u = content s"
    "st_log u = st_log s" "\<And>i. b_blockno (st_bufs u i) = b_blockno (st_bufs s i)" "\<And>i. b_data (st_bufs u i) = b_data (st_bufs s i)"
    "\<And>i. releasable u i = releasable s i"
proof -
  obtain u :: "'a wmach_scheme" where u: "brelse b s = Ret () u" "cache_inv (H - {b}) u" "bio_step s u"
    "\<And>m. content u m = content s m" "\<And>m. dirty_block u m = dirty_block s m"
    "st_disk u = st_disk s" "st_dwrites u = st_dwrites s" "\<And>i. b_data (st_bufs u i) = b_data (st_bufs s i)"
    "\<And>i. b_dirty (st_bufs u i) = b_dirty (st_bufs s i)" "\<And>i. b_blockno (st_bufs u i) = b_blockno (st_bufs s i)"
    by (rule brelse_spec [OF trans_invD(1) [OF t] b r [unfolded releasable_def]]) auto
  have st: "st_log u = st_log s" "st_disksize u = st_disksize s" "lock_free u LogLock = lock_free s LogLock"
      "logged u = logged s" "content u = content s" "dirty_block u = dirty_block s"
    using bio_step_log [OF u(3)] bio_step_rest(1) [OF u(3)] bio_step_locks(2) [OF u(3)] u(4,5)
    by (simp_all add: logged_def fun_eq_iff)
  have "trans_inv (H - {b}) u" using t u(2,6) st by (simp add: trans_inv_def Let_def)
  then show ?thesis using that [OF u(1) _ bio_log_step [OF u(3)]] st u by (simp add: releasable_def)
qed

section \<open>A logged change of one block\<close>

definition log_update :: "nat \<Rightarrow> (uchar list \<Rightarrow> uchar list) \<Rightarrow> ('a wmach_scheme, unit) K" where
  "log_update n f =
     kbind (bread 1 n) (\<lambda>bp.
     kseq (upd_buf bp (\<lambda>y. y\<lparr>b_data := f (b_data y)\<rparr>)) (
     kseq (log_write bp) (brelse bp)))"

text \<open>The end of such a change, for a block that is already held.\<close>

lemma trans_finish:
  fixes s :: "'a wmach_scheme"
  assumes t: "trans_inv H s" and b: "b \<in> H" and r: "log_room s 1" and m: "usable s (b_blockno (st_bufs s b))"
  obtains u :: "'a wmach_scheme" where
    "kseq (upd_buf b (\<lambda>y. y\<lparr>b_data := f (b_data y)\<rparr>)) (kseq (log_write b) (brelse b)) s = Ret () u"
    "trans_inv (H - {b}) u" "log_step s u"
    "content u = (content s)(b_blockno (st_bufs s b) := f (b_data (st_bufs s b)))"
    "\<And>k. log_room s k \<Longrightarrow> log_room u (k - 1)" "usable u = usable s" "l_start (st_log u) = l_start (st_log s)"
    "lh_n (l_lh (st_log u)) \<le> lh_n (l_lh (st_log s)) + 1"
    "\<And>i. i \<noteq> b \<Longrightarrow> b_blockno (st_bufs u i) = b_blockno (st_bufs s i)"
    "\<And>i. i \<noteq> b \<Longrightarrow> b_data (st_bufs u i) = b_data (st_bufs s i)"
proof -
  let ?d = "f (b_data (st_bufs s b))" and ?n = "b_blockno (st_bufs s b)"
  let ?s1 = "set_data b ?d s"
  have sz: "0 < l_size (st_log s)" using trans_invD(5,6) [OF t] by linarith
  have na: "?n \<noteq> l_start (st_log s)" using m sz by (auto simp: usable_def)
  note t1 = trans_set_data [OF t b na, of ?d]
  have st1: "st_log ?s1 = st_log s" "st_disksize ?s1 = st_disksize s" by (simp_all add: set_data_def)
  have r1: "log_room ?s1 k = log_room s k" "usable ?s1 = usable s" for k
    using st1 by (simp_all add: log_room_def usable_def fun_eq_iff)
  obtain s2 :: "'a wmach_scheme" where 2: "log_write b ?s1 = Ret () s2" "trans_inv H s2" "log_step ?s1 s2" "content s2 = content ?s1"
    "\<And>k. log_room ?s1 k \<Longrightarrow> log_room s2 (k - 1)" "l_start (st_log s2) = l_start (st_log s)" "l_size (st_log s2) = l_size (st_log s)"
    "lh_n (l_lh (st_log s2)) \<le> lh_n (l_lh (st_log s)) + 1"
    "\<And>i. i \<noteq> b \<Longrightarrow> st_bufs s2 i = st_bufs ?s1 i" "b_blockno (st_bufs s2 b) = b_blockno (st_bufs ?s1 b)" "releasable s2 b"
    by (rule trans_logged [OF t1(1) b]) (use r m r1 st1 in auto)
  obtain u :: "'a wmach_scheme" where 3: "brelse b s2 = Ret () u" "trans_inv (H - {b}) u" "log_step s2 u" "content u = content s2"
    "st_log u = st_log s2" "\<And>i. b_blockno (st_bufs u i) = b_blockno (st_bufs s2 i)" "\<And>i. b_data (st_bufs u i) = b_data (st_bufs s2 i)"
    by (rule trans_brelse [OF 2(2) b 2(11)]) auto
  have step: "log_step s u" using log_step_trans [OF t1(2) log_step_trans [OF 2(3) 3(3)]] .
  have us: "usable u = usable s"
    using log_step_rest(1) [OF step] 2(6,7) 3(5) by (simp add: usable_def fun_eq_iff)
  have lr: "log_room u (k - 1)" if "log_room s k" for k
    using 2(5) [of k] r1(1) [of k] 3(5) that by (simp add: log_room_def)
  show ?thesis
  proof (rule that [OF _ 3(2) step _ lr us])
    show "kseq (upd_buf b (\<lambda>y. y\<lparr>b_data := f (b_data y)\<rparr>)) (kseq (log_write b) (brelse b)) s = Ret () u"
      using 2(1) 3(1) by (simp add: kseq_run upd_data)
  qed (use 2 3 t1 in auto)
qed

lemma log_update_run:
  fixes s :: "'a wmach_scheme"
  assumes t: "trans_inv H s" and r: "log_room s 1" and n: "usable s n" and H: "not_held H s n"
    and room: "lh_n (l_lh (st_log s)) + int (card H) < int NBUF"
  obtains u :: "'a wmach_scheme" where "log_update n f s = Ret () u" "trans_inv H u" "log_step s u"
    "content u = (content s)(n := f (content s n))" "\<And>k. log_room s k \<Longrightarrow> log_room u (k - 1)" "usable u = usable s"
    "\<And>i. i \<in> H \<Longrightarrow> b_blockno (st_bufs u i) = b_blockno (st_bufs s i)"
    "\<And>i. i \<in> H \<Longrightarrow> b_data (st_bufs u i) = b_data (st_bufs s i)"
    "lh_n (l_lh (st_log u)) \<le> lh_n (l_lh (st_log s)) + 1"
proof -
  obtain b and s1 :: "'a wmach_scheme" where 1: "bread 1 n s = Ret b s1" "b \<notin> H" "trans_inv (insert b H) s1" "log_step s s1"
    "st_log s1 = st_log s" "b_blockno (st_bufs s1 b) = n" "b_data (st_bufs s1 b) = content s n" "content s1 = content s"
    "\<And>i. i \<noteq> b \<Longrightarrow> st_bufs s1 i = st_bufs s i"
    by (rule trans_bread [OF t _ H room]) (use n in \<open>auto simp: usable_def\<close>)
  have r1: "log_room s1 k = log_room s k" "usable s1 = usable s" for k
    using 1(5) log_step_rest(1) [OF 1(4)] by (simp_all add: log_room_def usable_def fun_eq_iff)
  have i1: "insert b H - {b} = H" using 1(2) by auto
  show ?thesis
  proof (rule trans_finish [OF 1(3), of b f])
    fix u :: "'a wmach_scheme"
    assume u: "kseq (upd_buf b (\<lambda>y. y\<lparr>b_data := f (b_data y)\<rparr>)) (kseq (log_write b) (brelse b)) s1 = Ret () u"
      "trans_inv (insert b H - {b}) u" "log_step s1 u"
      "content u = (content s1)(b_blockno (st_bufs s1 b) := f (b_data (st_bufs s1 b)))"
      "\<And>k. log_room s1 k \<Longrightarrow> log_room u (k - 1)" "usable u = usable s1"
      "lh_n (l_lh (st_log u)) \<le> lh_n (l_lh (st_log s1)) + 1"
      "\<And>i. i \<noteq> b \<Longrightarrow> b_blockno (st_bufs u i) = b_blockno (st_bufs s1 i)"
      "\<And>i. i \<noteq> b \<Longrightarrow> b_data (st_bufs u i) = b_data (st_bufs s1 i)"
    show thesis
    proof (rule that)
      show "log_update n f s = Ret () u" using 1(1) u(1) by (simp add: log_update_def kbind_run)
      show "log_step s u" by (rule log_step_trans [OF 1(4) u(3)])
      show "b_blockno (st_bufs u i) = b_blockno (st_bufs s i)" "b_data (st_bufs u i) = b_data (st_bufs s i)" if "i \<in> H" for i
        using that u(8,9) [of i] 1(2) 1(9) [of i] by auto
    qed (use u 1 r1 i1 in auto)
  qed (use 1 r1 r n in auto)
qed

end
