(* ===== verification/Inode.thy ===== *)
theory Inode
  imports Trans
begin

text \<open>
  The block allocator and the inode layer of \<^verbatim>\<open>src/fs.c\<close>, with the on-disk structures of
  \<^verbatim>\<open>src/fs.h\<close> and \<^verbatim>\<open>struct inode\<close> of \<^verbatim>\<open>src/file.h\<close>.

  A pointer to an entry of the inode cache is its index; \<open>None\<close> is the null pointer. Following a
  null inode pointer would read and write user memory at address 0: it stops with \<open>Wild\<close>.
  On-disk inodes are decoded from and encoded into the 64 bytes they have in their block.
\<close>

section \<open>Constants and structures\<close>

definition ROOTINO :: nat where "ROOTINO = 1"
definition NDIRECT :: nat where "NDIRECT = 12"
definition NINDIRECT :: nat where "NINDIRECT = BSIZE div 4"
definition MAXFILE :: nat where "MAXFILE = NDIRECT + NINDIRECT"
definition IPB :: nat where "IPB = BSIZE div 64"
definition BPB :: nat where "BPB = BSIZE * 8"
definition DIRSIZ :: nat where "DIRSIZ = 14"

definition T_DIR :: ushort where "T_DIR = 1"
definition T_FILE :: ushort where "T_FILE = 2"
definition T_DEV :: ushort where "T_DEV = 3"

lemmas fs_consts = ROOTINO_def NDIRECT_def NINDIRECT_def MAXFILE_def IPB_def BPB_def DIRSIZ_def BSIZE_def

record dinode =
  d_type :: ushort
  d_major :: ushort
  d_minor :: ushort
  d_nlink :: ushort
  d_size :: uint
  d_addrs :: "nat \<Rightarrow> nat"

record inode = dinode +
  i_dev :: nat
  i_inum :: nat
  i_ref :: int
  i_valid :: bool

datatype devfns = NoDevice | ConsoleDevice

record fmach = wmach +
  st_sb :: superblock
  st_icache :: "nat \<Rightarrow> inode"
  st_devsw :: "nat \<Rightarrow> devfns"

definition IBLOCK :: "nat \<Rightarrow> superblock \<Rightarrow> nat" where
  "IBLOCK i sb = i div IPB + sb_inodestart sb"

definition BBLOCK :: "nat \<Rightarrow> superblock \<Rightarrow> nat" where
  "BBLOCK b sb = b div BPB + sb_bmapstart sb"

definition upd_inode :: "nat \<Rightarrow> (inode \<Rightarrow> inode) \<Rightarrow> ('a fmach_scheme, unit) K" where
  "upd_inode i f = kmod (\<lambda>s. s\<lparr>st_icache := (st_icache s)(i := f (st_icache s i))\<rparr>)"

definition getinode :: "nat \<Rightarrow> ('a fmach_scheme, inode) K" where
  "getinode i = kget (\<lambda>s. st_icache s i)"

section \<open>Inodes as bytes\<close>

definition le16 :: "ushort \<Rightarrow> uchar list" where
  "le16 v = [ucast v, ucast (drop_bit 8 v)]"

definition get16 :: "uchar list \<Rightarrow> nat \<Rightarrow> ushort" where
  "get16 d off = ucast (d ! off) OR push_bit 8 (ucast (d ! (off + 1)))"

definition encode_dinode :: "'a dinode_scheme \<Rightarrow> uchar list" where
  "encode_dinode x = le16 (d_type x) @ le16 (d_major x) @ le16 (d_minor x) @ le16 (d_nlink x)
     @ le_bytes (d_size x) @ concat (map (\<lambda>k. le_bytes (of_nat (d_addrs x k))) [0..<NDIRECT + 1])"

definition decode_dinode :: "uchar list \<Rightarrow> nat \<Rightarrow> dinode" where
  "decode_dinode d off =
     \<lparr>d_type = get16 d off, d_major = get16 d (off + 2), d_minor = get16 d (off + 4),
      d_nlink = get16 d (off + 6), d_size = get32 d (off + 8),
      d_addrs = (\<lambda>k. if k \<le> NDIRECT then unat (get32 d (off + 12 + 4 * k)) else 0)\<rparr>"

section \<open>Blocks\<close>

definition bzero :: "nat \<Rightarrow> nat \<Rightarrow> ('a fmach_scheme, unit) K" where
  "bzero dev bno =
     kbind (bread dev bno) (\<lambda>bp.
     kseq (upd_buf bp (\<lambda>b. b\<lparr>b_data := replicate BSIZE 0\<rparr>)) (
     kseq (log_write bp) (brelse bp)))"

definition bit_mask :: "nat \<Rightarrow> uchar" where
  "bit_mask bi = push_bit (bi mod 8) 1"

definition in_use :: "uchar list \<Rightarrow> nat \<Rightarrow> bool" where
  "in_use d bi \<longleftrightarrow> (d ! (bi div 8)) AND bit_mask bi \<noteq> 0"

fun balloc_loop :: "nat \<Rightarrow> nat list \<Rightarrow> ('a fmach_scheme, nat) K" where
  "balloc_loop dev [] = panic ''balloc: out of blocks''"
| "balloc_loop dev (b # bs) =
     kbind (kget st_sb) (\<lambda>sb.
     kbind (bread dev (BBLOCK b sb)) (\<lambda>bp.
     kbind (getbuf bp) (\<lambda>x.
     case find (\<lambda>bi. \<not> in_use (b_data x) bi) [0..<min BPB (sb_size sb - b)] of
       Some bi \<Rightarrow>
         kseq (upd_buf bp (\<lambda>y. y\<lparr>b_data := (b_data y)[bi div 8 := (b_data y ! (bi div 8)) OR bit_mask bi]\<rparr>)) (
         kseq (log_write bp) (
         kseq (brelse bp) (
         kseq (bzero dev (b + bi)) (ret (b + bi)))))
     | None \<Rightarrow> kseq (brelse bp) (balloc_loop dev bs))))"

definition balloc :: "nat \<Rightarrow> ('a fmach_scheme, nat) K" where
  "balloc dev =
     kbind (kget st_sb) (\<lambda>sb.
     balloc_loop dev (map (\<lambda>k. k * BPB) [0..<(sb_size sb + BPB - 1) div BPB]))"

definition bfree :: "nat \<Rightarrow> nat \<Rightarrow> ('a fmach_scheme, unit) K" where
  "bfree dev b =
     kbind (kget st_sb) (\<lambda>sb.
     kbind (bread dev (BBLOCK b sb)) (\<lambda>bp.
     kbind (getbuf bp) (\<lambda>x.
     let bi = b mod BPB in
     if \<not> in_use (b_data x) bi then panic ''freeing free block''
     else
       kseq (upd_buf bp (\<lambda>y. y\<lparr>b_data :=
              (b_data y)[bi div 8 := (b_data y ! (bi div 8)) AND NOT (bit_mask bi)]\<rparr>)) (
       kseq (log_write bp) (brelse bp)))))"

section \<open>The inode cache\<close>

definition iinit :: "nat \<Rightarrow> ('a fmach_scheme, unit) K" where
  "iinit dev =
     kseq (initlock IcacheLock ''icache'') (
     kseq (kfor (\<lambda>i. initsleeplock (InodeSL i) ''inode'') [0..<NINODE]) (
     kbind (readsb dev) (\<lambda>sb.
     kseq (kmod (\<lambda>s. s\<lparr>st_sb := sb\<rparr>))
          (kprint ''sb: size %d nblocks %d ninodes %d nlog %d logstart %d inodestart %d bmap start %d''))))"

text \<open>
  The loop of \<open>iget\<close> returns at the first entry in use for that inode; if there is none, it has
  remembered the first entry that is free.
\<close>

definition iget :: "nat \<Rightarrow> nat \<Rightarrow> ('a fmach_scheme, nat) K" where
  "iget dev inum =
     kseq (acquire IcacheLock) (
     kbind (kget st_icache) (\<lambda>ic.
     case find (\<lambda>i. i_ref (ic i) > 0 \<and> i_dev (ic i) = dev \<and> i_inum (ic i) = inum) [0..<NINODE] of
       Some i \<Rightarrow>
         kseq (upd_inode i (\<lambda>x. x\<lparr>i_ref := i_ref x + 1\<rparr>)) (
         kseq (release IcacheLock) (ret i))
     | None \<Rightarrow>
         (case find (\<lambda>i. i_ref (ic i) = 0) [0..<NINODE] of
            None \<Rightarrow> panic ''iget: no inodes''
          | Some i \<Rightarrow>
              kseq (upd_inode i (\<lambda>x. x\<lparr>i_dev := dev, i_inum := inum, i_ref := 1, i_valid := False\<rparr>)) (
              kseq (release IcacheLock) (ret i)))))"

fun ialloc_loop :: "nat \<Rightarrow> ushort \<Rightarrow> nat list \<Rightarrow> ('a fmach_scheme, nat) K" where
  "ialloc_loop dev type [] = panic ''ialloc: no inodes''"
| "ialloc_loop dev type (inum # is) =
     kbind (kget st_sb) (\<lambda>sb.
     kbind (bread dev (IBLOCK inum sb)) (\<lambda>bp.
     kbind (getbuf bp) (\<lambda>x.
     let off = 64 * (inum mod IPB) in
     if get16 (b_data x) off = 0
     then
       kseq (upd_buf bp (\<lambda>y. y\<lparr>b_data := splice (splice (b_data y) off (replicate 64 0)) off (le16 type)\<rparr>)) (
       kseq (log_write bp) (
       kseq (brelse bp) (iget dev inum)))
     else kseq (brelse bp) (ialloc_loop dev type is))))"

definition ialloc :: "nat \<Rightarrow> ushort \<Rightarrow> ('a fmach_scheme, nat) K" where
  "ialloc dev type = kbind (kget st_sb) (\<lambda>sb. ialloc_loop dev type [1..<sb_ninodes sb])"

definition iupdate :: "nat \<Rightarrow> ('a fmach_scheme, unit) K" where
  "iupdate i =
     kbind (getinode i) (\<lambda>ip.
     kbind (kget st_sb) (\<lambda>sb.
     kbind (bread (i_dev ip) (IBLOCK (i_inum ip) sb)) (\<lambda>bp.
     kseq (upd_buf bp (\<lambda>y. y\<lparr>b_data := splice (b_data y) (64 * (i_inum ip mod IPB)) (encode_dinode ip)\<rparr>)) (
     kseq (log_write bp) (brelse bp)))))"

definition idup :: "nat option \<Rightarrow> ('a fmach_scheme, nat option) K" where
  "idup ip = (case ip of None \<Rightarrow> kstop (Wild ''null inode'') | Some i \<Rightarrow>
     kseq (acquire IcacheLock) (
     kseq (upd_inode i (\<lambda>x. x\<lparr>i_ref := i_ref x + 1\<rparr>)) (
     kseq (release IcacheLock) (ret (Some i)))))"

definition ilock :: "nat option \<Rightarrow> ('a fmach_scheme, unit) K" where
  "ilock p = (case p of None \<Rightarrow> panic ''ilock'' | Some i \<Rightarrow>
     kbind (getinode i) (\<lambda>ip.
     if i_ref ip < 1 then panic ''ilock''
     else
       kseq (acquiresleep (InodeSL i)) (
       kbind (getinode i) (\<lambda>ip.
       kwhen (\<not> i_valid ip) (
         kbind (kget st_sb) (\<lambda>sb.
         kbind (bread (i_dev ip) (IBLOCK (i_inum ip) sb)) (\<lambda>bp.
         kbind (getbuf bp) (\<lambda>b.
         let di = decode_dinode (b_data b) (64 * (i_inum ip mod IPB)) in
         kseq (upd_inode i (\<lambda>x. x\<lparr>d_type := d_type di, d_major := d_major di, d_minor := d_minor di,
                 d_nlink := d_nlink di, d_size := d_size di, d_addrs := d_addrs di\<rparr>)) (
         kseq (brelse bp) (
         kseq (upd_inode i (\<lambda>x. x\<lparr>i_valid := True\<rparr>))
              (if d_type di = 0 then panic ''ilock: no type'' else ret ())))))))))))"

definition iunlock :: "nat option \<Rightarrow> ('a fmach_scheme, unit) K" where
  "iunlock p = (case p of None \<Rightarrow> panic ''iunlock'' | Some i \<Rightarrow>
     kbind (holdingsleep (InodeSL i)) (\<lambda>h.
     kbind (getinode i) (\<lambda>ip.
     if \<not> h \<or> i_ref ip < 1 then panic ''iunlock'' else releasesleep (InodeSL i))))"

section \<open>Contents of an inode\<close>

definition bmap :: "nat \<Rightarrow> nat \<Rightarrow> ('a fmach_scheme, nat) K" where
  "bmap i bn =
     kbind (getinode i) (\<lambda>ip.
     if bn < NDIRECT
     then
       (if d_addrs ip bn = 0
        then
          kbind (balloc (i_dev ip)) (\<lambda>addr.
          kseq (upd_inode i (\<lambda>x. x\<lparr>d_addrs := (d_addrs x)(bn := addr)\<rparr>)) (ret addr))
        else ret (d_addrs ip bn))
     else
       let bn = bn - NDIRECT in
       if bn < NINDIRECT
       then
         kbind (if d_addrs ip NDIRECT = 0
                then
                  kbind (balloc (i_dev ip)) (\<lambda>addr.
                  kseq (upd_inode i (\<lambda>x. x\<lparr>d_addrs := (d_addrs x)(NDIRECT := addr)\<rparr>)) (ret addr))
                else ret (d_addrs ip NDIRECT)) (\<lambda>ind.
         kbind (bread (i_dev ip) ind) (\<lambda>bp.
         kbind (getbuf bp) (\<lambda>b.
         let addr = unat (get32 (b_data b) (4 * bn)) in
         kbind (if addr = 0
                then
                  kbind (balloc (i_dev ip)) (\<lambda>addr.
                  kseq (upd_buf bp (\<lambda>y. y\<lparr>b_data := put32 (b_data y) (4 * bn) (of_nat addr)\<rparr>)) (
                  kseq (log_write bp) (ret addr)))
                else ret addr) (\<lambda>addr.
         kseq (brelse bp) (ret addr)))))
       else panic ''bmap: out of range'')"

definition itrunc :: "nat \<Rightarrow> ('a fmach_scheme, unit) K" where
  "itrunc i =
     kseq (kfor (\<lambda>k.
             kbind (getinode i) (\<lambda>ip.
             kwhen (d_addrs ip k \<noteq> 0) (
               kseq (bfree (i_dev ip) (d_addrs ip k))
                    (upd_inode i (\<lambda>x. x\<lparr>d_addrs := (d_addrs x)(k := 0)\<rparr>))))) [0..<NDIRECT]) (
     kseq (kbind (getinode i) (\<lambda>ip.
           kwhen (d_addrs ip NDIRECT \<noteq> 0) (
             kbind (bread (i_dev ip) (d_addrs ip NDIRECT)) (\<lambda>bp.
             kseq (kfor (\<lambda>j.
                     kbind (getbuf bp) (\<lambda>b.
                     let a = unat (get32 (b_data b) (4 * j)) in
                     kwhen (a \<noteq> 0) (bfree (i_dev ip) a))) [0..<NINDIRECT]) (
             kseq (brelse bp) (
             kseq (bfree (i_dev ip) (d_addrs ip NDIRECT))
                  (upd_inode i (\<lambda>x. x\<lparr>d_addrs := (d_addrs x)(NDIRECT := 0)\<rparr>)))))))) (
     kseq (upd_inode i (\<lambda>x. x\<lparr>d_size := 0\<rparr>)) (iupdate i)))"

definition iput :: "nat option \<Rightarrow> ('a fmach_scheme, unit) K" where
  "iput p = (case p of None \<Rightarrow> kstop (Wild ''null inode'') | Some i \<Rightarrow>
     kseq (acquiresleep (InodeSL i)) (
     kseq (kbind (getinode i) (\<lambda>ip.
           kwhen (i_valid ip \<and> d_nlink ip = 0) (
             kseq (acquire IcacheLock) (
             kbind (getinode i) (\<lambda>ip.
             kseq (release IcacheLock) (
             kwhen (i_ref ip = 1) (
               kseq (itrunc i) (
               kseq (upd_inode i (\<lambda>x. x\<lparr>d_type := 0\<rparr>)) (
               kseq (iupdate i)
                    (upd_inode i (\<lambda>x. x\<lparr>i_valid := False\<rparr>))))))))))) (
     kseq (releasesleep (InodeSL i)) (
     kseq (acquire IcacheLock) (
     kseq (upd_inode i (\<lambda>x. x\<lparr>i_ref := i_ref x - 1\<rparr>)) (release IcacheLock))))))"

definition iunlockput :: "nat option \<Rightarrow> ('a fmach_scheme, unit) K" where
  "iunlockput p = kseq (iunlock p) (iput p)"

record stat =
  stat_type :: ushort
  stat_dev :: nat
  stat_ino :: nat
  stat_nlink :: ushort
  stat_size :: uint

definition stati :: "nat \<Rightarrow> ('a fmach_scheme, stat) K" where
  "stati i =
     kbind (getinode i) (\<lambda>ip.
     ret \<lparr>stat_type = d_type ip, stat_dev = i_dev ip, stat_ino = i_inum ip,
          stat_nlink = d_nlink ip, stat_size = d_size ip\<rparr>)"

section \<open>Frame\<close>

lemma icache_frame [simp]:
  "cpuno (s\<lparr>st_icache := x\<rparr>) = cpuno s" "cur (s\<lparr>st_icache := x\<rparr>) = cur s"
  "cpu_ok (s\<lparr>st_icache := x\<rparr>) = cpu_ok s" "lock_free (s\<lparr>st_icache := x\<rparr>) l = lock_free s l"
  "holds (s\<lparr>st_icache := x\<rparr>) c l = holds s c l" "IF_on (s\<lparr>st_icache := x\<rparr>) = IF_on s"
  "cpuno (s\<lparr>st_sb := y\<rparr>) = cpuno s" "cur (s\<lparr>st_sb := y\<rparr>) = cur s"
  "cpu_ok (s\<lparr>st_sb := y\<rparr>) = cpu_ok s" "lock_free (s\<lparr>st_sb := y\<rparr>) l = lock_free s l"
  "holds (s\<lparr>st_sb := y\<rparr>) c l = holds s c l" "IF_on (s\<lparr>st_sb := y\<rparr>) = IF_on s"
  "cpuno (s\<lparr>st_devsw := z\<rparr>) = cpuno s" "cur (s\<lparr>st_devsw := z\<rparr>) = cur s"
  "cpu_ok (s\<lparr>st_devsw := z\<rparr>) = cpu_ok s" "lock_free (s\<lparr>st_devsw := z\<rparr>) l = lock_free s l"
  "holds (s\<lparr>st_devsw := z\<rparr>) c l = holds s c l" "IF_on (s\<lparr>st_devsw := z\<rparr>) = IF_on s"
  by (simp_all add: cpuno_def cur_def cpu_ok_def lock_free_def holds_def IF_on_def)

lemma acquired_icache [kframe]:
  "(acquired l s)\<lparr>st_icache := x\<rparr> = acquired l (s\<lparr>st_icache := x\<rparr>)"
  "(acquired l s)\<lparr>st_sb := y\<rparr> = acquired l (s\<lparr>st_sb := y\<rparr>)"
  "(acquired l s)\<lparr>st_devsw := z\<rparr> = acquired l (s\<lparr>st_devsw := z\<rparr>)"
  by (simp_all add: acquired_def pushed_def IF_on_def)

lemma acquired_icache_sel [simp]:
  "st_icache (acquired l s) = st_icache s"
  "st_sb (acquired l s) = st_sb s"
  "st_devsw (acquired l s) = st_devsw s"
  by (simp_all add: acquired_def pushed_def)

section \<open>An example\<close>

definition ex_inode :: inode where
  "ex_inode = \<lparr>d_type = 0, d_major = 0, d_minor = 0, d_nlink = 0, d_size = 0, d_addrs = (\<lambda>_. 0),
     i_dev = 0, i_inum = 0, i_ref = 0, i_valid = False\<rparr>"

definition ex_fmach :: fmach where
  "ex_fmach = wmach.extend ex_wmach (fmach.fields
     \<lparr>sb_size = 1000, sb_nblocks = 941, sb_ninodes = 200, sb_nlog = 30, sb_logstart = 2, sb_inodestart = 32, sb_bmapstart = 58\<rparr>
     (\<lambda>_. ex_inode) (\<lambda>_. NoDevice))"

lemma ex_fmach_mach: "mach.truncate ex_fmach = ex_mach"
  unfolding ex_wmach_mach [symmetric] by (simp add: ex_fmach_def mach.defs wmach.defs)

lemma ex_fmach_simps [simp]:
  "st_procs ex_fmach = st_procs ex_pmach" "m_cpus ex_fmach = m_cpus ex_pmach" "st_slocks ex_fmach = st_slocks ex_smach"
  "st_disk ex_fmach = (\<lambda>n. replicate 512 0)" "st_disksize ex_fmach = 1000" "st_dwrites ex_fmach = []"
  "st_bufs ex_fmach = ex_bufs" "st_log ex_fmach = st_log ex_wmach"
  "st_sb ex_fmach = \<lparr>sb_size = 1000, sb_nblocks = 941, sb_ninodes = 200, sb_nlog = 30, sb_logstart = 2,
     sb_inodestart = 32, sb_bmapstart = 58\<rparr>"
  "st_icache ex_fmach = (\<lambda>_. ex_inode)" "st_devsw ex_fmach = (\<lambda>_. NoDevice)"
  using ex_wmach_simps by (simp_all add: ex_fmach_def wmach.defs fmach.defs)

lemma ex_fmach_ok: "running 0 ex_fmach" "cpu_ok ex_fmach" "lock_free ex_fmach l"
proof -
  have "cur ex_fmach = 0" "cpu_ok ex_fmach" "lock_free ex_fmach l" for l
    using ex_mach_ok by (simp_all flip: ex_fmach_mach add: mach_truncate)
  then show "running 0 ex_fmach" "cpu_ok ex_fmach" "lock_free ex_fmach l"
    by (simp_all add: running_def two_cpus_def)
qed

section \<open>The free bitmap\<close>

lemma in_use_bit: "in_use d bi \<longleftrightarrow> bit (d ! (bi div 8)) (bi mod 8)"
proof -
  have "d ! (bi div 8) AND bit_mask bi = (if bit (d ! (bi div 8)) (bi mod 8) then push_bit (bi mod 8) 1 else 0)"
    by (rule bit_word_eqI) (auto simp: bit_mask_def bit_simps)
  moreover have "push_bit (bi mod 8) (1 :: uchar) \<noteq> 0"
  proof
    assume "push_bit (bi mod 8) (1 :: uchar) = 0"
    then have "bit (push_bit (bi mod 8) (1 :: uchar)) (bi mod 8) = bit (0 :: uchar) (bi mod 8)" by simp
    then show False by (simp add: bit_simps)
  qed
  ultimately show ?thesis by (simp add: in_use_def)
qed

lemma in_use_set:
  assumes "bi div 8 < length d" "bj div 8 < length d"
  shows "in_use (d[bi div 8 := d ! (bi div 8) OR bit_mask bi]) bj \<longleftrightarrow> bj = bi \<or> in_use d bj"
proof (cases "bj div 8 = bi div 8")
  case True
  have "bj = bi \<longleftrightarrow> bj mod 8 = bi mod 8" using True by (metis div_mult_mod_eq)
  then show ?thesis using assms True by (auto simp: in_use_bit bit_mask_def bit_simps)
next
  case False
  then show ?thesis using assms by (auto simp: in_use_bit)
qed

lemma in_use_clear:
  assumes "bi div 8 < length d" "bj div 8 < length d"
  shows "in_use (d[bi div 8 := d ! (bi div 8) AND NOT (bit_mask bi)]) bj \<longleftrightarrow> bj \<noteq> bi \<and> in_use d bj"
proof (cases "bj div 8 = bi div 8")
  case True
  have "bj = bi \<longleftrightarrow> bj mod 8 = bi mod 8" using True by (metis div_mult_mod_eq)
  then show ?thesis using assms True by (auto simp: in_use_bit bit_mask_def bit_simps)
next
  case False
  then show ?thesis using assms by (auto simp: in_use_bit)
qed

text \<open>A block is free when its bit in the bitmap is clear.\<close>

definition block_free :: "(nat \<Rightarrow> uchar list) \<Rightarrow> superblock \<Rightarrow> nat \<Rightarrow> bool" where
  "block_free c sb b \<longleftrightarrow> \<not> in_use (c (BBLOCK b sb)) (b mod BPB)"

definition bitmap_blocks :: "superblock \<Rightarrow> nat set" where
  "bitmap_blocks sb = {sb_bmapstart sb..<sb_bmapstart sb + (sb_size sb + BPB - 1) div BPB}"

definition mark_used :: "superblock \<Rightarrow> nat \<Rightarrow> (nat \<Rightarrow> uchar list) \<Rightarrow> (nat \<Rightarrow> uchar list)" where
  "mark_used sb b c = (let d = c (BBLOCK b sb); bi = b mod BPB in
     c(BBLOCK b sb := d[bi div 8 := d ! (bi div 8) OR bit_mask bi]))"

definition mark_free :: "superblock \<Rightarrow> nat \<Rightarrow> (nat \<Rightarrow> uchar list) \<Rightarrow> (nat \<Rightarrow> uchar list)" where
  "mark_free sb b c = (let d = c (BBLOCK b sb); bi = b mod BPB in
     c(BBLOCK b sb := d[bi div 8 := d ! (bi div 8) AND NOT (bit_mask bi)]))"

lemma block_free_mark:
  assumes "length (c (BBLOCK b sb)) = BSIZE"
  shows "block_free (mark_used sb b c) sb b' \<longleftrightarrow> b' \<noteq> b \<and> block_free c sb b'"
    "block_free (mark_free sb b c) sb b' \<longleftrightarrow> b' = b \<or> block_free c sb b'"
proof -
  have l: "x mod BPB div 8 < BSIZE" for x by (simp add: fs_consts less_mult_imp_div_less)
  have eq: "b' = b \<longleftrightarrow> b' mod BPB = b mod BPB" if "BBLOCK b' sb = BBLOCK b sb"
    using that by (metis BBLOCK_def add_right_cancel div_mult_mod_eq)
  show "block_free (mark_used sb b c) sb b' \<longleftrightarrow> b' \<noteq> b \<and> block_free c sb b'"
    "block_free (mark_free sb b c) sb b' \<longleftrightarrow> b' = b \<or> block_free c sb b'"
    using eq in_use_set [of "b mod BPB" "c (BBLOCK b sb)" "b' mod BPB"] in_use_clear [of "b mod BPB" "c (BBLOCK b sb)" "b' mod BPB"]
      l assms by (auto simp: block_free_def mark_used_def mark_free_def Let_def)
qed

section \<open>Allocating a block\<close>

lemma log_step_fs:
  fixes s t :: "'a fmach_scheme"
  assumes "log_step s t"
  shows "st_sb t = st_sb s" "st_icache t = st_icache s"
  by (subst log_step_eq [OF assms], simp)+

lemma bzero_update: "bzero 1 n = log_update n (\<lambda>_. replicate BSIZE 0)"
  by (simp add: bzero_def log_update_def)

definition alloc_ready :: "nat set \<Rightarrow> 'a fmach_scheme \<Rightarrow> bool" where
  "alloc_ready H s \<longleftrightarrow> trans_inv H s \<and> log_room s 2 \<and> card H \<le> 1 \<and> finite H
     \<and> (\<forall>n\<in>bitmap_blocks (st_sb s). usable s n \<and> not_held H s n \<and> length (content s n) = BSIZE)
     \<and> (\<forall>b < sb_size (st_sb s). block_free (content s) (st_sb s) b \<longrightarrow>
          usable s b \<and> not_held H s b \<and> b \<notin> bitmap_blocks (st_sb s))"

definition allocated :: "superblock \<Rightarrow> nat \<Rightarrow> (nat \<Rightarrow> uchar list) \<Rightarrow> (nat \<Rightarrow> uchar list)" where
  "allocated sb b c = (mark_used sb b c)(b := replicate BSIZE 0)"

lemma alloc_room:
  assumes "alloc_ready H s"
  shows "lh_n (l_lh (st_log s)) + int (card H) < int NBUF" "lh_n (l_lh (st_log s)) + 1 + int (card H) < int NBUF"
    "log_room s 1"
  using assms trans_invD(7) [of H s] by (auto simp: alloc_ready_def log_room_def param_defs)

lemma bitmap_scan:
  assumes "k * BPB \<le> sb_size sb"
  shows "case find (\<lambda>bi. \<not> in_use (c (BBLOCK (k * BPB) sb)) bi) [0..<min BPB (sb_size sb - k * BPB)] of
      Some bi \<Rightarrow> bi < BPB \<and> k * BPB + bi < sb_size sb \<and> block_free c sb (k * BPB + bi)
        \<and> (\<forall>b. k * BPB \<le> b \<longrightarrow> b < k * BPB + bi \<longrightarrow> \<not> block_free c sb b)
    | None \<Rightarrow> (\<forall>b. k * BPB \<le> b \<longrightarrow> b < Suc k * BPB \<longrightarrow> b < sb_size sb \<longrightarrow> \<not> block_free c sb b)"
proof -
  have pos: "0 < BPB" by (simp add: fs_consts)
  have f: "block_free c sb (k * BPB + bi) \<longleftrightarrow> \<not> in_use (c (BBLOCK (k * BPB) sb)) bi" if "bi < BPB" for bi
    using that pos by (simp add: block_free_def BBLOCK_def)
  have ex: "\<exists>bi. b = k * BPB + bi" if "k * BPB \<le> b" for b using that by (metis le_add_diff_inverse)
  show ?thesis
  proof (cases "find (\<lambda>bi. \<not> in_use (c (BBLOCK (k * BPB) sb)) bi) [0..<min BPB (sb_size sb - k * BPB)]")
    case None
    then have u: "\<And>bi. bi < BPB \<Longrightarrow> bi < sb_size sb - k * BPB \<Longrightarrow> in_use (c (BBLOCK (k * BPB) sb)) bi"
      by (simp add: find_None_iff)
    have "\<not> block_free c sb b" if b: "k * BPB \<le> b" "b < Suc k * BPB" "b < sb_size sb" for b
    proof -
      obtain bi where bi: "b = k * BPB + bi" using ex [OF b(1)] by blast
      then have "bi < BPB" "bi < sb_size sb - k * BPB" using b by auto
      then show ?thesis using u f bi by simp
    qed
    then show ?thesis using None by simp
  next
    case (Some bi)
    then have bi: "bi < BPB" "bi < sb_size sb - k * BPB" "\<not> in_use (c (BBLOCK (k * BPB) sb)) bi"
        "\<And>j. j < bi \<Longrightarrow> in_use (c (BBLOCK (k * BPB) sb)) j"
      by (auto simp: find_Some_iff)
    have "\<not> block_free c sb b" if b: "k * BPB \<le> b" "b < k * BPB + bi" for b
    proof -
      obtain j where j: "b = k * BPB + j" using ex [OF b(1)] by blast
      then show ?thesis using bi(1) bi(4) [of j] f [of j] b by simp
    qed
    then show ?thesis using Some bi f by simp
  qed
qed

text \<open>The block found: its bit is set, and the block is zeroed.\<close>

lemma bblock_in: "b < sb_size sb \<Longrightarrow> BBLOCK b sb \<in> bitmap_blocks sb"
proof -
  assume "b < sb_size sb"
  then have "b div BPB < (sb_size sb + BPB - 1) div BPB" by (simp add: fs_consts)
  then show ?thesis by (simp add: BBLOCK_def bitmap_blocks_def)
qed

lemma balloc_take:
  fixes s :: "'a fmach_scheme"
  defines "sb \<equiv> st_sb s" and "c \<equiv> content s"
  assumes r: "alloc_ready H s" and b: "b < sb_size sb" "block_free c sb b"
    and q: "trans_inv (insert bp H) t" "bp \<notin> H" "log_step s t" "st_log t = st_log s" "b_blockno (st_bufs t bp) = BBLOCK b sb"
      "b_data (st_bufs t bp) = c (BBLOCK b sb)" "content t = c" "\<And>i. i \<noteq> bp \<Longrightarrow> st_bufs t i = st_bufs s i"
  obtains u :: "'a fmach_scheme" where
    "kseq (upd_buf bp (\<lambda>y. y\<lparr>b_data := (b_data y)[b mod BPB div 8 := (b_data y ! (b mod BPB div 8)) OR bit_mask (b mod BPB)]\<rparr>)) (
       kseq (log_write bp) (kseq (brelse bp) (kseq (bzero 1 b) (ret b)))) t = Ret b u"
    "trans_inv H u" "log_step s u" "content u = allocated sb b c" "\<And>k. log_room s k \<Longrightarrow> log_room u (k - 2)" "usable u = usable s"
    "\<And>i. i \<in> H \<Longrightarrow> b_blockno (st_bufs u i) = b_blockno (st_bufs s i)"
    "\<And>i. i \<in> H \<Longrightarrow> b_data (st_bufs u i) = b_data (st_bufs s i)"
proof -
  have bm: "BBLOCK b sb \<in> bitmap_blocks sb" by (rule bblock_in [OF b(1)])
  have us: "usable s (BBLOCK b sb)" "usable s b" "not_held H s b" "b \<noteq> BBLOCK b sb"
    using r bm b unfolding alloc_ready_def sb_def c_def by auto
  have lr: "log_room t k = log_room s k" "usable t = usable s" for k
    using q(4) log_step_rest(1) [OF q(3)] by (simp_all add: log_room_def usable_def fun_eq_iff)
  have iH: "insert bp H - {bp} = H" using q(2) by auto
  let ?f = "\<lambda>d. d[b mod BPB div 8 := (d ! (b mod BPB div 8)) OR bit_mask (b mod BPB)]"
  obtain u :: "'a fmach_scheme" where
    u: "kseq (upd_buf bp (\<lambda>y. y\<lparr>b_data := ?f (b_data y)\<rparr>)) (kseq (log_write bp) (brelse bp)) t = Ret () u"
    "trans_inv (insert bp H - {bp}) u" "log_step t u" "content u = c(BBLOCK b sb := ?f (c (BBLOCK b sb)))"
    "\<And>k. log_room t k \<Longrightarrow> log_room u (k - 1)" "usable u = usable t"
    "lh_n (l_lh (st_log u)) \<le> lh_n (l_lh (st_log t)) + 1"
    "\<And>i. i \<noteq> bp \<Longrightarrow> b_blockno (st_bufs u i) = b_blockno (st_bufs t i)"
    "\<And>i. i \<noteq> bp \<Longrightarrow> b_data (st_bufs u i) = b_data (st_bufs t i)"
    by (rule trans_finish [OF q(1), of bp ?f]) (use us lr alloc_room(3) [OF r] q(5,6,7) in auto)
  have cu: "content u = mark_used sb b c" using u(4) by (simp add: mark_used_def Let_def)
  have H: "\<And>i. i \<in> H \<Longrightarrow> b_blockno (st_bufs u i) = b_blockno (st_bufs s i) \<and> b_data (st_bufs u i) = b_data (st_bufs s i)"
    using u(8,9) q(2,8) by metis
  have lu: "log_room u 1" "usable u b" "not_held H u b" "lh_n (l_lh (st_log u)) + int (card H) < int NBUF"
    using u(5) [of 2] u(6) lr r us H alloc_room(2) [OF r] u(7) q(4) by (auto simp: alloc_ready_def not_held_def)
  obtain v :: "'a fmach_scheme" where v: "log_update b (\<lambda>_. replicate BSIZE 0) u = Ret () v" "trans_inv H v" "log_step u v"
    "content v = (content u)(b := replicate BSIZE 0)" "\<And>k. log_room u k \<Longrightarrow> log_room v (k - 1)" "usable v = usable u"
    "\<And>i. i \<in> H \<Longrightarrow> b_blockno (st_bufs v i) = b_blockno (st_bufs u i)"
    "\<And>i. i \<in> H \<Longrightarrow> b_data (st_bufs v i) = b_data (st_bufs u i)"
    by (rule log_update_run [OF u(2) [unfolded iH] lu(1) lu(2) lu(3) lu(4), of "\<lambda>_. replicate BSIZE 0"]) auto
  have "log_room v (k - 2)" if "log_room s k" for k
    using v(5) [of "k - 1"] u(5) [of k] lr(1) [of k] that by simp
  moreover have "kseq (upd_buf bp (\<lambda>y. y\<lparr>b_data := ?f (b_data y)\<rparr>)) (
       kseq (log_write bp) (kseq (brelse bp) (kseq (bzero 1 b) (ret b)))) t = Ret b v"
    using u(1) v(1) unfolding bzero_update by (auto simp: kseq_run split: outcome.splits)
  ultimately show ?thesis
    by (intro that [of v]) (use v u(6) lr cu H log_step_trans [OF q(3) log_step_trans [OF u(3) v(3)]] in \<open>auto simp: allocated_def\<close>)
qed

definition free_from :: "'a fmach_scheme \<Rightarrow> nat \<Rightarrow> nat \<Rightarrow> bool" where
  "free_from s lo b \<longleftrightarrow> lo \<le> b \<and> b < sb_size (st_sb s) \<and> block_free (content s) (st_sb s) b"

definition balloc_result :: "nat set \<Rightarrow> 'a fmach_scheme \<Rightarrow> (nat \<Rightarrow> bool) \<Rightarrow> ('a fmach_scheme, nat) outcome \<Rightarrow> bool" where
  "balloc_result H s F r \<longleftrightarrow> (if \<exists>b. F b
     then \<exists>u. r = Ret (Least F) u \<and> trans_inv H u \<and> log_step s u
       \<and> content u = allocated (st_sb s) (Least F) (content s) \<and> (\<forall>k. log_room s k \<longrightarrow> log_room u (k - 2)) \<and> usable u = usable s
       \<and> (\<forall>i\<in>H. b_blockno (st_bufs u i) = b_blockno (st_bufs s i) \<and> b_data (st_bufs u i) = b_data (st_bufs s i))
     else \<exists>u. r = Stop (Panic ''balloc: out of blocks'') u)"

lemma balloc_result_frame:
  assumes "balloc_result H u F r" "log_step s u" "st_sb u = st_sb s" "content u = content s" "usable u = usable s"
    "\<And>k. log_room u k = log_room s k"
    "\<And>i. i \<in> H \<Longrightarrow> b_blockno (st_bufs u i) = b_blockno (st_bufs s i) \<and> b_data (st_bufs u i) = b_data (st_bufs s i)"
  shows "balloc_result H s F r"
proof (cases "\<exists>b. F b")
  case True
  then obtain v where v: "r = Ret (Least F) v" "trans_inv H v" "log_step u v" "content v = allocated (st_sb u) (Least F) (content u)"
      "\<forall>k. log_room u k \<longrightarrow> log_room v (k - 2)" "usable v = usable u"
      "\<forall>i\<in>H. b_blockno (st_bufs v i) = b_blockno (st_bufs u i) \<and> b_data (st_bufs v i) = b_data (st_bufs u i)"
    using assms(1) unfolding balloc_result_def by auto
  then show ?thesis
    using True assms(3-7) log_step_trans [OF assms(2) v(3)] unfolding balloc_result_def by simp
next
  case False
  then show ?thesis using assms(1) by (simp add: balloc_result_def)
qed

lemma balloc_loop_run:
  fixes s :: "'a fmach_scheme"
  assumes "alloc_ready H s" "j \<le> (sb_size (st_sb s) + BPB - 1) div BPB"
  shows "balloc_result H s (free_from s (j * BPB)) (balloc_loop 1 (map (\<lambda>k. k * BPB) [j..<(sb_size (st_sb s) + BPB - 1) div BPB]) s)"
  using assms
proof (induction "(sb_size (st_sb s) + BPB - 1) div BPB - j" arbitrary: j s)
  case 0
  let ?N = "(sb_size (st_sb s) + BPB - 1) div BPB"
  have j: "j = ?N" using 0 by simp
  have "sb_size (st_sb s) \<le> ?N * BPB" by (simp add: fs_consts)
  then have "\<not> (\<exists>b. free_from s (j * BPB) b)" unfolding j free_from_def by auto
  then show ?case by (simp add: balloc_result_def j panic_def)
next
  case (Suc n)
  let ?sb = "st_sb s" and ?c = "content s" and ?N = "(sb_size (st_sb s) + BPB - 1) div BPB"
  have j: "j < ?N" "[j..<?N] = j # [Suc j..<?N]" using Suc(2) by (auto simp: upt_conv_Cons)
  have jb: "j * BPB < sb_size ?sb" using j(1) by (simp add: fs_consts)
  have bb: "BBLOCK (j * BPB) ?sb = j + sb_bmapstart ?sb" by (simp add: BBLOCK_def fs_consts)
  have us: "usable s (BBLOCK (j * BPB) ?sb)" "not_held H s (BBLOCK (j * BPB) ?sb)" "trans_inv H s"
    using Suc.prems(1) j(1) by (auto simp: alloc_ready_def bitmap_blocks_def bb)
  obtain bp and t :: "'a fmach_scheme" where t: "bread 1 (BBLOCK (j * BPB) ?sb) s = Ret bp t" "bp \<notin> H" "trans_inv (insert bp H) t" "log_step s t"
    "st_log t = st_log s" "b_blockno (st_bufs t bp) = BBLOCK (j * BPB) ?sb" "b_data (st_bufs t bp) = ?c (BBLOCK (j * BPB) ?sb)" "content t = ?c"
    "\<And>i. i \<noteq> bp \<Longrightarrow> st_bufs t i = st_bufs s i" "releasable t bp"
    by (rule trans_bread [OF us(3) _ us(2) alloc_room(1) [OF Suc.prems(1)]]) (use us(1) in \<open>auto simp: usable_def\<close>)
  note sc = bitmap_scan [OF less_imp_le [OF jb], of ?c]
  show ?case
  proof (cases "find (\<lambda>bi. \<not> in_use (?c (BBLOCK (j * BPB) ?sb)) bi) [0..<min BPB (sb_size ?sb - j * BPB)]")
    case (Some bi)
    let ?b = "j * BPB + bi"
    have b: "bi < BPB" "?b < sb_size ?sb" "block_free ?c ?sb ?b" "\<And>b. j * BPB \<le> b \<Longrightarrow> b < ?b \<Longrightarrow> \<not> block_free ?c ?sb b"
      using sc Some by auto
    have fb: "free_from s (j * BPB) ?b" using b(2,3) by (simp add: free_from_def)
    have lst: "Least (free_from s (j * BPB)) = ?b" "\<exists>b. free_from s (j * BPB) b"
      using b(4) fb by (auto intro!: Least_equality leI simp only: free_from_def)
    have B: "?b mod BPB = bi" "BBLOCK ?b ?sb = BBLOCK (j * BPB) ?sb" using b(1) by (simp_all add: BBLOCK_def)
    obtain u :: "'a fmach_scheme" where u:
      "kseq (upd_buf bp (\<lambda>y. y\<lparr>b_data := (b_data y)[bi div 8 := (b_data y ! (bi div 8)) OR bit_mask bi]\<rparr>)) (
         kseq (log_write bp) (kseq (brelse bp) (kseq (bzero 1 ?b) (ret ?b)))) t = Ret ?b u"
      "trans_inv H u" "log_step s u" "content u = allocated ?sb ?b ?c" "\<And>k. log_room s k \<Longrightarrow> log_room u (k - 2)" "usable u = usable s"
      "\<And>i. i \<in> H \<Longrightarrow> b_blockno (st_bufs u i) = b_blockno (st_bufs s i)"
      "\<And>i. i \<in> H \<Longrightarrow> b_data (st_bufs u i) = b_data (st_bufs s i)"
      by (rule balloc_take [OF Suc.prems(1) b(2,3) t(3,2,4,5)]) (use t B in auto)
    have "balloc_loop 1 (map (\<lambda>k. k * BPB) [j..<?N]) s = Ret ?b u"
      unfolding j(2) using t(1,7) u(1) Some by (simp add: kbind_run getbuf_def)
    then show ?thesis using u(2-8) lst unfolding balloc_result_def by auto
  next
    case None
    have nf: "\<And>b. j * BPB \<le> b \<Longrightarrow> b < Suc j * BPB \<Longrightarrow> b < sb_size ?sb \<Longrightarrow> \<not> block_free ?c ?sb b" using sc None by auto
    obtain u :: "'a fmach_scheme" where u: "brelse bp t = Ret () u" "trans_inv (insert bp H - {bp}) u" "log_step t u" "content u = content t"
      "st_log u = st_log t" "\<And>i. b_blockno (st_bufs u i) = b_blockno (st_bufs t i)" "\<And>i. b_data (st_bufs u i) = b_data (st_bufs t i)"
      by (rule trans_brelse [OF t(3) _ t(10)]) auto
    have su: "log_step s u" using log_step_trans [OF t(4) u(3)] .
    have iH: "insert bp H - {bp} = H" using t(2) by auto
    have st: "st_sb u = ?sb" "content u = ?c" "usable u = usable s" "\<And>k. log_room u k = log_room s k"
      using log_step_fs(1) [OF su] u(4,5) t(5,8) log_step_rest(1) [OF su] by (simp_all add: usable_def log_room_def fun_eq_iff)
    have hb: "b_blockno (st_bufs u i) = b_blockno (st_bufs s i)" "b_data (st_bufs u i) = b_data (st_bufs s i)" if "i \<in> H" for i
      using u(6,7) t(9) t(2) that by metis+
    have nh: "not_held H u m = not_held H s m" for m using hb by (simp add: not_held_def)
    have ru: "alloc_ready H u" using Suc.prems(1) u(2) iH st nh by (simp add: alloc_ready_def)
    have F: "free_from u (Suc j * BPB) = free_from s (j * BPB)" 
    proof
      fix b
      show "free_from u (Suc j * BPB) b = free_from s (j * BPB) b"
        using nf [of b] unfolding free_from_def st(1,2) by (cases "b < Suc j * BPB") auto
    qed
    have "balloc_result H u (free_from u (Suc j * BPB)) (balloc_loop 1 (map (\<lambda>k. k * BPB) [Suc j..<?N]) u)"
      using Suc(1) [of u "Suc j"] Suc(2) ru st(1) j(1) by simp
    then have "balloc_result H s (free_from s (j * BPB)) (balloc_loop 1 (map (\<lambda>k. k * BPB) [Suc j..<?N]) u)"
      unfolding F by (rule balloc_result_frame [OF _ su st]) (use hb in auto)
    moreover have "balloc_loop 1 (map (\<lambda>k. k * BPB) [j..<?N]) s = balloc_loop 1 (map (\<lambda>k. k * BPB) [Suc j..<?N]) u"
      unfolding j(2) using t(1,7) u(1) None by (simp add: kbind_run kseq_run getbuf_def)
    ultimately show ?thesis by (simp only:)
  qed
qed

lemma balloc_run: "alloc_ready H s \<Longrightarrow> balloc_result H s (free_from s 0) (balloc 1 s)"
  using balloc_loop_run [of H s 0] by (simp add: balloc_def kbind_run)

lemma bfree_run:
  fixes s :: "'a fmach_scheme"
  assumes "trans_inv {} s" "log_room s 1" "usable s (BBLOCK b (st_sb s))" "\<not> block_free (content s) (st_sb s) b"
  obtains u :: "'a fmach_scheme" where "bfree 1 b s = Ret () u" "trans_inv {} u" "log_step s u"
    "content u = mark_free (st_sb s) b (content s)" "usable u = usable s" "\<And>k. log_room s k \<Longrightarrow> log_room u (k - 1)"
proof -
  let ?n = "BBLOCK b (st_sb s)" and ?bi = "b mod BPB"
  let ?f = "\<lambda>d. d[?bi div 8 := (d ! (?bi div 8)) AND NOT (bit_mask ?bi)]"
  have room: "lh_n (l_lh (st_log s)) + int (card ({} :: nat set)) < int NBUF"
    using trans_invD(6,7) [OF assms(1)] by (simp add: param_defs)
  obtain bp and t :: "'a fmach_scheme" where t: "bread 1 ?n s = Ret bp t" "trans_inv {bp} t" "log_step s t"
    "st_log t = st_log s" "b_blockno (st_bufs t bp) = ?n" "b_data (st_bufs t bp) = content s ?n" "content t = content s"
    by (rule trans_bread [OF assms(1) _ not_held_empty room]) (use assms(3) in \<open>auto simp: usable_def\<close>)
  have lr: "log_room t k = log_room s k" "usable t = usable s" for k
    using t(4) log_step_rest(1) [OF t(3)] by (simp_all add: log_room_def usable_def fun_eq_iff)
  obtain u :: "'a fmach_scheme" where
    u: "kseq (upd_buf bp (\<lambda>y. y\<lparr>b_data := ?f (b_data y)\<rparr>)) (kseq (log_write bp) (brelse bp)) t = Ret () u"
    "trans_inv ({bp} - {bp}) u" "log_step t u" "content u = (content s)(?n := ?f (content s ?n))"
    "\<And>k. log_room t k \<Longrightarrow> log_room u (k - 1)" "usable u = usable t"
    by (rule trans_finish [OF t(2), of bp ?f]) (use assms t lr in auto)
  have "bfree 1 b s = Ret () u"
    using t(1,6) u(1) assms(4) by (simp add: bfree_def kbind_run getbuf_def Let_def block_free_def)
  then show ?thesis
    using that u lr log_step_trans [OF t(3) u(3)] by (simp add: mark_free_def Let_def)
qed

lemma free_allocated:
  assumes "length (c (BBLOCK b sb)) = BSIZE" "b \<notin> bitmap_blocks sb" "b' < sb_size sb"
  shows "block_free (allocated sb b c) sb b' \<longleftrightarrow> b' \<noteq> b \<and> block_free c sb b'"
    "b < sb_size sb \<Longrightarrow> block_free (mark_free sb b (allocated sb b c)) sb b' \<longleftrightarrow> block_free c sb b' \<or> b' = b"
proof -
  have ne: "BBLOCK x sb \<noteq> b" if "x < sb_size sb" for x using bblock_in [OF that] assms(2) by blast
  show f: "block_free (allocated sb b c) sb b' \<longleftrightarrow> b' \<noteq> b \<and> block_free c sb b'"
    using block_free_mark(1) [of c b sb b'] assms(1) ne [OF assms(3)] by (simp add: allocated_def block_free_def)
  assume "b < sb_size sb"
  then have "length (allocated sb b c (BBLOCK b sb)) = BSIZE"
    using assms(1) ne by (simp add: allocated_def mark_used_def Let_def)
  then show "block_free (mark_free sb b (allocated sb b c)) sb b' \<longleftrightarrow> block_free c sb b' \<or> b' = b"
    using block_free_mark(2) [of "allocated sb b c" b sb b'] f by auto
qed

text \<open>
  C13. Allocating a block: with a transaction that has room for two blocks and a bitmap that marks the
  log and itself as used, \<open>balloc\<close> returns the lowest free block, having set its bit and no other and
  filled the block with zeros; every other block keeps its contents. It panics exactly if no block is
  free.
\<close>

theorem balloc_lowest_free:
  fixes s :: "'a fmach_scheme"
  assumes "alloc_ready {} s"
  shows "if \<exists>b < sb_size (st_sb s). block_free (content s) (st_sb s) b
    then \<exists>b u :: 'a fmach_scheme. balloc 1 s = Ret b u \<and> b < sb_size (st_sb s) \<and> block_free (content s) (st_sb s) b
      \<and> (\<forall>b'<b. \<not> block_free (content s) (st_sb s) b') \<and> trans_inv {} u \<and> content u b = replicate BSIZE 0
      \<and> (\<forall>b' < sb_size (st_sb s). block_free (content u) (st_sb s) b' \<longleftrightarrow> b' \<noteq> b \<and> block_free (content s) (st_sb s) b')
      \<and> (\<forall>m. m \<noteq> b \<and> m \<noteq> BBLOCK b (st_sb s) \<longrightarrow> content u m = content s m)
    else \<exists>u :: 'a fmach_scheme. balloc 1 s = Stop (Panic ''balloc: out of blocks'') u"
proof (cases "\<exists>b < sb_size (st_sb s). block_free (content s) (st_sb s) b")
  case True
  have ex: "\<exists>b. free_from s 0 b" using True by (simp add: free_from_def)
  define b where "b = Least (free_from s 0)"
  have "free_from s 0 b" unfolding b_def by (rule LeastI_ex [OF ex])
  then have b: "b < sb_size (st_sb s)" "block_free (content s) (st_sb s) b" by (simp_all add: free_from_def)
  have lo: "\<not> block_free (content s) (st_sb s) b'" if "b' < b" for b'
    using not_less_Least [OF that [unfolded b_def]] b(1) that by (auto simp: free_from_def)
  obtain u :: "'a fmach_scheme" where u: "balloc 1 s = Ret b u" "trans_inv {} u" "content u = allocated (st_sb s) b (content s)"
    using balloc_run [OF assms] ex unfolding balloc_result_def b_def by auto
  have ok: "length (content s (BBLOCK b (st_sb s))) = BSIZE" "b \<notin> bitmap_blocks (st_sb s)"
    using assms b bblock_in [OF b(1)] unfolding alloc_ready_def by auto
  have c: "content u b = replicate BSIZE 0" "m \<noteq> b \<Longrightarrow> m \<noteq> BBLOCK b (st_sb s) \<Longrightarrow> content u m = content s m" for m
    using u(3) by (simp_all add: allocated_def mark_used_def Let_def)
  have f: "block_free (content u) (st_sb s) b' \<longleftrightarrow> b' \<noteq> b \<and> block_free (content s) (st_sb s) b'" if "b' < sb_size (st_sb s)" for b'
    using free_allocated(1) [of "content s", OF ok that] u(3) by simp
  show ?thesis
    unfolding if_P [OF True] by (intro exI [of _ b] exI [of _ u] conjI allI impI) (use u(1,2) b lo c f in blast)+
next
  case False
  then have "\<not> (\<exists>b. free_from s 0 b)" by (auto simp: free_from_def)
  then show ?thesis unfolding if_not_P [OF False] using balloc_run [OF assms] by (simp add: balloc_result_def)
qed

text \<open>
  An example: a transaction is open; the bitmap in block 58 marks the blocks up to itself as used.
\<close>

definition ex_bitmap :: "uchar list" where
  "ex_bitmap = replicate 7 0xFF @ [7] @ replicate 504 0"

definition ex_fs :: fmach where
  "ex_fs = ex_fmach\<lparr>st_disk := (\<lambda>n. if n = 58 then ex_bitmap else replicate 512 0),
     st_log := (st_log ex_wmach)\<lparr>l_outstanding := 1\<rparr>\<rparr>"

lemma ex_bitmap_used: "in_use ex_bitmap b" if "b < 59"
proof -
  have "list_all (in_use ex_bitmap) [0..<59]" by code_simp
  then show ?thesis using that by (simp add: list_all_iff)
qed

lemma ex_bitmap_free: "\<not> in_use ex_bitmap b" if "59 \<le> b" "b < 4096"
proof -
  have l: "list_all (\<lambda>b. \<not> in_use ex_bitmap b) [59..<64]" by code_simp
  have "\<not> in_use ex_bitmap b" if "b < 64" 
  proof -
    have "b \<in> set [59..<64]" unfolding set_upt using \<open>59 \<le> b\<close> that by (simp only: atLeastLessThan_iff simp_thms)
    then show ?thesis using l unfolding list_all_iff by blast
  qed
  moreover have "64 \<le> b \<Longrightarrow> ex_bitmap ! (b div 8) = 0"
    using that div_le_mono [of 64 b 8] by (simp add: ex_bitmap_def nth_append less_mult_imp_div_less)
  ultimately show ?thesis by (cases "b < 64") (auto simp: in_use_def)
qed

lemma ex_fs_uncached: "\<not> cached ex_fs m i" "content ex_fs = st_disk ex_fs"
proof -
  show c: "\<not> cached ex_fs m i" for m i by (simp add: cached_def ex_fs_def ex_bufs_def)
  show "content ex_fs = st_disk ex_fs" using content_uncached [of ex_fs] c by (simp add: fun_eq_iff)
qed

lemma ex_fs_trans: "trans_inv {} ex_fs" "log_room ex_fs 28"
proof -
  have nd: "\<not> dirty_block ex_fs m" for m using ex_fs_uncached(1) by (simp add: dirty_block_def)
  have "cache_inv {} ex_fs"
    using ex_ring ex_fmach_ok ex_fs_uncached(1)
    by (auto simp: cache_inv_def buf_inv_def Let_def ex_bufs_def) (auto simp: ex_fs_def ex_bufs_def)
  moreover have "sint (get32 (replicate 512 (0 :: uchar)) 0) = 0" by (simp add: get32_def le_word_def numeral_nat)
  ultimately show "trans_inv {} ex_fs"
    using nd ex_fs_uncached(2) ex_fmach_ok
    by (simp add: trans_inv_def Let_def logged_def param_defs BSIZE_def) (simp add: ex_fs_def)
  show "log_room ex_fs 28" by (simp add: log_room_def ex_fs_def)
qed

lemma ex_fs_alloc: "alloc_ready {} ex_fs"
proof -
  have bm: "bitmap_blocks (st_sb ex_fs) = {58}"
    by (auto simp: bitmap_blocks_def fs_consts ex_fs_def)
  have bb: "BBLOCK b (st_sb ex_fs) = 58" "b mod BPB = b" if "b < 1000" for b
    using that by (simp_all add: BBLOCK_def fs_consts ex_fs_def)
  have c: "content ex_fs 58 = ex_bitmap" "length ex_bitmap = BSIZE" "st_disksize ex_fs = 1000" "sb_size (st_sb ex_fs) = 1000"
    unfolding ex_fs_uncached(2) by (simp_all add: ex_fs_def ex_bitmap_def BSIZE_def)
  have u: "usable ex_fs n \<longleftrightarrow> n < 1000 \<and> n \<notin> {2..<32}" for n by (simp add: usable_def ex_fs_def)
  have "59 \<le> b" if "b < 1000" "block_free (content ex_fs) (st_sb ex_fs) b" for b
    using that bb c(1) ex_bitmap_used [of b] by (auto simp: block_free_def not_less [symmetric])
  then have "usable ex_fs b \<and> b \<notin> {58}" if "b < 1000" "block_free (content ex_fs) (st_sb ex_fs) b" for b
    using that u [of b] by fastforce
  moreover have "usable ex_fs 58" "log_room ex_fs 2" using u ex_fs_trans(2) by (simp_all add: log_room_def)
  ultimately show ?thesis
    using ex_fs_trans(1) c unfolding alloc_ready_def bm by simp
qed

theorem balloc_lowest_free_witness:
  "\<exists>u. balloc 1 ex_fs = Ret 59 u \<and> content u 59 = replicate 512 0"
proof -
  have sb: "sb_size (st_sb ex_fs) = 1000" by (simp add: ex_fs_def)
  have bb: "BBLOCK b (st_sb ex_fs) = 58" "b mod BPB = b" if "b < 1000" for b
    using that by (simp_all add: BBLOCK_def fs_consts ex_fs_def)
  have f: "block_free (content ex_fs) (st_sb ex_fs) b \<longleftrightarrow> 59 \<le> b" if "b < 1000" for b
    using bb [OF that] ex_bitmap_used [of b] ex_bitmap_free [of b] that unfolding block_free_def ex_fs_uncached(2)
    by (auto simp: ex_fs_def not_less [symmetric])
  have "\<exists>b < sb_size (st_sb ex_fs). block_free (content ex_fs) (st_sb ex_fs) b" using f [of 59] sb by (intro exI [of _ 59]) simp
  then obtain b u where b: "balloc 1 ex_fs = Ret b u" "b < 1000" "block_free (content ex_fs) (st_sb ex_fs) b"
      "\<forall>b'<b. \<not> block_free (content ex_fs) (st_sb ex_fs) b'" "content u b = replicate BSIZE 0"
    using balloc_lowest_free [OF ex_fs_alloc] sb by auto
  have "b = 59" using b(2-4) f [of b] f [of 59] by (cases "b = 59") auto
  then show ?thesis using b(1,5) by (auto simp: BSIZE_def)
qed

lemma bfree_panics:
  fixes s :: "'a fmach_scheme"
  assumes "trans_inv {} s" "usable s (BBLOCK b (st_sb s))" "block_free (content s) (st_sb s) b"
  shows "\<exists>u :: 'a fmach_scheme. bfree 1 b s = Stop (Panic ''freeing free block'') u"
proof -
  let ?n = "BBLOCK b (st_sb s)"
  have room: "lh_n (l_lh (st_log s)) + int (card ({} :: nat set)) < int NBUF"
    using trans_invD(6,7) [OF assms(1)] by (simp add: param_defs)
  obtain bp and t :: "'a fmach_scheme" where t: "bread 1 ?n s = Ret bp t" "b_data (st_bufs t bp) = content s ?n"
    by (rule trans_bread [OF assms(1) _ not_held_empty room]) (use assms(2) in \<open>auto simp: usable_def\<close>)
  then show ?thesis using assms(3) by (simp add: bfree_def kbind_run getbuf_def Let_def block_free_def panic_def)
qed

text \<open>
  C32. Allocating and freeing a block cancel out on the bitmap: a block that \<open>balloc\<close> has just returned
  is accepted by \<open>bfree\<close>, and after that exactly the blocks that were free before are free; no block
  but that one and its bitmap block has changed. Freeing a block that is free panics.
\<close>

theorem balloc_bfree_roundtrip:
  fixes s :: "'a fmach_scheme"
  assumes "alloc_ready {} s" "log_room s 3" "b0 < sb_size (st_sb s)" "block_free (content s) (st_sb s) b0"
  shows "\<exists>b (u :: 'a fmach_scheme) (v :: 'a fmach_scheme). balloc 1 s = Ret b u \<and> bfree 1 b u = Ret () v \<and> trans_inv {} v
    \<and> (\<forall>b' < sb_size (st_sb s). block_free (content v) (st_sb s) b' = block_free (content s) (st_sb s) b')
    \<and> (\<forall>m. m \<noteq> b \<and> m \<noteq> BBLOCK b (st_sb s) \<longrightarrow> content v m = content s m)
    \<and> (\<exists>w :: 'a fmach_scheme. bfree 1 b v = Stop (Panic ''freeing free block'') w)"
proof -
  let ?sb = "st_sb s" and ?c = "content s"
  have ex: "\<exists>b. free_from s 0 b" using assms(3,4) by (auto simp: free_from_def)
  define b where "b = Least (free_from s 0)"
  have "free_from s 0 b" unfolding b_def by (rule LeastI_ex [OF ex])
  then have b: "b < sb_size ?sb" "block_free ?c ?sb b" by (simp_all add: free_from_def)
  obtain u :: "'a fmach_scheme" where u: "balloc 1 s = Ret b u" "trans_inv {} u" "log_step s u" "content u = allocated ?sb b ?c"
      "\<forall>k. log_room s k \<longrightarrow> log_room u (k - 2)" "usable u = usable s"
    using balloc_run [OF assms(1)] ex unfolding balloc_result_def b_def by auto
  have ok: "length (?c (BBLOCK b ?sb)) = BSIZE" "b \<notin> bitmap_blocks ?sb" "usable s (BBLOCK b ?sb)"
    using assms(1) b bblock_in [OF b(1)] unfolding alloc_ready_def by auto
  have sb: "st_sb u = ?sb" by (rule log_step_fs(1) [OF u(3)])
  have lu: "log_room u 1" using u(5) assms(2) by (metis diff_eq_eq numeral_One one_plus_numeral semiring_norm(3) add.commute)
  have nf: "\<not> block_free (content u) ?sb b" using free_allocated(1) [of ?c, OF ok(1,2) b(1)] u(4) by simp
  obtain v :: "'a fmach_scheme" where v: "bfree 1 b u = Ret () v" "trans_inv {} v" "log_step u v" "content v = mark_free ?sb b (content u)"
      "usable v = usable u"
    using bfree_run [OF u(2) lu, of b] ok(3) u(6) nf unfolding sb by metis
  have fr: "block_free (content v) ?sb b' \<longleftrightarrow> block_free ?c ?sb b' \<or> b' = b" if "b' < sb_size ?sb" for b'
    using free_allocated(2) [of ?c, OF ok(1,2) that b(1)] v(4) u(4) by simp
  have "content v m = ?c m" if "m \<noteq> b" "m \<noteq> BBLOCK b ?sb" for m
    using that v(4) u(4) by (simp add: mark_free_def allocated_def mark_used_def Let_def)
  moreover have "\<exists>w :: 'a fmach_scheme. bfree 1 b v = Stop (Panic ''freeing free block'') w"
    using bfree_panics [OF v(2)] fr [OF b(1)] ok(3) v(5) u(6) sb log_step_fs(1) [OF v(3)] by simp
  ultimately show ?thesis using u(1) v(1,2) fr b(2) by blast
qed

theorem balloc_bfree_roundtrip_witness:
  "\<exists>b u v. balloc 1 ex_fs = Ret b u \<and> bfree 1 b u = Ret () v \<and> block_free (content v) (st_sb ex_fs) 59"
proof -
  have sb: "sb_size (st_sb ex_fs) = 1000" by (simp add: ex_fs_def)
  have "log_room ex_fs 3" using ex_fs_trans(2) by (simp add: log_room_def)
  moreover have "block_free (content ex_fs) (st_sb ex_fs) 59"
    using ex_bitmap_free [of 59] unfolding block_free_def ex_fs_uncached(2) by (simp add: ex_fs_def BBLOCK_def fs_consts)
  ultimately show ?thesis using balloc_bfree_roundtrip [OF ex_fs_alloc, of 59] sb by (auto simp: sb)
qed

section \<open>Inodes on the disk\<close>

lemma length_le16 [simp]: "length (le16 v) = 2"
  by (simp add: le16_def)

lemma le16_word: "ucast (ucast v :: uchar) OR push_bit 8 (ucast (ucast (drop_bit 8 v) :: uchar)) = (v :: ushort)"
proof (rule bit_word_eqI)
  fix n
  assume "n < LENGTH(16)"
  then consider "n < 8" | "8 \<le> n" "n < 16" by fastforce
  then show "bit (ucast (ucast v :: uchar) OR push_bit 8 (ucast (ucast (drop_bit 8 v) :: uchar)) :: ushort) n = bit v n"
    by cases (auto simp: bit_simps less_diff_conv2)
qed

lemma get16_at: "drop off d = le16 v @ r \<Longrightarrow> get16 d off = v"
proof -
  assume d: "drop off d = le16 v @ r"
  have l: "off < length d"
  proof (rule ccontr)
    assume "\<not> off < length d"
    then show False using d by (simp add: le16_def)
  qed
  have "d ! off = drop off d ! 0" "d ! (off + 1) = drop off d ! 1"
    using l nth_drop [of off d 0] nth_drop [of off d 1] by simp_all
  then show ?thesis using d le16_word [of v] by (simp add: get16_def le16_def)
qed

lemma get32_at: "drop off d = le_bytes v @ r \<Longrightarrow> get32 d off = v"
  using le_word_le_bytes [of v] by (simp add: get32_def)

lemma drop_splice: "off + length bs \<le> length d \<Longrightarrow> drop off (splice d off bs) = bs @ drop (off + length bs) d"
  by (simp add: splice_def)

lemma drop_chunks:
  assumes "\<And>k. length (f k) = 4" "k < n"
  shows "\<exists>r. drop (4 * k) (concat (map f [0..<n])) = f k @ r"
proof -
  have l: "length (concat (map f [0..<j])) = 4 * j" for j
    by (induction j) (simp_all add: assms(1))
  have "[0..<n] = [0..<k] @ k # [Suc k..<n]" using assms(2) upt_add_eq_append [of 0 k "n - k"] by (simp add: upt_conv_Cons)
  then have "concat (map f [0..<n]) = concat (map f [0..<k]) @ f k @ concat (map f [Suc k..<n])" by simp
  then show ?thesis using l [of k] by simp
qed

lemma length_encode: "length (encode_dinode x) = 64"
  by (simp add: encode_dinode_def length_concat comp_def fs_consts sum_list_triv)

lemma dinode_at:
  assumes d: "drop off d = encode_dinode x @ r" and a: "\<And>k. k \<le> NDIRECT \<Longrightarrow> d_addrs x k < 2 ^ 32"
  shows "decode_dinode d off = \<lparr>d_type = d_type x, d_major = d_major x, d_minor = d_minor x, d_nlink = d_nlink x,
     d_size = d_size x, d_addrs = (\<lambda>k. if k \<le> NDIRECT then d_addrs x k else 0)\<rparr>"
proof -
  have dr: "drop (off + k) d = drop k (encode_dinode x @ r)" for k using d by (simp add: add.commute flip: drop_drop)
  let ?A = "concat (map (\<lambda>k. le_bytes (of_nat (d_addrs x k))) [0..<NDIRECT + 1])"
  have "get16 d off = d_type x"
    by (rule get16_at [of _ _ _ "drop 2 (encode_dinode x) @ r"]) (use d in \<open>simp add: encode_dinode_def\<close>)
  moreover have "get16 d (off + 2) = d_major x"
    by (rule get16_at [of _ _ _ "drop 4 (encode_dinode x) @ r"]) (simp only: dr, simp add: encode_dinode_def)
  moreover have "get16 d (off + 4) = d_minor x"
    by (rule get16_at [of _ _ _ "drop 6 (encode_dinode x) @ r"]) (simp only: dr, simp add: encode_dinode_def)
  moreover have "get16 d (off + 6) = d_nlink x"
    by (rule get16_at [of _ _ _ "drop 8 (encode_dinode x) @ r"]) (simp only: dr, simp add: encode_dinode_def)
  moreover have "get32 d (off + 8) = d_size x"
    by (rule get32_at [of _ _ _ "drop 12 (encode_dinode x) @ r"]) (simp only: dr, simp add: encode_dinode_def)
  moreover have "unat (get32 d (off + 12 + 4 * k)) = d_addrs x k" if k: "k \<le> NDIRECT" for k
  proof -
    obtain r' where r': "drop (4 * k) ?A = le_bytes (of_nat (d_addrs x k)) @ r'"
      using drop_chunks [of "\<lambda>k. le_bytes (of_nat (d_addrs x k))" k "NDIRECT + 1"] k by auto
    have l: "length ?A = 52" by (simp add: length_concat comp_def fs_consts sum_list_triv)
    have "drop (off + 12 + 4 * k) d = drop (4 * k) (?A @ r)"
      using dr [of "12 + 4 * k"] by (simp add: encode_dinode_def add.assoc)
    also have "\<dots> = le_bytes (of_nat (d_addrs x k)) @ r' @ r" using r' l k by (simp add: fs_consts)
    finally have "get32 d (off + 12 + 4 * k) = of_nat (d_addrs x k)" by (rule get32_at)
    then show ?thesis using a [OF k] by (simp add: unat_of_nat)
  qed
  ultimately show ?thesis by (auto simp: decode_dinode_def)
qed

lemma trans_inv_inodes [simp]:
  fixes s :: "'a fmach_scheme"
  shows "trans_inv H (s\<lparr>st_icache := x\<rparr>) = trans_inv H s"
    "trans_inv H (s\<lparr>st_slocks := (st_slocks s)(InodeSL k := l)\<rparr>) = trans_inv H s"
    "content (s\<lparr>st_icache := x\<rparr>) = content s" "content (s\<lparr>st_slocks := y\<rparr>) = content s"
proof -
  have c: "cached (s\<lparr>st_icache := x\<rparr>) = cached s" "cached (s\<lparr>st_slocks := y\<rparr>) = cached s" for y
    by (simp_all add: cached_def fun_eq_iff)
  have p: "my_pid (s\<lparr>st_icache := x\<rparr>) = my_pid s" by (simp add: my_pid_def procp_def split: option.splits)
  have d: "dirty_block (s\<lparr>st_icache := x\<rparr>) = dirty_block s" "dirty_block (s\<lparr>st_slocks := y\<rparr>) = dirty_block s" for y
    by (simp_all add: dirty_block_def fun_eq_iff c)
  show ct: "content (s\<lparr>st_icache := x\<rparr>) = content s" "content (s\<lparr>st_slocks := y\<rparr>) = content s" for y
    by (simp_all add: content_def fun_eq_iff c split: option.splits)
  have "cache_inv H (s\<lparr>st_icache := x\<rparr>) = cache_inv H s"
    "cache_inv H (s\<lparr>st_slocks := (st_slocks s)(InodeSL k := l)\<rparr>) = cache_inv H s"
    by (simp_all add: cache_inv_def buf_inv_def c p Let_def)
  then show "trans_inv H (s\<lparr>st_icache := x\<rparr>) = trans_inv H s"
    "trans_inv H (s\<lparr>st_slocks := (st_slocks s)(InodeSL k := l)\<rparr>) = trans_inv H s"
    by (simp_all add: trans_inv_def logged_def ct d Let_def)
qed

lemma trans_room: "trans_inv {} s \<Longrightarrow> lh_n (l_lh (st_log s)) + int (card ({} :: nat set)) < int NBUF"
  using trans_invD(6,7) [of "{}" s] by (simp add: param_defs)

lemma iupdate_run:
  fixes s :: "'a fmach_scheme"
  defines "ip \<equiv> \<lambda>i. st_icache s i" and "blk \<equiv> \<lambda>i. IBLOCK (i_inum (st_icache s i)) (st_sb s)"
  assumes "trans_inv {} s" "log_room s 1" "usable s (blk i)" "i_dev (ip i) = 1"
  obtains u :: "'a fmach_scheme" where "iupdate i s = Ret () u" "trans_inv {} u" "log_step s u"
    "content u = (content s)(blk i := splice (content s (blk i)) (64 * (i_inum (ip i) mod IPB)) (encode_dinode (ip i)))"
    "\<And>k. log_room s k \<Longrightarrow> log_room u (k - 1)" "usable u = usable s"
proof -
  have "iupdate i s = log_update (blk i) (\<lambda>d. splice d (64 * (i_inum (ip i) mod IPB)) (encode_dinode (ip i))) s"
    using assms by (simp add: iupdate_def log_update_def kbind_run getinode_def)
  then show ?thesis
    using log_update_run [OF assms(3,4,5) not_held_empty trans_room [OF assms(3)],
        of "\<lambda>d. splice d (64 * (i_inum (ip i) mod IPB)) (encode_dinode (ip i))"] that by metis
qed

lemma ilock_load_run:
  fixes s :: "'a fmach_scheme" and j :: nat
  defines "ip \<equiv> st_icache s j"
  defines "di \<equiv> decode_dinode (content s (IBLOCK (i_inum ip) (st_sb s))) (64 * (i_inum ip mod IPB))"
  assumes t: "trans_inv {} s" and n: "IBLOCK (i_inum ip) (st_sb s) < st_disksize s"
    and j: "i_dev ip = 1" "1 \<le> i_ref ip" "\<not> i_valid ip" and l: "lock_free s (InodeLock j)" "\<not> sl_locked (st_slocks s (InodeSL j))"
    and ty: "d_type di \<noteq> 0"
  obtains u :: "'a fmach_scheme" where "ilock (Some j) s = Ret () u" "trans_inv {} u" "content u = content s"
    "st_icache u = (st_icache s)(j := ip\<lparr>d_type := d_type di, d_major := d_major di, d_minor := d_minor di,
       d_nlink := d_nlink di, d_size := d_size di, d_addrs := d_addrs di, i_valid := True\<rparr>)"
    "st_sb u = st_sb s"
proof -
  let ?n = "IBLOCK (i_inum ip) (st_sb s)"
  let ?s1 = "s\<lparr>st_slocks := (st_slocks s)(InodeSL j := (st_slocks s (InodeSL j))\<lparr>sl_locked := True, sl_pid := my_pid s\<rparr>)\<rparr>"
  have a: "acquiresleep (InodeSL j) s = Ret () ?s1"
    using acquiresleep_run [of s "InodeSL j"] trans_invD(3) [OF t] l by simp
  have t1: "trans_inv {} ?s1" using t by simp
  obtain bp and s2 :: "'a fmach_scheme" where 2: "bread 1 ?n ?s1 = Ret bp s2" "trans_inv (insert bp {}) s2" "log_step ?s1 s2"
    "b_data (st_bufs s2 bp) = content ?s1 ?n" "content s2 = content ?s1" "releasable s2 bp"
    by (rule trans_bread [OF t1 _ not_held_empty trans_room [OF t1]]) (use n in auto)
  have s2: "st_icache s2 = st_icache s" "st_sb s2 = st_sb s" using log_step_fs [OF 2(3)] by simp_all
  let ?x = "ip\<lparr>d_type := d_type di, d_major := d_major di, d_minor := d_minor di,
       d_nlink := d_nlink di, d_size := d_size di, d_addrs := d_addrs di\<rparr>"
  let ?s3 = "s2\<lparr>st_icache := (st_icache s)(j := ?x)\<rparr>"
  have t3: "trans_inv (insert bp {}) ?s3" "releasable ?s3 bp" using 2(2,6) by (simp_all add: releasable_def)
  obtain s4 :: "'a fmach_scheme" where 4: "brelse bp ?s3 = Ret () s4" "trans_inv (insert bp {} - {bp}) s4" "log_step ?s3 s4" "content s4 = content ?s3"
    by (rule trans_brelse [OF t3(1) _ t3(2)]) auto
  have s4: "st_icache s4 = (st_icache s)(j := ?x)" "st_sb s4 = st_sb s" using log_step_fs [OF 4(3)] s2 by simp_all
  let ?u = "s4\<lparr>st_icache := (st_icache s)(j := ?x\<lparr>i_valid := True\<rparr>)\<rparr>"
  have "ilock (Some j) s = Ret () ?u"
    using a 2(1,4) 4(1) j ty s2 s4 unfolding ip_def di_def
    by (simp add: ilock_def kbind_run kseq_run kwhen_run getinode_def getbuf_def upd_inode_def Let_def)
  then show ?thesis using that [of ?u] 4 2(5) s4 by simp
qed

lemma decode_splice_other:
  assumes "off + length bs \<le> length d" "off' + 64 \<le> off \<or> off + length bs \<le> off'" "off' + 64 \<le> length d"
  shows "decode_dinode (splice d off bs) off' = decode_dinode d off'"
proof -
  have n: "splice d off bs ! (off' + i) = d ! (off' + i)" if "i < 64" for i
    using assms that by (auto simp: splice_nth)
  have g16: "get16 (splice d off bs) (off' + k) = get16 d (off' + k)" if "k < 63" for k
    using n [of k] n [of "k + 1"] that by (simp add: get16_def add.assoc)
  have g32: "get32 (splice d off bs) (off' + k) = get32 d (off' + k)" if "k \<le> 60" for k
  proof -
    have "take 4 (drop (off' + k) (splice d off bs)) = take 4 (drop (off' + k) d)"
    proof (rule nth_equalityI)
      fix i
      assume "i < length (take 4 (drop (off' + k) (splice d off bs)))"
      then have "i < 4" "off' + k + i < length d" using assms(1) by (auto simp: less_diff_conv)
      then show "take 4 (drop (off' + k) (splice d off bs)) ! i = take 4 (drop (off' + k) d) ! i"
        using n [of "k + i"] that assms(1) by (simp add: add.assoc)
    qed (use assms(1) in simp)
    then show ?thesis by (simp add: get32_def)
  qed
  have "get32 (splice d off bs) (off' + 12 + 4 * k) = get32 d (off' + 12 + 4 * k)" if "k \<le> NDIRECT" for k
    using g32 [of "12 + 4 * k"] that by (simp add: fs_consts add.assoc)
  then show ?thesis using g16 [of 0] g16 [of 2] g16 [of 4] g16 [of 6] g32 [of 8] by (auto simp: decode_dinode_def)
qed

text \<open>
  C8. Inodes survive the way to the disk and back: after \<open>iupdate\<close> of an inode, loading the same inode
  into any cache entry by \<open>ilock\<close> gives the type, device numbers, link count, size and block addresses
  that were written, through the byte layout of the 64-byte on-disk inode; the inodes in the other
  slots of the block keep theirs.
\<close>

theorem iupdate_ilock_roundtrip:
  fixes s :: "'a fmach_scheme"
  defines "ip \<equiv> \<lambda>i. st_icache s i"
  assumes "trans_inv {} s" "log_room s 1" "usable s (IBLOCK (i_inum (ip i)) (st_sb s))"
    "length (content s (IBLOCK (i_inum (ip i)) (st_sb s))) = BSIZE"
    "i_dev (ip i) = 1" "d_type (ip i) \<noteq> 0" "\<forall>k\<le>NDIRECT. d_addrs (ip i) k < 2 ^ 32"
    "i_dev (ip j) = 1" "i_inum (ip j) = i_inum (ip i)" "1 \<le> i_ref (ip j)" "\<not> i_valid (ip j)"
    "lock_free s (InodeLock j)" "\<not> sl_locked (st_slocks s (InodeSL j))"
  shows "\<exists>(u :: 'a fmach_scheme) (v :: 'a fmach_scheme). iupdate i s = Ret () u \<and> ilock (Some j) u = Ret () v \<and> i_valid (st_icache v j)
    \<and> d_type (st_icache v j) = d_type (ip i) \<and> d_major (st_icache v j) = d_major (ip i)
    \<and> d_minor (st_icache v j) = d_minor (ip i) \<and> d_nlink (st_icache v j) = d_nlink (ip i)
    \<and> d_size (st_icache v j) = d_size (ip i) \<and> (\<forall>k\<le>NDIRECT. d_addrs (st_icache v j) k = d_addrs (ip i) k)
    \<and> (\<forall>n. n < IPB \<and> n \<noteq> i_inum (ip i) mod IPB \<longrightarrow>
         decode_dinode (content v (IBLOCK (i_inum (ip i)) (st_sb s))) (64 * n)
         = decode_dinode (content s (IBLOCK (i_inum (ip i)) (st_sb s))) (64 * n))"
proof -
  let ?n = "IBLOCK (i_inum (ip i)) (st_sb s)" and ?off = "64 * (i_inum (ip i) mod IPB)"
  obtain u :: "'a fmach_scheme" where u: "iupdate i s = Ret () u" "trans_inv {} u" "log_step s u"
    "content u = (content s)(?n := splice (content s ?n) ?off (encode_dinode (ip i)))"
    by (rule iupdate_run [OF assms(2,3), of i]) (use assms in \<open>auto simp: ip_def\<close>)
  have off: "?off + 64 \<le> length (content s ?n)" using assms(5) mod_less_divisor [of IPB "i_inum (ip i)"] by (simp add: fs_consts)
  have st: "st_icache u = st_icache s" "st_sb u = st_sb s" "lock_free u (InodeLock j)" "\<not> sl_locked (st_slocks u (InodeSL j))"
    "st_disksize u = st_disksize s"
    using log_step_fs [OF u(3)] log_step_rest(1,3) [OF u(3)] log_step_inodes [OF u(3), of j] assms(13,14) by simp_all
  let ?di = "decode_dinode (content u ?n) ?off"
  have "drop ?off (content u ?n) = encode_dinode (ip i) @ drop (?off + 64) (content s ?n)"
    using drop_splice [of ?off "encode_dinode (ip i)" "content s ?n"] off u(4) by (simp add: length_encode)
  then have di: "?di = \<lparr>d_type = d_type (ip i), d_major = d_major (ip i), d_minor = d_minor (ip i), d_nlink = d_nlink (ip i),
     d_size = d_size (ip i), d_addrs = (\<lambda>k. if k \<le> NDIRECT then d_addrs (ip i) k else 0)\<rparr>"
    by (rule dinode_at) (use assms(8) in auto)
  have ij: "i_inum (st_icache u j) = i_inum (ip i)" using st(1) assms(10) by (simp add: ip_def)
  have pre: "?n < st_disksize u" "i_dev (st_icache u j) = 1" "1 \<le> i_ref (st_icache u j)" "\<not> i_valid (st_icache u j)" "d_type ?di \<noteq> 0"
    using assms(4,7,9,11,12) assms(5) st(1,5) di by (simp_all add: ip_def usable_def)
  obtain v :: "'a fmach_scheme" where v: "ilock (Some j) u = Ret () v" "content v = content u"
    "st_icache v = (st_icache u)(j := (st_icache u j)\<lparr>d_type := d_type ?di, d_major := d_major ?di, d_minor := d_minor ?di,
       d_nlink := d_nlink ?di, d_size := d_size ?di, d_addrs := d_addrs ?di, i_valid := True\<rparr>)"
    by (rule ilock_load_run [OF u(2), of j, unfolded ij st(2), OF pre(1-4) st(3,4) pre(5)])
  have "decode_dinode (content v ?n) (64 * k) = decode_dinode (content s ?n) (64 * k)"
    if "k < IPB" "k \<noteq> i_inum (ip i) mod IPB" for k
  proof -
    have "64 * k + 64 \<le> ?off \<or> ?off + 64 \<le> 64 * k" using that(2) by linarith
    moreover have "64 * k + 64 \<le> length (content s ?n)" using that(1) assms(5) by (simp add: fs_consts)
    ultimately show ?thesis
      using decode_splice_other [of ?off "encode_dinode (ip i)" "content s ?n" "64 * k"] off v(2) u(4) by (simp add: length_encode)
  qed
  then show ?thesis using u(1) v(1,3) di by (intro exI [of _ u] exI [of _ v]) simp
qed

theorem iupdate_ilock_roundtrip_witness:
  "\<exists>u v. iupdate 0 (ex_fs\<lparr>st_icache := (\<lambda>k. ex_inode\<lparr>d_type := (if k = 0 then 2 else 0), d_size := (if k = 0 then 77 else 0),
       i_dev := 1, i_inum := 9, i_ref := 1, i_valid := (k = 0)\<rparr>)\<rparr>) = Ret () u
     \<and> ilock (Some 2) u = Ret () v \<and> d_type (st_icache v 2) = 2 \<and> d_size (st_icache v 2) = 77"
proof -
  let ?s = "ex_fs\<lparr>st_icache := (\<lambda>k. ex_inode\<lparr>d_type := (if k = 0 then 2 else 0), d_size := (if k = 0 then 77 else 0),
       i_dev := 1, i_inum := 9, i_ref := 1, i_valid := (k = 0)\<rparr>)\<rparr>"
  have h: "trans_inv {} ?s" "log_room ?s 1" using ex_fs_trans by (simp_all add: log_room_def)
  have n: "IBLOCK 9 (st_sb ?s) = 33" by (simp add: IBLOCK_def fs_consts ex_fs_def)
  have c: "content ?s 33 = replicate 512 0" unfolding trans_inv_inodes(3) ex_fs_uncached(2) by (simp add: ex_fs_def)
  have l: "lock_free ?s (InodeLock 2)" "\<not> sl_locked (st_slocks ?s (InodeSL 2))"
    using ex_fmach_ok(3) by (simp_all add: ex_fs_def)
  show ?thesis
    using iupdate_ilock_roundtrip [OF h, of 0 2] n c l
    by (simp add: usable_def BSIZE_def) (auto simp: ex_fs_def ex_inode_def)
qed

end
