(* ===== verification/Devices.thy ===== *)
theory Devices
  imports Inode
begin

text \<open>
  The interrupt controllers and the character devices: \<^verbatim>\<open>src/ioapic.c\<close>, \<^verbatim>\<open>src/lapic.c\<close>,
  \<^verbatim>\<open>src/picirq.c\<close>, \<^verbatim>\<open>src/mp.c\<close>, \<^verbatim>\<open>src/uart.c\<close>, \<^verbatim>\<open>src/kbd.c\<close>.

  Device registers are part of the state: the I/O APIC and the local APICs as register files, the
  CMOS clock as the value each of its registers has at the n-th read, the serial line and the
  keyboard as the bytes that are waiting. \<open>dv_ports\<close> is the history of the bytes written to I/O
  ports. Waiting for the serial line (a bounded loop of status reads) does not change the state.
\<close>

section \<open>State\<close>

record gatedesc =
  gd_off_15_0 :: uint
  gd_cs :: uint
  gd_args :: uint
  gd_rsv1 :: uint
  gd_type :: uint
  gd_s :: uint
  gd_dpl :: uint
  gd_p :: uint
  gd_off_31_16 :: uint

record consbuf =
  in_buf :: "nat \<Rightarrow> uchar"
  in_r :: uint
  in_w :: uint
  in_e :: uint

record devices =
  dv_ports :: "(uint \<times> uint) list"
  dv_ioapic :: "uint \<Rightarrow> uint"
  dv_ioapicid :: uchar
  dv_lapicp :: addr
  dv_lapic :: "nat \<Rightarrow> uint"
  dv_imcr :: uint
  dv_cmos :: "nat \<Rightarrow> uint \<Rightarrow> uchar"
  dv_cmos_t :: nat
  dv_uart :: bool
  dv_uart_in :: "uchar list"
  dv_kbd_in :: "uchar list"
  dv_shift :: uint
  dv_locking :: bool
  dv_panicked :: bool
  dv_crt :: "nat \<Rightarrow> ushort"
  dv_crtc :: "uint \<Rightarrow> uchar"
  dv_input :: consbuf
  dv_idt :: "nat \<Rightarrow> gatedesc"
  dv_idtr :: "uchar \<Rightarrow> bool"
  dv_ticks :: uint

record dmach = fmach +
  st_dev :: devices

definition upd_dev :: "(devices \<Rightarrow> devices) \<Rightarrow> ('a dmach_scheme, unit) K" where
  "upd_dev f = kmod (\<lambda>s. s\<lparr>st_dev := f (st_dev s)\<rparr>)"

definition getdev :: "('a dmach_scheme, devices) K" where
  "getdev = kget st_dev"

definition outb :: "uint \<Rightarrow> uint \<Rightarrow> ('a dmach_scheme, unit) K" where
  "outb port v = upd_dev (\<lambda>d. d\<lparr>dv_ports := dv_ports d @ [(port, v AND 0xFF)]\<rparr>)"

section \<open>traps.h\<close>

definition T_IRQ0 :: uint where "T_IRQ0 = 32"
definition T_SYSCALL :: uint where "T_SYSCALL = 64"
definition IRQ_TIMER :: uint where "IRQ_TIMER = 0"
definition IRQ_KBD :: uint where "IRQ_KBD = 1"
definition IRQ_COM1 :: uint where "IRQ_COM1 = 4"
definition IRQ_IDE :: uint where "IRQ_IDE = 14"
definition IRQ_ERROR :: uint where "IRQ_ERROR = 19"
definition IRQ_SPURIOUS :: uint where "IRQ_SPURIOUS = 31"

lemmas trap_consts = T_IRQ0_def T_SYSCALL_def IRQ_TIMER_def IRQ_KBD_def IRQ_COM1_def IRQ_IDE_def
  IRQ_ERROR_def IRQ_SPURIOUS_def

section \<open>I/O APIC\<close>

definition ioapicread :: "uint \<Rightarrow> ('a dmach_scheme, uint) K" where
  "ioapicread reg = kbind getdev (\<lambda>d. ret (dv_ioapic d reg))"

definition ioapicwrite :: "uint \<Rightarrow> uint \<Rightarrow> ('a dmach_scheme, unit) K" where
  "ioapicwrite reg data = upd_dev (\<lambda>d. d\<lparr>dv_ioapic := (dv_ioapic d)(reg := data)\<rparr>)"

definition REG_ID :: uint where "REG_ID = 0"
definition REG_VER :: uint where "REG_VER = 1"
definition REG_TABLE :: uint where "REG_TABLE = 0x10"
definition INT_DISABLED :: uint where "INT_DISABLED = 0x10000"

definition ioapicinit :: "('a dmach_scheme, unit) K" where
  "ioapicinit =
     kbind (ioapicread REG_VER) (\<lambda>v.
     let maxintr = unat (drop_bit 16 v AND 0xFF) in
     kbind (ioapicread REG_ID) (\<lambda>i.
     kbind getdev (\<lambda>d.
     kseq (kwhen (drop_bit 24 i \<noteq> ucast (dv_ioapicid d))
             (kprint ''ioapicinit: id isn't equal to ioapicid; not a MP''))
          (kfor (\<lambda>k.
             kseq (ioapicwrite (REG_TABLE + 2 * of_nat k) (INT_DISABLED OR (T_IRQ0 + of_nat k)))
                  (ioapicwrite (REG_TABLE + 2 * of_nat k + 1) 0)) [0..<maxintr + 1]))))"

definition ioapicenable :: "uint \<Rightarrow> uint \<Rightarrow> ('a dmach_scheme, unit) K" where
  "ioapicenable irq cpunum =
     kseq (ioapicwrite (REG_TABLE + 2 * irq) (T_IRQ0 + irq))
          (ioapicwrite (REG_TABLE + 2 * irq + 1) (push_bit 24 cpunum))"

section \<open>The 8259 controllers\<close>

definition picinit :: "('a dmach_scheme, unit) K" where
  "picinit = kseq (outb 0x21 0xFF) (outb 0xA1 0xFF)"

section \<open>Local APIC\<close>

definition lapicw :: "nat \<Rightarrow> uint \<Rightarrow> ('a dmach_scheme, unit) K" where
  "lapicw index v = upd_dev (\<lambda>d. d\<lparr>dv_lapic := (dv_lapic d)(index := v)\<rparr>)"

definition L_ID :: nat where "L_ID = 0x20 div 4"
definition L_VER :: nat where "L_VER = 0x30 div 4"
definition L_TPR :: nat where "L_TPR = 0x80 div 4"
definition L_EOI :: nat where "L_EOI = 0xB0 div 4"
definition L_SVR :: nat where "L_SVR = 0xF0 div 4"
definition L_ESR :: nat where "L_ESR = 0x280 div 4"
definition L_ICRLO :: nat where "L_ICRLO = 0x300 div 4"
definition L_ICRHI :: nat where "L_ICRHI = 0x310 div 4"
definition L_TIMER :: nat where "L_TIMER = 0x320 div 4"
definition L_PCINT :: nat where "L_PCINT = 0x340 div 4"
definition L_LINT0 :: nat where "L_LINT0 = 0x350 div 4"
definition L_LINT1 :: nat where "L_LINT1 = 0x360 div 4"
definition L_ERROR :: nat where "L_ERROR = 0x370 div 4"
definition L_TICR :: nat where "L_TICR = 0x380 div 4"
definition L_TDCR :: nat where "L_TDCR = 0x3E0 div 4"

definition L_ENABLE :: uint where "L_ENABLE = 0x100"
definition L_INIT :: uint where "L_INIT = 0x500"
definition L_STARTUP :: uint where "L_STARTUP = 0x600"
definition L_DELIVS :: uint where "L_DELIVS = 0x1000"
definition L_ASSERT :: uint where "L_ASSERT = 0x4000"
definition L_LEVEL :: uint where "L_LEVEL = 0x8000"
definition L_BCAST :: uint where "L_BCAST = 0x80000"
definition L_X1 :: uint where "L_X1 = 0xB"
definition L_PERIODIC :: uint where "L_PERIODIC = 0x20000"
definition L_MASKED :: uint where "L_MASKED = 0x10000"

text \<open>
  The wait for the delivery of the INIT message reads back the command register. It ends at once
  when the delivery bit is clear; a register that keeps the bit set makes the loop run forever.
\<close>

definition lapicinit :: "('a dmach_scheme, unit) K" where
  "lapicinit =
     kbind getdev (\<lambda>d.
     if dv_lapicp d = 0 then ret ()
     else
       kseq (lapicw L_SVR (L_ENABLE OR (T_IRQ0 + IRQ_SPURIOUS))) (
       kseq (lapicw L_TDCR L_X1) (
       kseq (lapicw L_TIMER (L_PERIODIC OR (T_IRQ0 + IRQ_TIMER))) (
       kseq (lapicw L_TICR 10000000) (
       kseq (lapicw L_LINT0 L_MASKED) (
       kseq (lapicw L_LINT1 L_MASKED) (
       kbind getdev (\<lambda>d.
       kseq (kwhen (drop_bit 16 (dv_lapic d L_VER) AND 0xFF \<ge> 4) (lapicw L_PCINT L_MASKED)) (
       kseq (lapicw L_ERROR (T_IRQ0 + IRQ_ERROR)) (
       kseq (lapicw L_ESR 0) (
       kseq (lapicw L_ESR 0) (
       kseq (lapicw L_EOI 0) (
       kseq (lapicw L_ICRHI 0) (
       kseq (lapicw L_ICRLO (L_BCAST OR L_INIT OR L_LEVEL)) (
       kbind getdev (\<lambda>d.
       if dv_lapic d L_ICRLO AND L_DELIVS \<noteq> 0 then kstop Diverge
       else lapicw L_TPR 0))))))))))))))))"

definition lapicid :: "('a dmach_scheme, uint) K" where
  "lapicid = kbind getdev (\<lambda>d. ret (if dv_lapicp d = 0 then 0 else drop_bit 24 (dv_lapic d L_ID)))"

definition lapiceoi :: "('a dmach_scheme, unit) K" where
  "lapiceoi = kbind getdev (\<lambda>d. kwhen (dv_lapicp d \<noteq> 0) (lapicw L_EOI 0))"

definition lapicstartap :: "uchar \<Rightarrow> uint \<Rightarrow> ('a dmach_scheme, unit) K" where
  "lapicstartap apicid addr =
     kseq (outb 0x70 0xF) (
     kseq (outb 0x71 0x0A) (
     kseq (kmod (\<lambda>s. s\<lparr>m_mem := write_bytes (m_mem s) (P2V 0x467) (le16 0 @ le16 (ucast (drop_bit 4 addr)))\<rparr>)) (
     kseq (lapicw L_ICRHI (push_bit 24 (ucast apicid))) (
     kseq (lapicw L_ICRLO (L_INIT OR L_LEVEL OR L_ASSERT)) (
     kseq (lapicw L_ICRLO (L_INIT OR L_LEVEL))
          (kfor (\<lambda>_.
             kseq (lapicw L_ICRHI (push_bit 24 (ucast apicid)))
                  (lapicw L_ICRLO (L_STARTUP OR drop_bit 12 addr))) [0..<2]))))))"

section \<open>The real-time clock\<close>

record rtcdate =
  rt_second :: uint
  rt_minute :: uint
  rt_hour :: uint
  rt_day :: uint
  rt_month :: uint
  rt_year :: uint

definition cmos_read :: "uint \<Rightarrow> ('a dmach_scheme, uint) K" where
  "cmos_read reg =
     kseq (outb 0x70 reg) (
     kbind getdev (\<lambda>d.
     kseq (upd_dev (\<lambda>d. d\<lparr>dv_cmos_t := dv_cmos_t d + 1\<rparr>)) (ret (ucast (dv_cmos d (dv_cmos_t d) reg)))))"

definition fill_rtcdate :: "('a dmach_scheme, rtcdate) K" where
  "fill_rtcdate =
     kbind (cmos_read 0) (\<lambda>sec.
     kbind (cmos_read 2) (\<lambda>mn.
     kbind (cmos_read 4) (\<lambda>hr.
     kbind (cmos_read 7) (\<lambda>day.
     kbind (cmos_read 8) (\<lambda>mon.
     kbind (cmos_read 9) (\<lambda>yr.
     ret \<lparr>rt_second = sec, rt_minute = mn, rt_hour = hr, rt_day = day, rt_month = mon, rt_year = yr\<rparr>))))))"

definition bcd_conv :: "uint \<Rightarrow> uint" where
  "bcd_conv x = drop_bit 4 x * 10 + (x AND 0xF)"

text \<open>
  The loop of \<open>cmostime\<close> reads the date twice until two readings agree outside an update; how
  often that takes is up to the clock, so the number of turns is bounded by the argument \<open>fuel\<close>.
\<close>

primrec cmostime_loop :: "nat \<Rightarrow> ('a dmach_scheme, rtcdate) K" where
  "cmostime_loop 0 = kstop Diverge"
| "cmostime_loop (Suc fuel) =
     kbind fill_rtcdate (\<lambda>t1.
     kbind (cmos_read 0x0A) (\<lambda>a.
     if a AND 0x80 \<noteq> 0 then cmostime_loop fuel
     else kbind fill_rtcdate (\<lambda>t2. if t1 = t2 then ret t1 else cmostime_loop fuel)))"

definition cmostime :: "nat \<Rightarrow> ('a dmach_scheme, rtcdate) K" where
  "cmostime fuel =
     kbind (cmos_read 0x0B) (\<lambda>sb.
     let bcd = (sb AND 4 = 0) in
     kbind (cmostime_loop fuel) (\<lambda>t.
     let u = (if bcd then
           \<lparr>rt_second = bcd_conv (rt_second t), rt_minute = bcd_conv (rt_minute t),
            rt_hour = bcd_conv (rt_hour t), rt_day = bcd_conv (rt_day t),
            rt_month = bcd_conv (rt_month t), rt_year = bcd_conv (rt_year t)\<rparr> else t)
     in ret (u\<lparr>rt_year := rt_year u + 2000\<rparr>)))"

section \<open>The multiprocessor tables\<close>

definition mp_sum :: "memory \<Rightarrow> addr \<Rightarrow> nat \<Rightarrow> uchar" where
  "mp_sum m a len = sum_list (bytes_at m a len)"

text \<open>\<open>mpsearch1\<close> looks at every 16th address of the range; the result 0 is the null pointer.\<close>

definition mpsearch1 :: "memory \<Rightarrow> uint \<Rightarrow> nat \<Rightarrow> addr" where
  "mpsearch1 m a len =
     (case find (\<lambda>p. bytes_at m p 4 = [0x5F, 0x4D, 0x50, 0x5F] \<and> mp_sum m p 16 = 0)
             (map (\<lambda>i. P2V a + of_nat (16 * i)) [0..<(len + 15) div 16]) of
        Some p \<Rightarrow> p | None \<Rightarrow> 0)"

definition mpsearch :: "memory \<Rightarrow> addr" where
  "mpsearch m =
     (let bda = P2V 0x400;
          p = push_bit 4 (push_bit 8 (ucast (m (bda + 0x0F))) OR ucast (m (bda + 0x0E))) :: uint in
      if p \<noteq> 0
      then let mp = mpsearch1 m p 1024 in if mp \<noteq> 0 then mp else mpsearch1 m 0xF0000 0x10000
      else
        let p = (push_bit 8 (ucast (m (bda + 0x14))) OR ucast (m (bda + 0x13))) * 1024 :: uint;
            mp = mpsearch1 m (p - 1024) 1024
        in if mp \<noteq> 0 then mp else mpsearch1 m 0xF0000 0x10000)"

definition mpconfig :: "memory \<Rightarrow> (addr \<times> addr) option" where
  "mpconfig m =
     (let mp = mpsearch m in
      if mp = 0 \<or> load32 m (mp + 4) = 0 then None
      else
        let conf = P2V (load32 m (mp + 4));
            len = ucast (m (conf + 4)) OR push_bit 8 (ucast (m (conf + 5))) :: ushort in
        if bytes_at m conf 4 \<noteq> [0x50, 0x43, 0x4D, 0x50] then None
        else if m (conf + 6) \<noteq> 1 \<and> m (conf + 6) \<noteq> 4 then None
        else if mp_sum m conf (unat len) \<noteq> 0 then None
        else Some (mp, conf))"

text \<open>
  The walk over the table entries. Each known entry moves \<open>p\<close> on by its size. At an unknown entry
  the code clears \<^verbatim>\<open>ismp\<close> and breaks out of the switch, not out of the loop: \<open>p\<close> stays where it
  is. The fuel is one more than the number of bytes of the table.
\<close>

primrec mpinit_loop :: "nat \<Rightarrow> addr \<Rightarrow> addr \<Rightarrow> bool \<Rightarrow> ('a dmach_scheme, bool) K" where
  "mpinit_loop 0 p e ismp = kstop Diverge"
| "mpinit_loop (Suc n) p e ismp =
     (if p < e
      then
        kbind (kget (\<lambda>s. m_mem s)) (\<lambda>m.
        if m p = 0
        then
          kseq (kmod (\<lambda>s. if m_ncpu s < NCPU
                  then s\<lparr>m_cpus := (m_cpus s)(m_ncpu s := (m_cpus s (m_ncpu s))\<lparr>c_apicid := m (p + 1)\<rparr>),
                         m_ncpu := m_ncpu s + 1\<rparr>
                  else s))
               (mpinit_loop n (p + 20) e ismp)
        else if m p = 2
        then
          kseq (upd_dev (\<lambda>d. d\<lparr>dv_ioapicid := m (p + 1)\<rparr>))
               (mpinit_loop n (p + 8) e ismp)
        else if m p = 1 \<or> m p = 3 \<or> m p = 4 then mpinit_loop n (p + 8) e ismp
        else mpinit_loop n p e False)
      else ret ismp)"

definition mpinit :: "('a dmach_scheme, unit) K" where
  "mpinit =
     kbind (kget (\<lambda>s. m_mem s)) (\<lambda>m.
     case mpconfig m of
       None \<Rightarrow> panic ''Expect to run on an SMP''
     | Some (mp, conf) \<Rightarrow>
         let len = ucast (m (conf + 4)) OR push_bit 8 (ucast (m (conf + 5))) :: uint in
         kseq (upd_dev (\<lambda>d. d\<lparr>dv_lapicp := load32 m (conf + 36)\<rparr>)) (
         kbind (mpinit_loop (unat len + 1) (conf + 44) (conf + len) True) (\<lambda>ismp.
         if \<not> ismp then panic ''Didn't find a suitable machine''
         else kwhen (m (mp + 12) \<noteq> 0) (kseq (outb 0x22 0x70) (kbind getdev (\<lambda>d. outb 0x23 (dv_imcr d OR 1)))))))"

section \<open>Serial line\<close>

definition uartputc :: "uint \<Rightarrow> ('a dmach_scheme, unit) K" where
  "uartputc c = kbind getdev (\<lambda>d. kwhen (dv_uart d) (outb 0x3F8 c))"

definition uartgetc :: "('a dmach_scheme, int) K" where
  "uartgetc =
     kbind getdev (\<lambda>d.
     if \<not> dv_uart d then ret (- 1)
     else case dv_uart_in d of
       [] \<Rightarrow> ret (- 1)
     | c # cs \<Rightarrow> kseq (upd_dev (\<lambda>d. d\<lparr>dv_uart_in := cs\<rparr>)) (ret (uint c)))"

definition str :: "string \<Rightarrow> uchar list" where
  "str cs = map of_char cs"

text \<open>The argument is the line status that the port answers, \<open>0xFF\<close> when there is no port.\<close>

definition uartinit :: "uchar \<Rightarrow> ('a dmach_scheme, unit) K" where
  "uartinit lsr =
     kseq (outb 0x3FA 0) (
     kseq (outb 0x3FB 0x80) (
     kseq (outb 0x3F8 (115200 div 9600)) (
     kseq (outb 0x3F9 0) (
     kseq (outb 0x3FB 0x03) (
     kseq (outb 0x3FC 0) (
     kseq (outb 0x3F9 0x01) (
     kwhen (lsr \<noteq> 0xFF) (
       kseq (upd_dev (\<lambda>d. d\<lparr>dv_uart := True, dv_uart_in := drop 1 (dv_uart_in d)\<rparr>)) (
       kseq (ioapicenable IRQ_COM1 0)
            (kfor (\<lambda>c. uartputc (ucast c)) (str ''xv6...'' @ [10])))))))))))"

section \<open>Keyboard\<close>

definition K_SHIFT :: uint where "K_SHIFT = 1"
definition K_CTL :: uint where "K_CTL = 2"
definition K_ALT :: uint where "K_ALT = 4"
definition K_CAPSLOCK :: uint where "K_CAPSLOCK = 8"
definition K_NUMLOCK :: uint where "K_NUMLOCK = 16"
definition K_SCROLLLOCK :: uint where "K_SCROLLLOCK = 32"
definition K_E0ESC :: uint where "K_E0ESC = 64"

definition table :: "uchar list \<Rightarrow> (nat \<times> uchar) list \<Rightarrow> nat \<Rightarrow> uchar" where
  "table xs ex i = (case map_of ex i of Some c \<Rightarrow> c | None \<Rightarrow> if i < length xs then xs ! i else 0)"

definition shiftcode :: "nat \<Rightarrow> uint" where
  "shiftcode i =
     (if i = 0x1D \<or> i = 0x9D then K_CTL else if i = 0x2A \<or> i = 0x36 then K_SHIFT
      else if i = 0x38 \<or> i = 0xB8 then K_ALT else 0)"

definition togglecode :: "nat \<Rightarrow> uint" where
  "togglecode i =
     (if i = 0x3A then K_CAPSLOCK else if i = 0x45 then K_NUMLOCK
      else if i = 0x46 then K_SCROLLLOCK else 0)"

definition special_keys :: "(nat \<times> uchar) list" where
  "special_keys = [(0xC8, 0xE2), (0xD0, 0xE3), (0xC9, 0xE6), (0xD1, 0xE7), (0xCB, 0xE4), (0xCD, 0xE5),
     (0x97, 0xE0), (0xCF, 0xE1), (0xD2, 0xE8), (0xD3, 0xE9)]"

definition normalmap :: "nat \<Rightarrow> uchar" where
  "normalmap = table
     ([0, 0x1B] @ str ''1234567890-='' @ [8, 9] @ str ''qwertyuiop[]'' @ [10, 0]
      @ str ''asdfghjkl;'' @ [39, 96, 0, 92] @ str ''zxcvbnm,./'' @ [0, 42, 0, 32]
      @ replicate 13 0 @ str ''789-456+1230.'')
     ([(0x9C, 10), (0xB5, 47)] @ special_keys)"

definition shiftmap :: "nat \<Rightarrow> uchar" where
  "shiftmap = table
     ([0, 0x1B] @ str ''!@#$%^&*()_+'' @ [8, 9] @ str ''QWERTYUIOP{}'' @ [10, 0]
      @ str ''ASDFGHJKL:'' @ [34, 126, 0, 124] @ str ''ZXCVBNM<>?'' @ [0, 42, 0, 32]
      @ replicate 13 0 @ str ''789-456+1230.'')
     ([(0x9C, 10), (0xB5, 47)] @ special_keys)"

definition ctl :: "uchar \<Rightarrow> uchar" where
  "ctl c = c - 64"

definition ctlmap :: "nat \<Rightarrow> uchar" where
  "ctlmap = table
     (replicate 16 0 @ map ctl (str ''QWERTYUIOP'') @ [0, 0, 13, 0]
      @ map ctl (str ''ASDFGHJKL'') @ [0, 0, 0, 0, ctl 92] @ map ctl (str ''ZXCVBNM'') @ [0, 0, ctl 47, 0, 0])
     ([(0x9C, 13), (0xB5, ctl 47)] @ special_keys)"

definition charcode :: "uint \<Rightarrow> nat \<Rightarrow> uchar" where
  "charcode k = (if k = 0 then normalmap else if k = 1 then shiftmap else ctlmap)"

definition kbdgetc :: "('a dmach_scheme, int) K" where
  "kbdgetc =
     kbind getdev (\<lambda>d.
     case dv_kbd_in d of
       [] \<Rightarrow> ret (- 1)
     | b # bs \<Rightarrow>
         let data = ucast b :: uint; shift = dv_shift d in
         kseq (upd_dev (\<lambda>d. d\<lparr>dv_kbd_in := bs\<rparr>)) (
         if data = 0xE0
         then kseq (upd_dev (\<lambda>d. d\<lparr>dv_shift := shift OR K_E0ESC\<rparr>)) (ret 0)
         else if data AND 0x80 \<noteq> 0
         then
           let data = (if shift AND K_E0ESC \<noteq> 0 then data else data AND 0x7F) in
           kseq (upd_dev (\<lambda>d. d\<lparr>dv_shift := shift AND NOT (shiftcode (unat data) OR K_E0ESC)\<rparr>)) (ret 0)
         else
           let esc = shift AND K_E0ESC \<noteq> 0;
               data = (if esc then data OR 0x80 else data);
               shift = (if esc then shift AND NOT K_E0ESC else shift);
               shift = (shift OR shiftcode (unat data)) XOR togglecode (unat data);
               c = charcode (shift AND (K_CTL OR K_SHIFT)) (unat data);
               c = (if shift AND K_CAPSLOCK \<noteq> 0
                    then if 97 \<le> c \<and> c \<le> 122 then c - 32
                         else if 65 \<le> c \<and> c \<le> 90 then c + 32 else c
                    else c)
           in kseq (upd_dev (\<lambda>d. d\<lparr>dv_shift := shift\<rparr>)) (ret (uint c))))"

section \<open>Frame\<close>

lemma dev_frame [simp]:
  "cpuno (s\<lparr>st_dev := x\<rparr>) = cpuno s" "cur (s\<lparr>st_dev := x\<rparr>) = cur s"
  "cpu_ok (s\<lparr>st_dev := x\<rparr>) = cpu_ok s" "lock_free (s\<lparr>st_dev := x\<rparr>) l = lock_free s l"
  "holds (s\<lparr>st_dev := x\<rparr>) c l = holds s c l" "IF_on (s\<lparr>st_dev := x\<rparr>) = IF_on s"
  by (simp_all add: cpuno_def cur_def cpu_ok_def lock_free_def holds_def IF_on_def)

lemma acquired_dev [kframe]:
  "(acquired l s)\<lparr>st_dev := x\<rparr> = acquired l (s\<lparr>st_dev := x\<rparr>)"
  by (simp_all add: acquired_def pushed_def IF_on_def)

lemma acquired_dev_sel [simp]:
  "st_dev (acquired l s) = st_dev s"
  by (simp_all add: acquired_def pushed_def)

section \<open>An example\<close>

definition ex_devices :: devices where
  "ex_devices = \<lparr>dv_ports = [], dv_ioapic = (\<lambda>_. 0), dv_ioapicid = 0, dv_lapicp = 0xFEE00000, dv_lapic = (\<lambda>_. 0),
     dv_imcr = 0, dv_cmos = (\<lambda>_ _. 0), dv_cmos_t = 0, dv_uart = True, dv_uart_in = [], dv_kbd_in = [], dv_shift = 0,
     dv_locking = True, dv_panicked = False, dv_crt = (\<lambda>_. 0), dv_crtc = (\<lambda>_. 0),
     dv_input = \<lparr>in_buf = (\<lambda>_. 0), in_r = 0, in_w = 0, in_e = 0\<rparr>,
     dv_idt = (\<lambda>_. \<lparr>gd_off_15_0 = 0, gd_cs = 0, gd_args = 0, gd_rsv1 = 0, gd_type = 0, gd_s = 0, gd_dpl = 0, gd_p = 0,
       gd_off_31_16 = 0\<rparr>), dv_idtr = (\<lambda>_. True), dv_ticks = 0\<rparr>"

definition ex_dmach :: dmach where
  "ex_dmach = fmach.extend ex_fmach (dmach.fields ex_devices)"

lemma ex_dmach_mach: "mach.truncate ex_dmach = ex_mach"
  unfolding ex_fmach_mach [symmetric] by (simp add: ex_dmach_def mach.defs fmach.defs)

lemma ex_dmach_simps [simp]:
  "st_procs ex_dmach = st_procs ex_pmach" "m_cpus ex_dmach = m_cpus ex_pmach" "st_dev ex_dmach = ex_devices"
  "st_icache ex_dmach = (\<lambda>_. ex_inode)"
  using ex_fmach_simps by (simp_all add: ex_dmach_def fmach.defs dmach.defs)

lemma ex_dmach_ok: "running 0 ex_dmach" "cpu_ok ex_dmach" "lock_free ex_dmach l"
proof -
  have "cur ex_dmach = 0" "cpu_ok ex_dmach" "lock_free ex_dmach l" for l
    using ex_mach_ok by (simp_all flip: ex_dmach_mach add: mach_truncate)
  then show "running 0 ex_dmach" "cpu_ok ex_dmach" "lock_free ex_dmach l"
    by (simp_all add: running_def two_cpus_def)
qed

end
