(* ===== verification/Console.thy ===== *)
theory Console
  imports Devices
begin

text \<open>
  The console, \<^verbatim>\<open>src/console.c\<close>: formatted output to the screen and the serial line, line
  editing of the input, and the read and write functions of the console device; and \<open>procdump\<close>
  of \<^verbatim>\<open>src/proc.c\<close>, which control-P calls. \<open>membuf\<close> is where a buffer given to a read or write
  lives: in user memory, in kernel memory, or in a local array of the caller.

  The CRT controller has the cursor position in its registers 14 and 15; the screen memory is
  \<open>dv_crt\<close>. \<open>consoleread_loop\<close> is the loop of \<open>consoleread\<close> from its head on, entered again after
  \<open>sleep_resume\<close>.
\<close>

section \<open>Buffers of callers\<close>

datatype membuf = UserMem addr | KernMem addr | Stack "uchar list"

fun put_bytes :: "membuf \<Rightarrow> uint \<Rightarrow> uchar list \<Rightarrow> ('a vmach_scheme, unit) K" where
  "put_bytes (UserMem a) off bs = ustore bs (a + off)"
| "put_bytes (KernMem a) off bs = kmod (\<lambda>s. s\<lparr>m_mem := write_bytes (m_mem s) (a + off) bs\<rparr>)"
| "put_bytes (Stack d) off bs = ret ()"

fun get_bytes :: "membuf \<Rightarrow> uint \<Rightarrow> nat \<Rightarrow> ('a vmach_scheme, uchar list) K" where
  "get_bytes (UserMem a) off n = uload n (a + off)"
| "get_bytes (KernMem a) off n = kget (\<lambda>s. bytes_at (m_mem s) (a + off) n)"
| "get_bytes (Stack d) off n = ret (take n (drop (unat off) d))"

section \<open>Output\<close>

definition BACKSPACE :: uint where "BACKSPACE = 0x100"

definition crt_at :: "(nat \<Rightarrow> ushort) \<Rightarrow> nat \<Rightarrow> nat \<Rightarrow> (nat \<Rightarrow> ushort)" where
  "crt_at crt from' n = (\<lambda>i. if i < n then crt (from' + i) else crt i)"

definition cgaputc :: "uint \<Rightarrow> ('a dmach_scheme, unit) K" where
  "cgaputc c =
     kseq (outb 0x3D4 14) (
     kseq (outb 0x3D4 15) (
     kbind getdev (\<lambda>d.
     let pos = unat (dv_crtc d 14) * 256 + unat (dv_crtc d 15);
         put = (c \<noteq> 10 \<and> c \<noteq> BACKSPACE);
         crt = (if put then (dv_crt d)(pos := ucast (c AND 0xFF) OR 0x0700) else dv_crt d);
         pos = (if c = 10 then pos + (80 - pos mod 80)
                else if c = BACKSPACE then pos - 1 else pos + 1) in
     kseq (upd_dev (\<lambda>d. d\<lparr>dv_crt := crt\<rparr>)) (
     if pos > 25 * 80 then panic ''pos under/overflow''
     else
       let scroll = (pos div 80 \<ge> 24);
           crt1 = (if scroll then crt_at crt 80 (23 * 80) else crt);
           pos1 = (if scroll then pos - 80 else pos);
           crt2 = (if scroll then (\<lambda>i. if pos1 \<le> i \<and> i < 24 * 80 then 0 else crt1 i) else crt1) in
       kseq (outb 0x3D4 14) (
       kseq (outb 0x3D5 (of_nat (pos1 div 256))) (
       kseq (outb 0x3D4 15) (
       kseq (outb 0x3D5 (of_nat pos1))
            (upd_dev (\<lambda>d. d\<lparr>dv_crtc := (dv_crtc d)(14 := of_nat (pos1 div 256), 15 := of_nat pos1),
                            dv_crt := crt2(pos1 := 0x0720)\<rparr>)))))))))"

text \<open>A CPU that prints after another one has panicked stops there for good.\<close>

definition consputc :: "uint \<Rightarrow> ('a dmach_scheme, unit) K" where
  "consputc c =
     kbind getdev (\<lambda>d.
     if dv_panicked d then kseq cli (kstop Diverge)
     else
       kseq (if c = BACKSPACE
             then kseq (uartputc 8) (kseq (uartputc 32) (uartputc 8))
             else uartputc c)
            (cgaputc c))"

section \<open>Formatted output\<close>

definition digits :: "uchar list" where
  "digits = str ''0123456789abcdef''"

text \<open>The digits of a number, least significant first, as the loop stores them.\<close>

function digits_rev :: "nat \<Rightarrow> nat \<Rightarrow> uchar list" where
  "digits_rev x base =
     digits ! (x mod base) # (if base < 2 \<or> x div base = 0 then [] else digits_rev (x div base) base)"
  by auto
termination
  by (relation "measure fst") (auto simp: div_less_dividend intro!: div_less_dividend gr0I)

declare digits_rev.simps [simp del]

definition int_chars :: "uint \<Rightarrow> nat \<Rightarrow> bool \<Rightarrow> uchar list" where
  "int_chars xx base sign =
     (let neg = (sign \<and> sint xx < 0); x = (if neg then - xx else xx)
      in rev (digits_rev (unat x) base @ (if neg then [45] else [])))"

definition printint :: "uint \<Rightarrow> nat \<Rightarrow> bool \<Rightarrow> ('a dmach_scheme, unit) K" where
  "printint xx base sign = kfor (\<lambda>c. consputc (ucast c)) (int_chars xx base sign)"

text \<open>
  The arguments of \<open>cprintf\<close>: words, and strings by their contents (\<open>None\<close> the null pointer). A
  missing argument reads whatever is above the call's frame; the model stops there.
\<close>

datatype fmtarg = ArgInt uint | ArgStr "uchar list option"

fun cprintf_loop :: "uchar list \<Rightarrow> fmtarg list \<Rightarrow> ('a dmach_scheme, unit) K" where
  "cprintf_loop [] args = ret ()"
| "cprintf_loop [c] args = (if c \<noteq> 37 then consputc (ucast c) else ret ())"
| "cprintf_loop (c # e # fmt) args =
     (if c \<noteq> 37 then kseq (consputc (ucast c)) (cprintf_loop (e # fmt) args)
      else if e = 100 then
        (case args of ArgInt v # as \<Rightarrow> kseq (printint v 10 True) (cprintf_loop fmt as)
         | _ \<Rightarrow> kstop (Wild ''cprintf argument''))
      else if e = 120 \<or> e = 112 then
        (case args of ArgInt v # as \<Rightarrow> kseq (printint v 16 False) (cprintf_loop fmt as)
         | _ \<Rightarrow> kstop (Wild ''cprintf argument''))
      else if e = 115 then
        (case args of ArgStr v # as \<Rightarrow>
           kseq (kfor (\<lambda>c. consputc (ucast c)) (case v of None \<Rightarrow> str ''(null)'' | Some t \<Rightarrow> t))
                (cprintf_loop fmt as)
         | _ \<Rightarrow> kstop (Wild ''cprintf argument''))
      else if e = 37 then kseq (consputc 37) (cprintf_loop fmt args)
      else kseq (consputc 37) (kseq (consputc (ucast e)) (cprintf_loop fmt args)))"

definition cprintf :: "uchar list option \<Rightarrow> fmtarg list \<Rightarrow> ('a dmach_scheme, unit) K" where
  "cprintf fmt args =
     kbind (kget (\<lambda>s. dv_locking (st_dev s))) (\<lambda>locking.
     kseq (kwhen locking (acquire ConsLock)) (
     case fmt of None \<Rightarrow> panic ''null fmt''
     | Some f \<Rightarrow> kseq (cprintf_loop f args) (kwhen locking (release ConsLock))))"

definition print_pcs :: "uint list \<Rightarrow> ('a dmach_scheme, unit) K" where
  "print_pcs = kfor (\<lambda>pc. cprintf (Some (str '' %p'')) [ArgInt pc])"

text \<open>What \<^verbatim>\<open>panic\<close> prints before it stops; \<open>frame\<close> is the address of its argument on the stack.\<close>

definition panic_report :: "addr \<Rightarrow> string \<Rightarrow> ('a dmach_scheme, unit) K" where
  "panic_report frame msg =
     kseq cli (
     kseq (upd_dev (\<lambda>d. d\<lparr>dv_locking := False\<rparr>)) (
     kbind lapicid (\<lambda>i.
     kseq (cprintf (Some (str ''lapicid %d: panic: '')) [ArgInt i]) (
     kseq (cprintf (Some (str msg)) []) (
     kseq (cprintf (Some [10]) []) (
     kbind (kget (\<lambda>s. getcallerpcs (m_mem s) frame)) (\<lambda>pcs.
     kseq (print_pcs pcs) (
     kseq (upd_dev (\<lambda>d. d\<lparr>dv_panicked := True\<rparr>)) (panic msg)))))))))"

section \<open>Process listing\<close>

definition state_name :: "procstate \<Rightarrow> string" where
  "state_name st = (case st of UNUSED \<Rightarrow> ''unused'' | EMBRYO \<Rightarrow> ''embryo'' | SLEEPING \<Rightarrow> ''sleep ''
     | RUNNABLE \<Rightarrow> ''runble'' | RUNNING \<Rightarrow> ''run   '' | ZOMBIE \<Rightarrow> ''zombie'')"

definition procdump_one :: "nat \<Rightarrow> ('a dmach_scheme, unit) K" where
  "procdump_one i =
     kbind (kget (\<lambda>s. st_procs s i)) (\<lambda>p.
     kwhen (p_state p \<noteq> UNUSED) (
       kseq (cprintf (Some (str ''%d %s %s''))
               [ArgInt (of_int (p_pid p)), ArgStr (Some (str (state_name (p_state p)))),
                ArgStr (Some (p_name p))]) (
       kseq (kwhen (p_state p = SLEEPING)
               (kbind (kget (\<lambda>s. getcallerpcs (m_mem s) (cx_ebp (st_ctx s (p_context p)) + 8))) (\<lambda>pcs.
                print_pcs (takeWhile (\<lambda>pc. pc \<noteq> 0) pcs))))
            (cprintf (Some [10]) []))))"

definition procdump :: "('a dmach_scheme, unit) K" where
  "procdump = kfor procdump_one [0..<NPROC]"

section \<open>Input\<close>

definition INPUT_BUF :: nat where "INPUT_BUF = 128"

definition upd_input :: "(consbuf \<Rightarrow> consbuf) \<Rightarrow> ('a dmach_scheme, unit) K" where
  "upd_input f = upd_dev (\<lambda>d. d\<lparr>dv_input := f (dv_input d)\<rparr>)"

definition getinput :: "('a dmach_scheme, consbuf) K" where
  "getinput = kget (\<lambda>s. dv_input (st_dev s))"

definition in_at :: "consbuf \<Rightarrow> uint \<Rightarrow> uchar" where
  "in_at b i = in_buf b (unat i mod INPUT_BUF)"

text \<open>
  Erasing the line that is being edited: at most the characters between the write index and the
  edit index, which is the fuel.
\<close>

primrec kill_line :: "nat \<Rightarrow> ('a dmach_scheme, unit) K" where
  "kill_line 0 = ret ()"
| "kill_line (Suc n) =
     kbind getinput (\<lambda>b.
     if in_e b \<noteq> in_w b \<and> in_at b (in_e b - 1) \<noteq> 10
     then
       kseq (upd_input (\<lambda>b. b\<lparr>in_e := in_e b - 1\<rparr>)) (
       kseq (consputc BACKSPACE) (kill_line n))
     else ret ())"

text \<open>One character of input.\<close>

definition cons_char :: "int \<Rightarrow> ('a dmach_scheme, unit) K" where
  "cons_char c =
     (if c = 16 then ret ()
      else if c = 21 then kbind getinput (\<lambda>b. kill_line (unat (in_e b - in_w b)))
      else if c = 8 \<or> c = 127 then
        kbind getinput (\<lambda>b.
        kwhen (in_e b \<noteq> in_w b) (
          kseq (upd_input (\<lambda>b. b\<lparr>in_e := in_e b - 1\<rparr>)) (consputc BACKSPACE)))
      else
        kbind getinput (\<lambda>b.
        kwhen (c \<noteq> 0 \<and> in_e b - in_r b < of_nat INPUT_BUF) (
          let c = (if c = 13 then 10 else c) in
          kseq (upd_input (\<lambda>b. b\<lparr>in_buf := (in_buf b)(unat (in_e b) mod INPUT_BUF := of_int c),
                               in_e := in_e b + 1\<rparr>)) (
          kseq (consputc (of_int c)) (
          kbind getinput (\<lambda>b.
          kwhen (c = 10 \<or> c = 4 \<or> in_e b = in_r b + of_nat INPUT_BUF) (
            kseq (upd_input (\<lambda>b. b\<lparr>in_w := in_e b\<rparr>)) (wakeup ChanInput)))))))
     )"

text \<open>
  The loop of the interrupt handler takes characters until the device has no more. Each turn takes
  a byte from the device, so the fuel is the number of waiting bytes, plus one.
\<close>

primrec cons_loop :: "nat \<Rightarrow> ('a dmach_scheme, int) K \<Rightarrow> bool \<Rightarrow> ('a dmach_scheme, bool) K" where
  "cons_loop 0 getc dump = kstop Diverge"
| "cons_loop (Suc n) getc dump =
     kbind getc (\<lambda>c.
     if c < 0 then ret dump
     else kseq (cons_char c) (cons_loop n getc (dump \<or> c = 16)))"

definition consoleintr :: "('a dmach_scheme, int) K \<Rightarrow> nat \<Rightarrow> ('a dmach_scheme, unit) K" where
  "consoleintr getc waiting =
     kseq (acquire ConsLock) (
     kbind (cons_loop (Suc waiting) getc False) (\<lambda>dump.
     kseq (release ConsLock) (kwhen dump procdump)))"

definition kbdintr :: "('a dmach_scheme, unit) K" where
  "kbdintr = kbind getdev (\<lambda>d. consoleintr kbdgetc (length (dv_kbd_in d)))"

definition uartintr :: "('a dmach_scheme, unit) K" where
  "uartintr = kbind getdev (\<lambda>d. consoleintr uartgetc (length (dv_uart_in d)))"

section \<open>The console device\<close>

text \<open>
  \<open>consoleread_loop ip dst target n\<close>: \<open>n\<close> bytes are still wanted of \<open>target\<close>. The result is the
  number of bytes read, and the bytes themselves for a caller with a local buffer.
\<close>

definition consoleread_end :: "nat option \<Rightarrow> nat \<Rightarrow> nat \<Rightarrow> uchar list \<Rightarrow> ('a dmach_scheme, int \<times> uchar list) K" where
  "consoleread_end ip target n acc =
     kseq (release ConsLock) (
     kseq (ilock ip) (ret (int target - int n, acc)))"

primrec consoleread_loop ::
  "nat option \<Rightarrow> membuf \<Rightarrow> nat \<Rightarrow> nat \<Rightarrow> uchar list \<Rightarrow> ('a dmach_scheme, int \<times> uchar list) K" where
  "consoleread_loop ip dst target 0 acc = consoleread_end ip target 0 acc"
| "consoleread_loop ip dst target (Suc n) acc =
     kbind getinput (\<lambda>b.
     if in_r b = in_w b
     then
       kbind myproc (\<lambda>p.
       kbind (kget (\<lambda>s. p_killed (procp s p))) (\<lambda>k.
       if k then kseq (release ConsLock) (kseq (ilock ip) (ret (- 1, [])))
       else kseq (sleep ChanInput ConsLock) (ret (- 1, []))))
     else
       let c = in_at b (in_r b) in
       kseq (upd_input (\<lambda>b. b\<lparr>in_r := in_r b + 1\<rparr>)) (
       if c = 4
       then
         kseq (kwhen (Suc n < target) (upd_input (\<lambda>b. b\<lparr>in_r := in_r b - 1\<rparr>)))
              (consoleread_end ip target (Suc n) acc)
       else
         kseq (put_bytes dst (of_nat (target - Suc n)) [c]) (
         if c = 10 then consoleread_end ip target n (acc @ [c])
         else consoleread_loop ip dst target n (acc @ [c]))))"

definition consoleread :: "nat option \<Rightarrow> membuf \<Rightarrow> int \<Rightarrow> ('a dmach_scheme, int \<times> uchar list) K" where
  "consoleread ip dst n =
     kseq (iunlock ip) (
     kseq (acquire ConsLock) (
     if n > 0 then consoleread_loop ip dst (nat n) (nat n) []
     else kseq (release ConsLock) (kseq (ilock ip) (ret (0, [])))))"

definition consolewrite :: "nat option \<Rightarrow> membuf \<Rightarrow> int \<Rightarrow> ('a dmach_scheme, int) K" where
  "consolewrite ip src n =
     kseq (iunlock ip) (
     kseq (acquire ConsLock) (
     kseq (kfor (\<lambda>i.
             kbind (get_bytes src (of_nat i) 1) (\<lambda>bs. consputc (ucast (hd bs)))) [0..<nat n]) (
     kseq (release ConsLock) (
     kseq (ilock ip) (ret n)))))"

definition CONSOLE :: nat where "CONSOLE = 1"

definition consoleinit :: "('a dmach_scheme, unit) K" where
  "consoleinit =
     kseq (initlock ConsLock ''console'') (
     kseq (kmod (\<lambda>s. s\<lparr>st_devsw := (st_devsw s)(CONSOLE := ConsoleDevice)\<rparr>)) (
     kseq (upd_dev (\<lambda>d. d\<lparr>dv_locking := True\<rparr>))
          (ioapicenable IRQ_KBD 0)))"

end
