(* ===== verification/Fs.thy ===== *)
theory Fs
  imports Console
begin

text \<open>
  Reading and writing inodes, directories and path names: the upper half of \<^verbatim>\<open>src/fs.c\<close>.

  A path or a name is the list of its bytes before the terminating NUL. \<open>readi\<close> returns, with the
  result of the code, the bytes it copied, which is how a caller with a local buffer sees them.
\<close>

section \<open>Reading and writing\<close>

function readi_loop ::
  "nat \<Rightarrow> membuf \<Rightarrow> nat \<Rightarrow> nat \<Rightarrow> nat \<Rightarrow> uchar list \<Rightarrow> ('a dmach_scheme, uchar list) K" where
  "readi_loop i dst n tot off acc =
     (if tot < n
      then
        kbind (getinode i) (\<lambda>ip.
        kbind (bmap i (off div BSIZE)) (\<lambda>addr.
        kbind (bread (i_dev ip) addr) (\<lambda>bp.
        let m = min (n - tot) (BSIZE - off mod BSIZE) in
        kbind (getbuf bp) (\<lambda>b.
        let bs = take m (drop (off mod BSIZE) (b_data b)) in
        kseq (put_bytes dst (of_nat tot) bs) (
        kseq (brelse bp) (readi_loop i dst n (tot + m) (off + m) (acc @ bs)))))))
      else ret acc)"
  by auto
termination
  by (relation "measure (\<lambda>(_, _, n, tot, _, _). n - tot)") (auto simp: BSIZE_def)

declare readi_loop.simps [simp del]

definition readi :: "nat \<Rightarrow> membuf \<Rightarrow> uint \<Rightarrow> uint \<Rightarrow> ('a dmach_scheme, int \<times> uchar list) K" where
  "readi i dst off n =
     kbind (getinode i) (\<lambda>ip.
     if d_type ip = T_DEV
     then
       kbind (kget st_devsw) (\<lambda>sw.
       if sint (d_major ip) < 0 \<or> sint (d_major ip) \<ge> int NDEV \<or> sw (unat (d_major ip)) = NoDevice
       then ret (- 1, [])
       else consoleread (Some i) dst (sint n))
     else if off > d_size ip \<or> off + n < off then ret (- 1, [])
     else
       let n = (if off + n > d_size ip then d_size ip - off else n) in
       kbind (readi_loop i dst (unat n) 0 (unat off) []) (\<lambda>bs. ret (sint n, bs)))"

function writei_loop :: "nat \<Rightarrow> membuf \<Rightarrow> nat \<Rightarrow> nat \<Rightarrow> nat \<Rightarrow> ('a dmach_scheme, unit) K" where
  "writei_loop i src n tot off =
     (if tot < n
      then
        kbind (getinode i) (\<lambda>ip.
        kbind (bmap i (off div BSIZE)) (\<lambda>addr.
        kbind (bread (i_dev ip) addr) (\<lambda>bp.
        let m = min (n - tot) (BSIZE - off mod BSIZE) in
        kbind (get_bytes src (of_nat tot) m) (\<lambda>bs.
        kseq (upd_buf bp (\<lambda>y. y\<lparr>b_data := splice (b_data y) (off mod BSIZE) bs\<rparr>)) (
        kseq (log_write bp) (
        kseq (brelse bp) (writei_loop i src n (tot + m) (off + m))))))))
      else ret ())"
  by auto
termination
  by (relation "measure (\<lambda>(_, _, n, tot, _). n - tot)") (auto simp: BSIZE_def)

declare writei_loop.simps [simp del]

definition writei :: "nat \<Rightarrow> membuf \<Rightarrow> uint \<Rightarrow> uint \<Rightarrow> ('a dmach_scheme, int) K" where
  "writei i src off n =
     kbind (getinode i) (\<lambda>ip.
     if d_type ip = T_DEV
     then
       kbind (kget st_devsw) (\<lambda>sw.
       if sint (d_major ip) < 0 \<or> sint (d_major ip) \<ge> int NDEV \<or> sw (unat (d_major ip)) = NoDevice
       then ret (- 1)
       else consolewrite (Some i) src (sint n))
     else if off > d_size ip \<or> off + n < off then ret (- 1)
     else if off + n > of_nat (MAXFILE * BSIZE) then ret (- 1)
     else
       kseq (writei_loop i src (unat n) 0 (unat off)) (
       kbind (getinode i) (\<lambda>ip.
       kseq (kwhen (n > 0 \<and> off + n > d_size ip) (
               kseq (upd_inode i (\<lambda>x. x\<lparr>d_size := off + n\<rparr>)) (iupdate i)))
            (ret (sint n)))))"

section \<open>Directories\<close>

text \<open>\<open>strncmp\<close> on the contents of two strings: past its last byte a string has its NUL.\<close>

fun strncmp_l :: "uchar list \<Rightarrow> uchar list \<Rightarrow> nat \<Rightarrow> int" where
  "strncmp_l p q 0 = 0"
| "strncmp_l p q (Suc n) =
     (let a = (case p of [] \<Rightarrow> 0 | x # _ \<Rightarrow> x); b = (case q of [] \<Rightarrow> 0 | x # _ \<Rightarrow> x)
      in if a \<noteq> 0 \<and> a = b then strncmp_l (tl p) (tl q) n else uint a - uint b)"

definition namecmp :: "uchar list \<Rightarrow> uchar list \<Rightarrow> int" where
  "namecmp p q = strncmp_l p q DIRSIZ"

record dirent =
  de_inum :: ushort
  de_name :: "uchar list"

definition DIRENT_SIZE :: nat where "DIRENT_SIZE = 16"

definition decode_dirent :: "uchar list \<Rightarrow> dirent" where
  "decode_dirent bs = \<lparr>de_inum = get16 bs 0, de_name = take DIRSIZ (drop 2 bs)\<rparr>"

definition encode_dirent :: "dirent \<Rightarrow> uchar list" where
  "encode_dirent de = le16 (de_inum de) @ de_name de"

definition read_dirent :: "nat \<Rightarrow> nat \<Rightarrow> string \<Rightarrow> ('a dmach_scheme, dirent) K" where
  "read_dirent dp off msg =
     kbind (readi dp (Stack []) (of_nat off) (of_nat DIRENT_SIZE)) (\<lambda>(r, bs).
     if r \<noteq> int DIRENT_SIZE then panic msg else ret (decode_dirent bs))"

text \<open>The offsets that the directory loops visit.\<close>

definition dir_offsets :: "uint \<Rightarrow> nat list" where
  "dir_offsets sz = map (\<lambda>k. k * DIRENT_SIZE) [0..<(unat sz + DIRENT_SIZE - 1) div DIRENT_SIZE]"

fun dirlookup_loop :: "nat \<Rightarrow> uchar list \<Rightarrow> nat list \<Rightarrow> ('a dmach_scheme, (nat \<times> nat) option) K" where
  "dirlookup_loop dp name [] = ret None"
| "dirlookup_loop dp name (off # offs) =
     kbind (read_dirent dp off ''dirlookup read'') (\<lambda>de.
     if de_inum de = 0 then dirlookup_loop dp name offs
     else if namecmp name (de_name de) = 0
     then
       kbind (getinode dp) (\<lambda>d.
       kbind (iget (i_dev d) (unat (de_inum de))) (\<lambda>i. ret (Some (i, off))))
     else dirlookup_loop dp name offs)"

definition dirlookup :: "nat \<Rightarrow> uchar list \<Rightarrow> ('a dmach_scheme, (nat \<times> nat) option) K" where
  "dirlookup dp name =
     kbind (getinode dp) (\<lambda>d.
     if d_type d \<noteq> T_DIR then panic ''dirlookup not DIR''
     else dirlookup_loop dp name (dir_offsets (d_size d)))"

fun dirlink_slot :: "nat \<Rightarrow> nat list \<Rightarrow> nat \<Rightarrow> ('a dmach_scheme, nat) K" where
  "dirlink_slot dp [] e = ret e"
| "dirlink_slot dp (off # offs) e =
     kbind (read_dirent dp off ''dirlink read'') (\<lambda>de.
     if de_inum de = 0 then ret off else dirlink_slot dp offs e)"

definition pad_name :: "uchar list \<Rightarrow> uchar list" where
  "pad_name name = take DIRSIZ (name @ replicate DIRSIZ 0)"

definition dirlink :: "nat \<Rightarrow> uchar list \<Rightarrow> nat \<Rightarrow> ('a dmach_scheme, int) K" where
  "dirlink dp name inum =
     kbind (dirlookup dp name) (\<lambda>r.
     case r of
       Some (i, _) \<Rightarrow> kseq (iput (Some i)) (ret (- 1))
     | None \<Rightarrow>
         kbind (getinode dp) (\<lambda>d.
         let offs = dir_offsets (d_size d) in
         kbind (dirlink_slot dp offs (length offs * DIRENT_SIZE)) (\<lambda>off.
         kbind (writei dp (Stack (encode_dirent \<lparr>de_inum = of_nat inum, de_name = pad_name name\<rparr>))
                  (of_nat off) (of_nat DIRENT_SIZE)) (\<lambda>r.
         if r \<noteq> int DIRENT_SIZE then panic ''dirlink'' else ret 0))))"

section \<open>Paths\<close>

definition slash :: uchar where "slash = 47"

text \<open>
  \<open>skipelem path\<close>: the rest of the path after its first element, without leading slashes, and the
  element, cut to \<^verbatim>\<open>DIRSIZ\<close> bytes; \<open>None\<close> when there is no element.
\<close>

definition skipelem :: "uchar list \<Rightarrow> (uchar list \<times> uchar list) option" where
  "skipelem path =
     (let p = dropWhile (\<lambda>c. c = slash) path in
      if p = [] then None
      else
        let s = takeWhile (\<lambda>c. c \<noteq> slash) p;
            rest = dropWhile (\<lambda>c. c \<noteq> slash) p
        in Some (dropWhile (\<lambda>c. c = slash) rest, if length s \<ge> DIRSIZ then take DIRSIZ s else s))"

lemma skipelem_shorter: "skipelem path = Some (rest, name) \<Longrightarrow> length rest < length path"
proof -
  assume a: "skipelem path = Some (rest, name)"
  let ?p = "dropWhile (\<lambda>c. c = slash) path"
  have ne: "?p \<noteq> []" and r: "rest = dropWhile (\<lambda>c. c = slash) (dropWhile (\<lambda>c. c \<noteq> slash) ?p)"
    using a by (auto simp: skipelem_def Let_def split: if_splits)
  have "hd ?p \<noteq> slash" using hd_dropWhile [OF ne] by simp
  then have "length (dropWhile (\<lambda>c. c \<noteq> slash) ?p) < length ?p"
    using ne by (cases ?p) (auto simp: length_dropWhile_le le_imp_less_Suc)
  moreover have "length rest \<le> length (dropWhile (\<lambda>c. c \<noteq> slash) ?p)"
    unfolding r by (rule length_dropWhile_le)
  moreover have "length ?p \<le> length path" by (rule length_dropWhile_le)
  ultimately show ?thesis by linarith
qed

text \<open>The result \<open>None\<close> is the null pointer; the name is the last element for \<open>nameiparent\<close>.\<close>

function namex_loop ::
  "nat \<Rightarrow> uchar list \<Rightarrow> bool \<Rightarrow> uchar list \<Rightarrow> ('a dmach_scheme, nat option \<times> uchar list) K" where
  "namex_loop i path parent nm =
     (case skipelem path of
        None \<Rightarrow>
          if parent then kseq (iput (Some i)) (ret (None, nm)) else ret (Some i, nm)
      | Some (rest, name) \<Rightarrow>
          kseq (ilock (Some i)) (
          kbind (getinode i) (\<lambda>ip.
          if d_type ip \<noteq> T_DIR then kseq (iunlockput (Some i)) (ret (None, name))
          else if parent \<and> rest = [] then kseq (iunlock (Some i)) (ret (Some i, name))
          else
            kbind (dirlookup i name) (\<lambda>r.
            case r of
              None \<Rightarrow> kseq (iunlockput (Some i)) (ret (None, name))
            | Some (next, _) \<Rightarrow> kseq (iunlockput (Some i)) (namex_loop next rest parent name)))))"
  by pat_completeness auto
termination
  by (relation "measure (\<lambda>(_, path, _, _). length path)") (auto simp: skipelem_shorter)

declare namex_loop.simps [simp del]

definition namex :: "uchar list \<Rightarrow> bool \<Rightarrow> ('a dmach_scheme, nat option \<times> uchar list) K" where
  "namex path parent =
     kbind (if path \<noteq> [] \<and> hd path = slash
            then kbind (iget (unat ROOTDEV) ROOTINO) (\<lambda>i. ret (Some i))
            else
              kbind myproc (\<lambda>p.
              kbind (kget (\<lambda>s. sh_cwd (sharedp s p))) (\<lambda>cwd. idup cwd))) (\<lambda>ip.
     case ip of None \<Rightarrow> kstop (Wild ''null inode'')
     | Some i \<Rightarrow> namex_loop i path parent [])"

definition namei :: "uchar list \<Rightarrow> ('a dmach_scheme, nat option) K" where
  "namei path = kbind (namex path False) (\<lambda>r. ret (fst r))"

definition nameiparent :: "uchar list \<Rightarrow> ('a dmach_scheme, nat option \<times> uchar list) K" where
  "nameiparent path = namex path True"

end
