(* ===== verification/File.thy ===== *)
theory File
  imports Fs
begin

text \<open>
  Pipes, \<^verbatim>\<open>src/pipe.c\<close>, and the file table, \<^verbatim>\<open>src/file.c\<close>.

  A pipe lives in an allocated page and is kept by the address of that page. The counters
  \<^verbatim>\<open>nread\<close> and \<^verbatim>\<open>nwrite\<close> are 32-bit words that wrap around. \<open>pipewrite_loop\<close> and
  \<open>piperead_loop\<close> are the loops from their heads on, entered again after \<open>sleep_resume\<close>.

  Lemmas: a pipe is a bounded queue of bytes; the reference counts of the file table.
\<close>

section \<open>State\<close>

definition PIPESIZE :: nat where "PIPESIZE = 512"

record pipe =
  pi_data :: "nat \<Rightarrow> uchar"
  pi_nread :: uint
  pi_nwrite :: uint
  pi_readopen :: bool
  pi_writeopen :: bool

datatype filetype = FD_NONE | FD_PIPE | FD_INODE

record kfile =
  f_type :: filetype
  f_ref :: int
  f_readable :: bool
  f_writable :: bool
  f_pipe :: addr
  f_ip :: "nat option"
  f_off :: uint

record filemach = dmach +
  st_pipes :: "addr \<Rightarrow> pipe"
  st_files :: "nat \<Rightarrow> kfile"

definition upd_pipe :: "addr \<Rightarrow> (pipe \<Rightarrow> pipe) \<Rightarrow> ('a filemach_scheme, unit) K" where
  "upd_pipe p f = kmod (\<lambda>s. s\<lparr>st_pipes := (st_pipes s)(p := f (st_pipes s p))\<rparr>)"

definition upd_file :: "nat \<Rightarrow> (kfile \<Rightarrow> kfile) \<Rightarrow> ('a filemach_scheme, unit) K" where
  "upd_file i f = kmod (\<lambda>s. s\<lparr>st_files := (st_files s)(i := f (st_files s i))\<rparr>)"

definition getpipe :: "addr \<Rightarrow> ('a filemach_scheme, pipe) K" where
  "getpipe p = kget (\<lambda>s. st_pipes s p)"

definition getfile :: "nat \<Rightarrow> ('a filemach_scheme, kfile) K" where
  "getfile i = kget (\<lambda>s. st_files s i)"

definition killed :: "('a filemach_scheme, bool) K" where
  "killed = kbind myproc (\<lambda>p. kget (\<lambda>s. p_killed (procp s p)))"

section \<open>Pipes\<close>

text \<open>
  The ring buffer: the test for a full and for an empty pipe, the store at \<^verbatim>\<open>nwrite++\<close>, and the
  byte at \<^verbatim>\<open>nread\<close> with the increment that takes it out.
\<close>

definition pipe_full :: "pipe \<Rightarrow> bool" where
  "pipe_full q \<longleftrightarrow> pi_nwrite q = pi_nread q + of_nat PIPESIZE"

definition pipe_empty :: "pipe \<Rightarrow> bool" where
  "pipe_empty q \<longleftrightarrow> pi_nread q = pi_nwrite q"

definition pipe_put :: "uchar \<Rightarrow> pipe \<Rightarrow> pipe" where
  "pipe_put b q = q\<lparr>pi_data := (pi_data q)(unat (pi_nwrite q) mod PIPESIZE := b),
     pi_nwrite := pi_nwrite q + 1\<rparr>"

definition pipe_head :: "pipe \<Rightarrow> uchar" where
  "pipe_head q = pi_data q (unat (pi_nread q) mod PIPESIZE)"

definition pipe_take :: "pipe \<Rightarrow> pipe" where
  "pipe_take q = q\<lparr>pi_nread := pi_nread q + 1\<rparr>"

definition pipeclose :: "addr \<Rightarrow> bool \<Rightarrow> ('a filemach_scheme, unit) K" where
  "pipeclose p writable =
     kseq (acquire (PipeLock p)) (
     kseq (if writable
           then kseq (upd_pipe p (\<lambda>q. q\<lparr>pi_writeopen := False\<rparr>)) (wakeup (ChanPipeRead p))
           else kseq (upd_pipe p (\<lambda>q. q\<lparr>pi_readopen := False\<rparr>)) (wakeup (ChanPipeWrite p))) (
     kbind (getpipe p) (\<lambda>q.
     if \<not> pi_readopen q \<and> \<not> pi_writeopen q
     then kseq (release (PipeLock p)) (kfree p)
     else release (PipeLock p))))"

text \<open>\<open>pipewrite_loop p addr n k\<close>: \<open>k\<close> of the \<open>n\<close> bytes are still to be written.\<close>

primrec pipewrite_loop :: "addr \<Rightarrow> addr \<Rightarrow> nat \<Rightarrow> nat \<Rightarrow> ('a filemach_scheme, int) K" where
  "pipewrite_loop p addr n 0 =
     kseq (wakeup (ChanPipeRead p)) (
     kseq (release (PipeLock p)) (ret (int n)))"
| "pipewrite_loop p addr n (Suc k) =
     kbind (getpipe p) (\<lambda>q.
     if pipe_full q
     then
       kbind killed (\<lambda>dead.
       if \<not> pi_readopen q \<or> dead
       then kseq (release (PipeLock p)) (ret (- 1))
       else
         kseq (wakeup (ChanPipeRead p)) (
         kseq (sleep (ChanPipeWrite p) (PipeLock p)) (ret (- 1))))
     else
       kbind (uload8 (addr + of_nat (n - Suc k))) (\<lambda>b.
       kseq (upd_pipe p (pipe_put b)) (pipewrite_loop p addr n k)))"

definition pipewrite :: "addr \<Rightarrow> addr \<Rightarrow> int \<Rightarrow> ('a filemach_scheme, int) K" where
  "pipewrite p addr n =
     kseq (acquire (PipeLock p)) (
     if n > 0 then pipewrite_loop p addr (nat n) (nat n)
     else kseq (wakeup (ChanPipeRead p)) (kseq (release (PipeLock p)) (ret n)))"

text \<open>The copying loop of \<open>piperead\<close>; \<open>i\<close> is its index, \<open>k\<close> the number of turns left.\<close>

primrec piperead_copy :: "addr \<Rightarrow> addr \<Rightarrow> nat \<Rightarrow> nat \<Rightarrow> ('a filemach_scheme, nat) K" where
  "piperead_copy p addr i 0 = ret i"
| "piperead_copy p addr i (Suc k) =
     kbind (getpipe p) (\<lambda>q.
     if pipe_empty q then ret i
     else
       kseq (upd_pipe p pipe_take) (
       kseq (ustore8 (addr + of_nat i) (pipe_head q))
            (piperead_copy p addr (Suc i) k)))"

definition piperead_loop :: "addr \<Rightarrow> addr \<Rightarrow> int \<Rightarrow> ('a filemach_scheme, int) K" where
  "piperead_loop p addr n =
     kbind (getpipe p) (\<lambda>q.
     if pipe_empty q \<and> pi_writeopen q
     then
       kbind killed (\<lambda>dead.
       if dead then kseq (release (PipeLock p)) (ret (- 1))
       else kseq (sleep (ChanPipeRead p) (PipeLock p)) (ret (- 1)))
     else
       kbind (piperead_copy p addr 0 (nat n)) (\<lambda>i.
       kseq (wakeup (ChanPipeWrite p)) (
       kseq (release (PipeLock p)) (ret (int i)))))"

definition piperead :: "addr \<Rightarrow> addr \<Rightarrow> int \<Rightarrow> ('a filemach_scheme, int) K" where
  "piperead p addr n = kseq (acquire (PipeLock p)) (piperead_loop p addr n)"

section \<open>The file table\<close>

definition fileinit :: "('a filemach_scheme, unit) K" where
  "fileinit = initlock FtableLock ''ftable''"

definition filealloc :: "('a filemach_scheme, nat option) K" where
  "filealloc =
     kseq (acquire FtableLock) (
     kbind (kget st_files) (\<lambda>fs.
     case find (\<lambda>i. f_ref (fs i) = 0) [0..<NFILE] of
       Some i \<Rightarrow>
         kseq (upd_file i (\<lambda>f. f\<lparr>f_ref := 1\<rparr>)) (
         kseq (release FtableLock) (ret (Some i)))
     | None \<Rightarrow> kseq (release FtableLock) (ret None)))"

definition filedup :: "nat \<Rightarrow> ('a filemach_scheme, nat) K" where
  "filedup i =
     kseq (acquire FtableLock) (
     kbind (getfile i) (\<lambda>f.
     if f_ref f < 1 then panic ''filedup''
     else
       kseq (upd_file i (\<lambda>f. f\<lparr>f_ref := f_ref f + 1\<rparr>)) (
       kseq (release FtableLock) (ret i))))"

definition fileclose :: "nat \<Rightarrow> ('a filemach_scheme, unit) K" where
  "fileclose i =
     kseq (acquire FtableLock) (
     kbind (getfile i) (\<lambda>f.
     if f_ref f < 1 then panic ''fileclose''
     else
       kseq (upd_file i (\<lambda>f. f\<lparr>f_ref := f_ref f - 1\<rparr>)) (
       if f_ref f - 1 > 0 then release FtableLock
       else
         kbind (getfile i) (\<lambda>ff.
         kseq (upd_file i (\<lambda>f. f\<lparr>f_ref := 0, f_type := FD_NONE\<rparr>)) (
         kseq (release FtableLock) (
         if f_type ff = FD_PIPE then pipeclose (f_pipe ff) (f_writable ff)
         else if f_type ff = FD_INODE
         then kseq begin_op (kseq (iput (f_ip ff)) end_op)
         else ret ()))))))"

text \<open>The bytes of \<^verbatim>\<open>struct stat\<close> in user memory, field by field.\<close>

definition ustore_stat :: "stat \<Rightarrow> addr \<Rightarrow> ('a filemach_scheme, unit) K" where
  "ustore_stat st a =
     kseq (ustore (le_bytes (of_nat (stat_dev st))) (a + 4)) (
     kseq (ustore (le_bytes (of_nat (stat_ino st))) (a + 8)) (
     kseq (ustore (le16 (stat_type st)) a) (
     kseq (ustore (le16 (stat_nlink st)) (a + 12))
          (ustore (le_bytes (stat_size st)) (a + 16)))))"

definition filestat :: "nat \<Rightarrow> addr \<Rightarrow> ('a filemach_scheme, int) K" where
  "filestat i st =
     kbind (getfile i) (\<lambda>f.
     if f_type f = FD_INODE
     then
       kseq (ilock (f_ip f)) (
       kbind (stati (the (f_ip f))) (\<lambda>x.
       kseq (ustore_stat x st) (
       kseq (iunlock (f_ip f)) (ret 0))))
     else ret (- 1))"

definition fileread :: "nat \<Rightarrow> addr \<Rightarrow> int \<Rightarrow> ('a filemach_scheme, int) K" where
  "fileread i addr n =
     kbind (getfile i) (\<lambda>f.
     if \<not> f_readable f then ret (- 1)
     else if f_type f = FD_PIPE then piperead (f_pipe f) addr n
     else if f_type f = FD_INODE
     then
       kseq (ilock (f_ip f)) (
       kbind (getfile i) (\<lambda>f.
       kbind (readi (the (f_ip f)) (UserMem addr) (f_off f) (of_int n)) (\<lambda>(r, _).
       kseq (kwhen (r > 0) (upd_file i (\<lambda>f. f\<lparr>f_off := f_off f + of_int r\<rparr>))) (
       kseq (iunlock (f_ip f)) (ret r)))))
     else panic ''fileread'')"

text \<open>
  The loop of \<open>filewrite\<close>: each turn writes at most \<^verbatim>\<open>max\<close> bytes in a transaction of its own. A
  turn that goes on has written all of its \<open>n1\<close> bytes.
\<close>

definition filewrite_max :: nat where
  "filewrite_max = (MAXOPBLOCKS - 1 - 1 - 2) div 2 * 512"

function filewrite_loop :: "nat \<Rightarrow> addr \<Rightarrow> nat \<Rightarrow> nat \<Rightarrow> ('a filemach_scheme, nat) K" where
  "filewrite_loop fi addr n i =
     (if i < n
      then
        let n1 = min (n - i) filewrite_max in
        kseq begin_op (
        kbind (getfile fi) (\<lambda>f.
        kseq (ilock (f_ip f)) (
        kbind (getfile fi) (\<lambda>f.
        kbind (writei (the (f_ip f)) (UserMem (addr + of_nat i)) (f_off f) (of_nat n1)) (\<lambda>r.
        kseq (kwhen (r > 0) (upd_file fi (\<lambda>f. f\<lparr>f_off := f_off f + of_int r\<rparr>))) (
        kseq (iunlock (f_ip f)) (
        kseq end_op (
        if r < 0 then ret i
        else if r \<noteq> int n1 then panic ''short filewrite''
        else filewrite_loop fi addr n (i + n1)))))))))
      else ret i)"
  by auto
termination
  by (relation "measure (\<lambda>(_, _, n, i). n - i)") (auto simp: filewrite_max_def MAXOPBLOCKS_def)

declare filewrite_loop.simps [simp del]

definition filewrite :: "nat \<Rightarrow> addr \<Rightarrow> int \<Rightarrow> ('a filemach_scheme, int) K" where
  "filewrite fi addr n =
     kbind (getfile fi) (\<lambda>f.
     if \<not> f_writable f then ret (- 1)
     else if f_type f = FD_PIPE then pipewrite (f_pipe f) addr n
     else if f_type f = FD_INODE
     then
       kbind (filewrite_loop fi addr (nat n) 0) (\<lambda>i.
       ret (if int i = n then n else - 1))
     else panic ''filewrite'')"

text \<open>\<open>pipealloc\<close> of \<^verbatim>\<open>src/pipe.c\<close>, which needs the file table.\<close>

definition pipealloc_bad :: "nat option \<Rightarrow> nat option \<Rightarrow> ('a filemach_scheme, (nat \<times> nat) option) K" where
  "pipealloc_bad f0 f1 =
     kseq (case f0 of Some i \<Rightarrow> fileclose i | None \<Rightarrow> ret ()) (
     kseq (case f1 of Some i \<Rightarrow> fileclose i | None \<Rightarrow> ret ()) (ret None))"

definition pipealloc :: "('a filemach_scheme, (nat \<times> nat) option) K" where
  "pipealloc =
     kbind filealloc (\<lambda>r0. case r0 of None \<Rightarrow> pipealloc_bad None None | Some f0 \<Rightarrow>
     kbind filealloc (\<lambda>r1. case r1 of None \<Rightarrow> pipealloc_bad (Some f0) None | Some f1 \<Rightarrow>
     kbind kalloc (\<lambda>p.
     if p = 0 then pipealloc_bad (Some f0) (Some f1)
     else
       kseq (upd_pipe p (\<lambda>q. q\<lparr>pi_readopen := True, pi_writeopen := True, pi_nwrite := 0, pi_nread := 0\<rparr>)) (
       kseq (initlock (PipeLock p) ''pipe'') (
       kseq (upd_file f0 (\<lambda>f. f\<lparr>f_type := FD_PIPE, f_readable := True, f_writable := False, f_pipe := p\<rparr>)) (
       kseq (upd_file f1 (\<lambda>f. f\<lparr>f_type := FD_PIPE, f_readable := False, f_writable := True, f_pipe := p\<rparr>))
            (ret (Some (f0, f1)))))))))"

section \<open>Frame\<close>

lemma file_frame [simp]:
  "cpuno (s\<lparr>st_pipes := x\<rparr>) = cpuno s" "cur (s\<lparr>st_pipes := x\<rparr>) = cur s"
  "cpu_ok (s\<lparr>st_pipes := x\<rparr>) = cpu_ok s" "lock_free (s\<lparr>st_pipes := x\<rparr>) l = lock_free s l"
  "holds (s\<lparr>st_pipes := x\<rparr>) c l = holds s c l" "IF_on (s\<lparr>st_pipes := x\<rparr>) = IF_on s"
  "cpuno (s\<lparr>st_files := y\<rparr>) = cpuno s" "cur (s\<lparr>st_files := y\<rparr>) = cur s"
  "cpu_ok (s\<lparr>st_files := y\<rparr>) = cpu_ok s" "lock_free (s\<lparr>st_files := y\<rparr>) l = lock_free s l"
  "holds (s\<lparr>st_files := y\<rparr>) c l = holds s c l" "IF_on (s\<lparr>st_files := y\<rparr>) = IF_on s"
  by (simp_all add: cpuno_def cur_def cpu_ok_def lock_free_def holds_def IF_on_def)

lemma acquired_file [kframe]:
  "(acquired l s)\<lparr>st_pipes := x\<rparr> = acquired l (s\<lparr>st_pipes := x\<rparr>)"
  "(acquired l s)\<lparr>st_files := y\<rparr> = acquired l (s\<lparr>st_files := y\<rparr>)"
  by (simp_all add: acquired_def pushed_def IF_on_def)

lemma acquired_file_sel [simp]:
  "st_pipes (acquired l s) = st_pipes s"
  "st_files (acquired l s) = st_files s"
  by (simp_all add: acquired_def pushed_def)

section \<open>Pipes as bounded queues\<close>

text \<open>
  The contract of a bounded first-in first-out queue: what it holds, and what putting an element in
  and taking one out do to that.
\<close>

locale bounded_fifo =
  fixes put :: "'e \<Rightarrow> 'q \<Rightarrow> 'q" and head :: "'q \<Rightarrow> 'e" and take1 :: "'q \<Rightarrow> 'q"
    and full :: "'q \<Rightarrow> bool" and empty :: "'q \<Rightarrow> bool"
    and contents :: "'q \<Rightarrow> 'e list" and ok :: "'q \<Rightarrow> bool" and cap :: nat
  assumes within: "ok q \<Longrightarrow> length (contents q) \<le> cap"
    and full_iff: "ok q \<Longrightarrow> full q \<longleftrightarrow> length (contents q) = cap"
    and empty_iff: "ok q \<Longrightarrow> empty q \<longleftrightarrow> contents q = []"
    and put_contents: "ok q \<Longrightarrow> \<not> full q \<Longrightarrow> contents (put e q) = contents q @ [e]"
    and put_ok: "ok q \<Longrightarrow> \<not> full q \<Longrightarrow> ok (put e q)"
    and take_contents: "ok q \<Longrightarrow> \<not> empty q \<Longrightarrow> contents q = head q # contents (take1 q)"
    and take_ok: "ok q \<Longrightarrow> \<not> empty q \<Longrightarrow> ok (take1 q)"
begin

lemma put_all_both:
  assumes "ok q" "length (contents q) + length es \<le> cap"
  shows "ok (fold put es q) \<and> contents (fold put es q) = contents q @ es"
  using assms
proof (induction es arbitrary: q)
  case (Cons e es)
  have nf: "\<not> full q" using Cons.prems full_iff by simp
  have "ok (put e q)" "contents (put e q) = contents q @ [e]"
    using put_ok [OF Cons.prems(1) nf] put_contents [OF Cons.prems(1) nf] by auto
  then show ?case using Cons.IH [of "put e q"] Cons.prems(2) by auto
qed auto

lemmas put_all = put_all_both [THEN conjunct1] put_all_both [THEN conjunct2]

lemma take_all:
  assumes "ok q" "n \<le> length (contents q)"
  shows "ok ((take1 ^^ n) q)" "contents ((take1 ^^ n) q) = drop n (contents q)"
proof -
  have "ok ((take1 ^^ n) q) \<and> contents ((take1 ^^ n) q) = drop n (contents q)"
    using assms(2)
  proof (induction n)
    case (Suc n)
    then have "\<not> empty ((take1 ^^ n) q)" using empty_iff by auto
    then show ?case
      using Suc take_ok take_contents [of "(take1 ^^ n) q"]
      by (metis Suc_leD drop_Suc funpow.simps(2) list.sel(3) o_apply tl_drop)
  qed (simp add: assms)
  then show "ok ((take1 ^^ n) q)" "contents ((take1 ^^ n) q) = drop n (contents q)" by auto
qed

lemma head_nth:
  assumes "ok q" "n < length (contents q)"
  shows "head ((take1 ^^ n) q) = contents q ! n" "\<not> empty ((take1 ^^ n) q)"
proof -
  have c: "ok ((take1 ^^ n) q)" "contents ((take1 ^^ n) q) = drop n (contents q)"
    using take_all [OF assms(1), of n] assms(2) by auto
  show e: "\<not> empty ((take1 ^^ n) q)" using c assms(2) empty_iff by auto
  show "head ((take1 ^^ n) q) = contents q ! n"
    using take_contents [OF c(1) e] c(2) assms(2) by (metis Cons_nth_drop_Suc list.inject)
qed

end

definition pipe_count :: "pipe \<Rightarrow> nat" where
  "pipe_count q = unat (pi_nwrite q - pi_nread q)"

definition pipe_bytes :: "pipe \<Rightarrow> uchar list" where
  "pipe_bytes q = map (\<lambda>i. pi_data q (unat (pi_nread q + of_nat i) mod PIPESIZE)) [0..<pipe_count q]"

definition pipe_ok :: "pipe \<Rightarrow> bool" where
  "pipe_ok q \<longleftrightarrow> pipe_count q \<le> PIPESIZE"

text \<open>
  The size of the ring divides the range of the counters, so positions stay apart when a counter
  wraps around.
\<close>

lemma ring_index: "unat ((x :: uint) + of_nat i) mod PIPESIZE = (unat x + i) mod PIPESIZE"
proof -
  have "(unat x + i) mod 2 ^ 32 mod 512 = (unat x + i) mod 512" by (rule mod_mod_cancel) simp
  then show ?thesis
    by (simp add: unat_word_ariths unat_of_nat PIPESIZE_def mod_add_right_eq)
qed

lemma ring_index_neq: "i < j \<Longrightarrow> j < i + PIPESIZE \<Longrightarrow> (x + i) mod PIPESIZE \<noteq> (x + j) mod PIPESIZE"
proof
  assume "i < j" "j < i + PIPESIZE" "(x + i) mod PIPESIZE = (x + j) mod PIPESIZE"
  then have "PIPESIZE dvd j - i" using mod_eq_dvd_iff_nat [of "x + i" "x + j" PIPESIZE] by simp
  then show False using \<open>i < j\<close> \<open>j < i + PIPESIZE\<close> by (auto dest: dvd_imp_le)
qed

lemma pipe_count_put:
  assumes "pipe_count q < PIPESIZE"
  shows "pipe_count (pipe_put b q) = Suc (pipe_count q)"
proof -
  have "unat (pi_nwrite q - pi_nread q) + 1 < 2 ^ 32"
    using assms by (simp add: pipe_count_def PIPESIZE_def)
  then have "unat ((pi_nwrite q - pi_nread q) + of_nat 1) = unat (pi_nwrite q - pi_nread q) + 1"
    by (rule unat_add_small)
  moreover have "pipe_count (pipe_put b q) = unat ((pi_nwrite q - pi_nread q) + of_nat 1)"
    by (simp add: pipe_count_def pipe_put_def algebra_simps)
  ultimately show ?thesis by (simp add: pipe_count_def)
qed

lemma pipe_count_take:
  assumes "pipe_count q \<noteq> 0"
  shows "pipe_count q = Suc (pipe_count (pipe_take q))"
proof -
  have "pi_nwrite q - pi_nread q \<noteq> 0" using assms by (auto simp: pipe_count_def)
  then have "unat ((pi_nwrite q - pi_nread q) - 1) = unat (pi_nwrite q - pi_nread q) - 1"
    by (rule unat_pred)
  moreover have "pipe_count (pipe_take q) = unat ((pi_nwrite q - pi_nread q) - 1)"
    by (simp add: pipe_count_def pipe_take_def algebra_simps)
  ultimately show ?thesis using assms by (simp add: pipe_count_def)
qed

lemma pipe_put_bytes:
  assumes "pipe_count q < PIPESIZE"
  shows "pipe_bytes (pipe_put b q) = pipe_bytes q @ [b]"
proof -
  let ?x = "unat (pi_nread q)"
  have w: "unat (pi_nwrite q) mod PIPESIZE = (?x + pipe_count q) mod PIPESIZE"
    using ring_index [of "pi_nread q" "pipe_count q"] by (simp add: pipe_count_def)
  have "(?x + i) mod PIPESIZE \<noteq> (?x + pipe_count q) mod PIPESIZE" if "i < pipe_count q" for i
    using that assms by (intro ring_index_neq) auto
  then have "pipe_bytes (pipe_put b q) = map (\<lambda>i. pi_data q ((?x + i) mod PIPESIZE)) [0..<pipe_count q] @ [b]"
    unfolding pipe_bytes_def pipe_count_put [OF assms] ring_index by (simp add: pipe_put_def w)
  then show ?thesis unfolding pipe_bytes_def ring_index .
qed

lemma pipe_take_bytes:
  assumes "pipe_count q \<noteq> 0"
  shows "pipe_bytes q = pipe_head q # pipe_bytes (pipe_take q)"
proof -
  have "pipe_bytes q = map (\<lambda>i. pi_data q (unat (pi_nread q + of_nat i) mod PIPESIZE))
      (0 # map Suc [0..<pipe_count (pipe_take q)])"
    unfolding pipe_bytes_def pipe_count_take [OF assms] by (simp only: upt_conv_Cons map_Suc_upt zero_less_Suc)
  then show ?thesis by (simp add: pipe_bytes_def pipe_head_def pipe_take_def ac_simps)
qed

lemma pipe_full_count: "pipe_full q \<longleftrightarrow> pipe_count q = PIPESIZE"
proof
  assume "pipe_full q"
  then show "pipe_count q = PIPESIZE" by (simp add: pipe_full_def pipe_count_def PIPESIZE_def)
next
  assume "pipe_count q = PIPESIZE"
  then have "pi_nwrite q - pi_nread q = of_nat PIPESIZE"
    unfolding pipe_count_def by (simp flip: word_unat_eq_iff add: word_unat_eq_iff PIPESIZE_def)
  then show "pipe_full q" by (simp add: pipe_full_def diff_eq_eq add.commute)
qed

lemma pipe_empty_count: "pipe_empty q \<longleftrightarrow> pipe_count q = 0"
  by (auto simp: pipe_empty_def pipe_count_def unat_eq_0)

lemma pipe_bytes_length [simp]: "length (pipe_bytes q) = pipe_count q"
  by (simp add: pipe_bytes_def)

interpretation pipe_fifo: bounded_fifo pipe_put pipe_head pipe_take pipe_full pipe_empty
  pipe_bytes pipe_ok PIPESIZE
proof (unfold_locales, goal_cases)
  case (1 q) then show ?case by (simp add: pipe_ok_def)
next
  case (2 q) then show ?case by (simp add: pipe_full_count)
next
  case (3 q) then show ?case by (simp add: pipe_empty_count flip: length_0_conv)
next
  case (4 q e) then show ?case by (intro pipe_put_bytes) (simp add: pipe_ok_def pipe_full_count)
next
  case (5 q e) then show ?case by (simp add: pipe_ok_def pipe_full_count pipe_count_put)
next
  case (6 q) then show ?case by (intro pipe_take_bytes) (simp add: pipe_empty_count)
next
  case (7 q) then show ?case using pipe_count_take [of q] by (simp add: pipe_ok_def pipe_empty_count)
qed

lemma file_frame2 [simp]:
  "curdir (s\<lparr>st_pipes := x\<rparr>) = curdir s" "curdir (s\<lparr>st_files := y\<rparr>) = curdir s"
  "my_pid (s\<lparr>st_pipes := x\<rparr>) = my_pid s"
  by (simp_all add: curdir_def my_pid_def procp_def split: option.splits)

section \<open>Writing to and reading from a pipe\<close>

definition with_pipe :: "addr \<Rightarrow> pipe \<Rightarrow> 'a filemach_scheme \<Rightarrow> 'a filemach_scheme" where
  "with_pipe p q s = s\<lparr>st_pipes := (st_pipes s)(p := q)\<rparr>"

lemma with_pipe_simps [simp]:
  "cpu_ok (with_pipe p q s) = cpu_ok s" "lock_free (with_pipe p q s) l = lock_free s l"
  "m_mem (with_pipe p q s) = m_mem s" "curdir (with_pipe p q s) = curdir s"
  "st_pipes (with_pipe p q s) p = q" "with_pipe p q' (with_pipe p q s) = with_pipe p q' s"
  "st_procs (with_pipe p q s) = st_procs s" "cur (with_pipe p q s) = cur s"
  "m_cpus (with_pipe p q s) = m_cpus s" "with_pipe p (st_pipes s p) s = s"
  by (simp_all add: with_pipe_def)

lemma acquired_with_pipe [kframe]: "with_pipe p q (acquired l s) = acquired l (with_pipe p q s)"
  by (simp add: with_pipe_def kframe)

lemma woken_with_pipe: "woken ch (with_pipe p q s) = with_pipe p q (woken ch s)"
  by (simp add: woken_def with_pipe_def cong: if_cong)

lemma upd_pipe_run [krun]: "upd_pipe p f s = Ret () (with_pipe p (f (st_pipes s p)) s)"
  by (simp add: upd_pipe_def with_pipe_def)

text \<open>
  The loop of \<open>pipewrite\<close> as long as the pipe has room: from the state in which it has stored the
  bytes before index \<open>n - k\<close> to the state in which it has stored those before \<open>n - k'\<close>.
\<close>

lemma pipewrite_fill:
  assumes q: "pipe_ok q" and u: "uload n addr s = Ret bs s"
    and fit: "pipe_count q + (n - k') \<le> PIPESIZE" and k: "k' \<le> k" "k \<le> n"
  shows "pipewrite_loop p addr n k (with_pipe p (fold pipe_put (take (n - k) bs) q) s)
    = pipewrite_loop p addr n k' (with_pipe p (fold pipe_put (take (n - k') bs) q) s)"
  using k
proof (induction k)
  case (Suc k)
  show ?case
  proof (cases "k' = Suc k")
    case False
    let ?q = "fold pipe_put (take (n - Suc k) bs) q" and ?i = "n - Suc k"
    have "?i < n" using Suc.prems by simp
    then have b: "length bs = n" "uload8 (addr + of_nat ?i) s = Ret (bs ! ?i) s"
      using uload_bytes [OF u] by blast+
    have i: "n - k = Suc ?i" using Suc.prems by simp
    have c: "pipe_ok ?q" "pipe_bytes ?q = pipe_bytes q @ take ?i bs"
      using pipe_fifo.put_all [OF q, of "take ?i bs"] fit False Suc.prems b(1) by auto
    have "pipe_count ?q = pipe_count q + ?i"
      using arg_cong [OF c(2), of length] b(1) by simp
    then have nf: "\<not> pipe_full ?q" using fit False Suc.prems by (simp add: pipe_full_count)
    have "uload8 (addr + of_nat ?i) (with_pipe p ?q s) = Ret (bs ! ?i) (with_pipe p ?q s)"
      by (rule uload8_frame [OF _ _ b(2)]) simp_all
    then have "pipewrite_loop p addr n (Suc k) (with_pipe p ?q s)
        = pipewrite_loop p addr n k (with_pipe p (pipe_put (bs ! ?i) ?q) s)"
      using nf by (simp add: kbind_run kseq_run getpipe_def upd_pipe_run)
    moreover have "pipe_put (bs ! ?i) ?q = fold pipe_put (take (n - k) bs) q"
      using b(1) Suc.prems unfolding i by (simp add: take_Suc_conv_app_nth)
    ultimately show ?thesis using Suc.IH False Suc.prems by simp
  qed simp
qed simp

lemma pipewrite_run:
  assumes "cpu_ok s" "lock_free s (PipeLock p)" "lock_free s PtableLock" "pipe_ok (st_pipes s p)"
    and "uload n addr s = Ret bs s" "pipe_count (st_pipes s p) + n \<le> PIPESIZE"
  shows "pipewrite p addr (int n) s =
     Ret (int n) (woken (ChanPipeRead p) (with_pipe p (fold pipe_put bs (st_pipes s p)) s))"
proof -
  let ?s = "acquired (PipeLock p) s" and ?q = "st_pipes s p"
  have l: "length bs = n" using uload_bytes [OF assms(5)] by simp
  have "uload n addr ?s = Ret bs ?s" by (rule uload_frame [OF assms(5)]) simp_all
  from pipewrite_fill [OF assms(4) this, of 0 n p] assms(6)
  have "pipewrite_loop p addr n n ?s = pipewrite_loop p addr n 0 (with_pipe p (fold pipe_put bs ?q) ?s)"
    using l with_pipe_simps(10) [of p ?s] by simp
  also have "\<dots> = Ret (int n) (woken (ChanPipeRead p) (with_pipe p (fold pipe_put bs ?q) s))"
    using assms(1-3) by (simp add: kseq_run kframe wakeup_woken release_acquired)
  finally have r: "pipewrite_loop p addr n n ?s
      = Ret (int n) (woken (ChanPipeRead p) (with_pipe p (fold pipe_put bs ?q) s))" .
  show ?thesis
  proof (cases "n = 0")
    case False
    then show ?thesis using r assms(1,2) by (simp add: pipewrite_def kseq_run acquire_ok)
  qed (use r assms(1,2) in \<open>simp add: pipewrite_def kseq_run acquire_ok\<close>)
qed

lemma killed_run: "running i s \<Longrightarrow> killed (acquired l s) = Ret (p_killed (st_procs s i)) (acquired l s)"
  by (simp add: running_def killed_def kbind_run myproc_run procp_def)

text \<open>A write that does not fit first fills the pipe.\<close>

lemma pipewrite_until_full:
  assumes "pipe_ok (st_pipes s p)" "uload n addr s = Ret bs s" "PIPESIZE < pipe_count (st_pipes s p) + n"
  defines "q \<equiv> fold pipe_put (take (PIPESIZE - pipe_count (st_pipes s p)) bs) (st_pipes s p)"
    and "k \<equiv> pipe_count (st_pipes s p) + n - PIPESIZE"
  shows "pipe_full q" "0 < k" "pipe_ok q"
    "pipe_bytes q = pipe_bytes (st_pipes s p) @ take (PIPESIZE - pipe_count (st_pipes s p)) bs"
    "pipewrite_loop p addr n n (acquired (PipeLock p) s)
       = pipewrite_loop p addr n k (with_pipe p q (acquired (PipeLock p) s))"
proof -
  let ?s = "acquired (PipeLock p) s" and ?q = "st_pipes s p"
  have l: "length bs = n" using uload_bytes [OF assms(2)] by simp
  have c: "pipe_count ?q \<le> PIPESIZE" using assms(1) by (simp add: pipe_ok_def)
  have k: "n - k = PIPESIZE - pipe_count ?q" "k \<le> n" and k0: "0 < k" using assms(3) c by (auto simp: k_def)
  have "uload n addr ?s = Ret bs ?s" by (rule uload_frame [OF assms(2)]) simp_all
  from pipewrite_fill [OF assms(1) this, of k n p] k c
  show "pipewrite_loop p addr n n ?s = pipewrite_loop p addr n k (with_pipe p q ?s)"
    using with_pipe_simps(10) [of p ?s] unfolding q_def by simp
  show q: "pipe_ok q" "pipe_bytes q = pipe_bytes ?q @ take (PIPESIZE - pipe_count ?q) bs"
    unfolding q_def using pipe_fifo.put_all [OF assms(1), of "take (PIPESIZE - pipe_count ?q) bs"] c by auto
  have "pipe_count q = PIPESIZE" using arg_cong [OF q(2), of length] l k c by simp
  then show "pipe_full q" by (simp add: pipe_full_count)
  show "0 < k" by (rule k0)
qed

lemma readopen_puts [simp]: "pi_readopen (fold pipe_put xs q) = pi_readopen q"
  by (induction xs arbitrary: q) (simp_all add: pipe_put_def)

text \<open>Then it gives up if nobody will read, or wakes the readers and waits.\<close>

lemma pipewrite_gives_up:
  assumes "running i s" "lock_free s (PipeLock p)" "pipe_ok (st_pipes s p)"
    and "uload n addr s = Ret bs s" "PIPESIZE < pipe_count (st_pipes s p) + n"
    and "\<not> pi_readopen (st_pipes s p) \<or> p_killed (st_procs s i)"
  defines "q \<equiv> fold pipe_put (take (PIPESIZE - pipe_count (st_pipes s p)) bs) (st_pipes s p)"
  shows "pipewrite p addr (int n) s = Ret (- 1) (with_pipe p q s)"
proof -
  let ?s = "acquired (PipeLock p) s" and ?k = "pipe_count (st_pipes s p) + n - PIPESIZE"
  have ok: "cpu_ok s" using assms(1) by (simp add: running_def)
  note f = pipewrite_until_full [OF assms(3-5), folded q_def]
  have run: "running i (with_pipe p q s)" using assms(1) by (simp add: running_def)
  obtain j where j: "?k = Suc j" using f(2) by (cases ?k) auto
  have "pipewrite_loop p addr n ?k (with_pipe p q ?s) = Ret (- 1) (with_pipe p q s)"
    unfolding j kframe using f(1) assms(2,6) ok killed_run [OF run, of "PipeLock p"]
    by (simp add: kbind_run kseq_run getpipe_def q_def release_acquired)
  moreover have "n \<noteq> 0" using f(2) assms(3) by (auto simp: pipe_ok_def)
  ultimately show ?thesis using f(5) assms(2) ok by (simp add: pipewrite_def kseq_run acquire_ok)
qed

lemma pipewrite_blocks:
  assumes "running i s" "lock_free s (PipeLock p)" "lock_free s PtableLock" "pipe_ok (st_pipes s p)"
    and "uload n addr s = Ret bs s" "PIPESIZE < pipe_count (st_pipes s p) + n"
    and "pi_readopen (st_pipes s p)" "\<not> p_killed (st_procs s i)"
  defines "q \<equiv> fold pipe_put (take (PIPESIZE - pipe_count (st_pipes s p)) bs) (st_pipes s p)"
  shows "pipewrite p addr (int n) s = Stop (Sleeping (ChanPipeWrite p)) (acquired PtableLock
     (set_proc i (asleep (ChanPipeWrite p)) (woken (ChanPipeRead p) (with_pipe p q s))))"
proof -
  let ?s = "acquired (PipeLock p) s" and ?k = "pipe_count (st_pipes s p) + n - PIPESIZE"
  have ok: "cpu_ok s" using assms(1) by (simp add: running_def)
  note f = pipewrite_until_full [OF assms(4-6), folded q_def]
  have run: "running i (woken (ChanPipeRead p) (with_pipe p q s))" "running i (with_pipe p q s)"
    using assms(1) by (simp_all add: running_def)
  obtain j where j: "?k = Suc j" using f(2) by (cases ?k) auto
  have "pipewrite_loop p addr n ?k (with_pipe p q ?s) = Stop (Sleeping (ChanPipeWrite p)) (acquired PtableLock
     (set_proc i (asleep (ChanPipeWrite p)) (woken (ChanPipeRead p) (with_pipe p q s))))"
    unfolding j kframe using f(1) assms(2,3,7,8) ok killed_run [OF run(2), of "PipeLock p"]
      sleep_run [OF run(1), of "PipeLock p" "ChanPipeWrite p"]
    by (simp add: kbind_run kseq_run getpipe_def q_def wakeup_woken kframe)
  moreover have "n \<noteq> 0" using f(2) assms(4) by (auto simp: pipe_ok_def)
  ultimately show ?thesis using f(5) assms(2) ok by (simp add: pipewrite_def kseq_run acquire_ok)
qed

lemma piperead_copy_run:
  assumes "pipe_ok q" "ustore (take k (pipe_bytes q)) (addr + of_nat i) s = Ret () u"
  shows "piperead_copy p addr i k (with_pipe p q s) = Ret (i + min k (pipe_count q))
     (with_pipe p ((pipe_take ^^ min k (pipe_count q)) q) (s\<lparr>m_mem := m_mem u\<rparr>))"
  using assms
proof (induction k arbitrary: i q s)
  case 0
  then show ?case by simp
next
  case (Suc k)
  show ?case
  proof (cases "pipe_empty q")
    case True
    then have c: "pipe_count q = 0" by (simp add: pipe_empty_count)
    then have "pipe_bytes q = []" by (simp flip: length_0_conv)
    then show ?thesis using True c Suc.prems(2) by (simp add: kbind_run getpipe_def)
  next
    case False
    have b: "pipe_bytes q = pipe_head q # pipe_bytes (pipe_take q)" "pipe_ok (pipe_take q)"
      using pipe_fifo.take_contents [OF Suc.prems(1) False] pipe_fifo.take_ok [OF Suc.prems(1) False] by auto
    then have c: "pipe_count q = Suc (pipe_count (pipe_take q))"
      using pipe_count_take [of q] False by (simp add: pipe_empty_count)
    obtain v where v: "ustore8 (addr + of_nat i) (pipe_head q) s = Ret () v"
      "ustore (take k (pipe_bytes (pipe_take q))) (addr + of_nat (Suc i)) v = Ret () u"
      using Suc.prems(2) unfolding b(1) by (auto simp: kseq_eq_Ret ac_simps)
    then obtain m where m: "v = s\<lparr>m_mem := m\<rparr>" by (auto simp: ustore8_run split: option.splits)
    have "ustore8 (addr + of_nat i) (pipe_head q) (with_pipe p (pipe_take q) s)
        = Ret () ((with_pipe p (pipe_take q) s)\<lparr>m_mem := m_mem v\<rparr>)"
      by (rule ustore8_frame [OF _ _ v(1)]) simp_all
    moreover have "(with_pipe p (pipe_take q) s)\<lparr>m_mem := m_mem v\<rparr> = with_pipe p (pipe_take q) v"
      by (simp add: m with_pipe_def)
    ultimately have "piperead_copy p addr i (Suc k) (with_pipe p q s)
        = piperead_copy p addr (Suc i) k (with_pipe p (pipe_take q) v)"
      using False by (simp add: kbind_run kseq_run getpipe_def upd_pipe_run)
    then show ?thesis
      using Suc.IH [OF b(2) v(2)] c m by (simp add: funpow_swap1)
  qed
qed

lemma piperead_run:
  assumes "cpu_ok s" "lock_free s (PipeLock p)" "lock_free s PtableLock" "pipe_ok (st_pipes s p)"
    and "\<not> pipe_empty (st_pipes s p) \<or> \<not> pi_writeopen (st_pipes s p)"
    and "ustore (take n (pipe_bytes (st_pipes s p))) addr s = Ret () u"
  defines "c \<equiv> min n (pipe_count (st_pipes s p))"
  shows "piperead p addr (int n) s = Ret (int c)
     (woken (ChanPipeWrite p) (with_pipe p ((pipe_take ^^ c) (st_pipes s p)) u))"
proof -
  let ?q = "st_pipes s p" and ?s = "acquired (PipeLock p) s"
  obtain m where m: "u = s\<lparr>m_mem := m\<rparr>" using ustore_mem [OF assms(6)] by blast
  have "ustore (take n (pipe_bytes ?q)) addr ?s = Ret () (?s\<lparr>m_mem := m\<rparr>)"
    using ustore_frame [OF _ _ assms(6), of ?s] m by simp
  then have "piperead_copy p addr 0 n (with_pipe p ?q ?s)
      = Ret c (with_pipe p ((pipe_take ^^ c) ?q) (acquired (PipeLock p) u))"
    using piperead_copy_run [OF assms(4), of n addr 0 ?s "?s\<lparr>m_mem := m\<rparr>" p] m unfolding c_def by (simp add: kframe)
  then have "piperead_copy p addr 0 n ?s
      = Ret c (with_pipe p ((pipe_take ^^ c) ?q) (acquired (PipeLock p) u))"
    using with_pipe_simps(10) [of p ?s] by simp
  then show ?thesis
    using assms(1-3,5) m
    by (auto simp: piperead_def piperead_loop_def kseq_run kbind_run getpipe_def acquire_ok kframe
        wakeup_woken release_acquired)
qed

lemma piperead_waits:
  assumes "running i s" "lock_free s (PipeLock p)" "lock_free s PtableLock"
    "pipe_empty (st_pipes s p)" "pi_writeopen (st_pipes s p)"
  shows "piperead p addr n s = (if p_killed (st_procs s i) then Ret (- 1) s
     else Stop (Sleeping (ChanPipeRead p)) (acquired PtableLock (set_proc i (asleep (ChanPipeRead p)) s)))"
proof -
  have ok: "cpu_ok s" using assms(1) by (simp add: running_def)
  show ?thesis
    using assms ok killed_run [OF assms(1), of "PipeLock p"] sleep_run [OF assms(1,3,2), of "ChanPipeRead p"]
    by (simp add: piperead_def piperead_loop_def kseq_run kbind_run getpipe_def acquire_ok release_acquired)
qed

section \<open>Properties\<close>

text \<open>
  An example: process 0 runs, every user address is mapped, every byte of its memory is 7, and the
  pipe at \<open>0x80300000\<close> has its counters just before they wrap around.
\<close>

definition ex_pipe :: "nat \<Rightarrow> pipe" where
  "ex_pipe k = \<lparr>pi_data = (\<lambda>_. 3), pi_nread = - 2, pi_nwrite = of_nat k - 2, pi_readopen = True, pi_writeopen = True\<rparr>"

definition ex_filemach :: "nat \<Rightarrow> filemach" where
  "ex_filemach k = dmach.extend (ex_dmach\<lparr>m_mem := (\<lambda>_. 7)\<rparr>) (filemach.fields (\<lambda>_. ex_pipe k)
     (\<lambda>i. \<lparr>f_type = (if i = 0 then FD_PIPE else FD_NONE), f_ref = (if i = 0 then 2 else 0), f_readable = False,
        f_writable = True, f_pipe = 0x80300000, f_ip = None, f_off = 0\<rparr>))"

lemma ex_filemach_mach: "mach.truncate (ex_filemach k) = ex_mach\<lparr>m_mem := (\<lambda>_. 7)\<rparr>"
  unfolding ex_dmach_mach [symmetric] by (simp add: ex_filemach_def mach.defs dmach.defs)

lemma ex_filemach_simps [simp]:
  "st_procs (ex_filemach k) = st_procs ex_pmach" "m_cpus (ex_filemach k) = m_cpus ex_pmach"
  "st_pipes (ex_filemach k) p = ex_pipe k" "m_mem (ex_filemach k) = (\<lambda>_. 7)"
  "st_files (ex_filemach k) i = \<lparr>f_type = (if i = 0 then FD_PIPE else FD_NONE), f_ref = (if i = 0 then 2 else 0),
     f_readable = False, f_writable = True, f_pipe = 0x80300000, f_ip = None, f_off = 0\<rparr>"
  using ex_dmach_simps(1,2) by (simp_all add: ex_filemach_def dmach.defs filemach.defs)

lemma ex_filemach_ok: "running 0 (ex_filemach k)" "cpu_ok (ex_filemach k)" "lock_free (ex_filemach k) l"
proof -
  have "cur (ex_filemach k) = 0" "cpu_ok (ex_filemach k)" "lock_free (ex_filemach k) l" for l
    using ex_mach_ok by (simp_all flip: mach_truncate [of "ex_filemach k"] add: ex_filemach_mach)
  then show "running 0 (ex_filemach k)" "cpu_ok (ex_filemach k)" "lock_free (ex_filemach k) l"
    by (simp_all add: running_def two_cpus_def)
qed

lemma ex_curdir: "curdir (ex_filemach k) = 0x80000000"
  by (simp add: curdir_def ex_filemach_def ex_dmach_def ex_fmach_def ex_wmach_def ex_bmach_def ex_smach_def ex_pmach_def
      boot_vmach_def boot_kmach_def two_cpus_def mach.defs kmach.defs vmach.defs pmach.defs smach.defs bmach.defs
      wmach.defs fmach.defs dmach.defs filemach.defs P2V_def KERNBASE_def)

lemma ex_translate: "\<exists>a. translate (\<lambda>_. 7) d PTE_P va = Some a"
  by (simp add: translate_def Let_def load32_def PTE_P_def)

lemma ex_uload: "uload n va (ex_filemach k) = Ret (replicate n 7) (ex_filemach k)"
proof (induction n arbitrary: va)
  case (Suc n)
  have "uload8 va (ex_filemach k) = Ret 7 (ex_filemach k)"
    using ex_translate [of "curdir (ex_filemach k)" va] by (auto simp: uload8_run)
  then show ?case using Suc by (simp add: kbind_run)
qed simp

lemma ex_pipe_count: "k \<le> PIPESIZE \<Longrightarrow> pipe_count (ex_pipe k) = k" "k \<le> PIPESIZE \<Longrightarrow> pipe_ok (ex_pipe k)"
  by (simp_all add: pipe_ok_def pipe_count_def ex_pipe_def PIPESIZE_def unat_of_nat)

text \<open>
  C7. Writing to a pipe: the bytes in the pipe are a queue of at most \<^verbatim>\<open>PIPESIZE\<close> bytes, also when the
  32-bit counters wrap around. A write that fits appends its bytes and returns their number. A write
  that does not fit appends what fits, then returns -1 if the read end is closed or the writer is
  killed, and else sleeps, having woken the readers, with the writer's entry marked asleep.
\<close>

theorem pipewrite_queue:
  fixes s :: "'a filemach_scheme"
  assumes "running i s" "lock_free s (PipeLock p)" "lock_free s PtableLock" "pipe_ok (st_pipes s p)"
    "uload n addr s = Ret bs s"
  shows "let q = st_pipes s p; room = PIPESIZE - pipe_count q in
    \<exists>r :: 'a filemach_scheme. pipe_ok (st_pipes r p)
      \<and> pipe_bytes (st_pipes r p) = pipe_bytes q @ take room bs
      \<and> (if n \<le> room then pipewrite p addr (int n) s = Ret (int n) r
         else if \<not> pi_readopen q \<or> p_killed (st_procs s i) then pipewrite p addr (int n) s = Ret (- 1) r
         else pipewrite p addr (int n) s = Stop (Sleeping (ChanPipeWrite p)) r
           \<and> st_procs r i = asleep (ChanPipeWrite p) (st_procs (woken (ChanPipeRead p) s) i)
           \<and> (\<forall>j<NPROC. j \<noteq> i \<longrightarrow> st_procs r j = st_procs (woken (ChanPipeRead p) s) j))"
proof -
  let ?q = "st_pipes s p" and ?room = "PIPESIZE - pipe_count (st_pipes s p)"
  have ok: "cpu_ok s" using assms(1) by (simp add: running_def)
  have l: "length bs = n" using uload_bytes [OF assms(5)] by simp
  have c: "pipe_count ?q \<le> PIPESIZE" using assms(4) by (simp add: pipe_ok_def)
  show ?thesis
  proof (cases "n \<le> ?room")
    case True
    then have "pipe_count ?q + n \<le> PIPESIZE" using c by simp
    then show ?thesis
      using pipewrite_run [OF ok assms(2-5)] pipe_fifo.put_all [OF assms(4), of bs] l True
      unfolding Let_def woken_with_pipe
      by (intro exI [of _ "with_pipe p (fold pipe_put bs ?q) (woken (ChanPipeRead p) s)"]) simp
  next
    case False
    then have n: "PIPESIZE < pipe_count ?q + n" using c by simp
    note q = pipewrite_until_full(3,4) [OF assms(4,5) n]
    show ?thesis
    proof (cases "\<not> pi_readopen ?q \<or> p_killed (st_procs s i)")
      case True
      then show ?thesis
        using False pipewrite_gives_up [OF assms(1,2,4,5) n True] q unfolding Let_def
        by (intro exI [of _ "with_pipe p (fold pipe_put (take ?room bs) ?q) s"]) simp
    next
      case open': False
      let ?q' = "fold pipe_put (take ?room bs) ?q"
      have st: "st_pipes (set_proc i f (woken ch (with_pipe p ?q' s))) p = ?q'"
        "st_procs (set_proc i f (woken ch (with_pipe p ?q' s))) j
           = (if j = i then f (st_procs (woken ch s) i) else st_procs (woken ch s) j)" for f ch j
        by (simp_all add: set_proc_def woken_with_pipe)
      let ?r = "acquired PtableLock (set_proc i (asleep (ChanPipeWrite p)) (woken (ChanPipeRead p) (with_pipe p ?q' s)))"
      have "st_pipes ?r p = ?q'" "st_procs ?r j = (if j = i then asleep (ChanPipeWrite p) (st_procs (woken (ChanPipeRead p) s) i)
          else st_procs (woken (ChanPipeRead p) s) j)" for j
        by (simp_all add: st)
      then show ?thesis
        using False pipewrite_blocks [OF assms(1-5) n] open' q unfolding Let_def by (intro exI [of _ ?r]) (simp add: woken_with_pipe)
    qed
  qed
qed

theorem pipewrite_queue_witness:
  "(\<exists>r. pipewrite 0x80300000 0x1800 3 (ex_filemach 1) = Ret 3 r \<and> pipe_bytes (st_pipes r 0x80300000) = [3, 7, 7, 7])
   \<and> (\<exists>r. pipewrite 0x80300000 0x1800 3 (ex_filemach 510) = Stop (Sleeping (ChanPipeWrite 0x80300000)) r)"
proof -
  have b: "pipe_bytes (ex_pipe 1) = [3]"
    by (simp add: pipe_bytes_def ex_pipe_count PIPESIZE_def) (simp add: ex_pipe_def)
  show ?thesis
    using pipewrite_queue [OF ex_filemach_ok(1,3,3), of 1 "0x80300000" 3 "0x1800" "replicate 3 7"]
      pipewrite_queue [OF ex_filemach_ok(1,3,3), of 510 "0x80300000" 3 "0x1800" "replicate 3 7"] ex_uload b
    by (simp add: ex_pipe_count PIPESIZE_def Let_def) (auto simp: ex_pipe_def ex_proc_def numeral_3_eq_3)
qed

text \<open>
  C20. Reading from a pipe. From a pipe that holds bytes, or whose write end is closed, a read of at
  most \<open>n\<close> bytes stores the oldest bytes of the queue at the user's address, in order, takes exactly
  these out of the pipe, and returns their number, 0 at the end of the stream. From an empty pipe
  with an open write end a killed reader gets -1 and another reader sleeps, the pipe unchanged.
\<close>

theorem piperead_delivers:
  fixes s :: "'a filemach_scheme"
  assumes "running i s" "lock_free s (PipeLock p)" "lock_free s PtableLock" "pipe_ok (st_pipes s p)"
    "ustore (take n (pipe_bytes (st_pipes s p))) addr s = Ret () u"
  shows "let q = st_pipes s p; k = min n (pipe_count q) in
    \<exists>r :: 'a filemach_scheme. pipe_ok (st_pipes r p)
      \<and> (if pipe_empty q \<and> pi_writeopen q
         then st_pipes r p = q \<and> piperead p addr (int n) s
           = (if p_killed (st_procs s i) then Ret (- 1) r else Stop (Sleeping (ChanPipeRead p)) r)
         else piperead p addr (int n) s = Ret (int k) r \<and> m_mem r = m_mem u
           \<and> pipe_bytes (st_pipes r p) = drop k (pipe_bytes q))"
proof -
  let ?q = "st_pipes s p"
  let ?k = "min n (pipe_count ?q)"
  have ok: "cpu_ok s" using assms(1) by (simp add: running_def)
  show ?thesis
  proof (cases "pipe_empty ?q \<and> pi_writeopen ?q")
    case True
    have "st_pipes (acquired PtableLock (set_proc i (asleep (ChanPipeRead p)) s)) p = ?q" by (simp add: set_proc_def)
    then show ?thesis
      using True piperead_waits [OF assms(1-3), of addr "int n"] assms(4) unfolding Let_def
      by (cases "p_killed (st_procs s i)") auto
  next
    case False
    let ?r = "woken (ChanPipeWrite p) (with_pipe p ((pipe_take ^^ ?k) ?q) u)"
    have "piperead p addr (int n) s = Ret (int ?k) ?r"
      using piperead_run [OF ok assms(2-4) _ assms(5)] False by blast
    moreover have "st_pipes ?r p = (pipe_take ^^ ?k) ?q" "m_mem ?r = m_mem u" by (simp_all add: woken_with_pipe)
    moreover have "pipe_ok ((pipe_take ^^ ?k) ?q)" "pipe_bytes ((pipe_take ^^ ?k) ?q) = drop ?k (pipe_bytes ?q)"
      using pipe_fifo.take_all [OF assms(4), of ?k] by simp_all
    ultimately show ?thesis using False unfolding Let_def by (intro exI [of _ ?r]) auto
  qed
qed

lemma ex_ustore: "\<exists>u. ustore [3] 0x1800 (ex_filemach k) = Ret () u \<and> m_mem u = (\<lambda>_. 7)(0x87070800 := 3)"
  by (simp add: kseq_run ustore8_run translate_def Let_def load32_def PTE_P_def PTE_W_def PTE_ADDR_def P2V_def KERNBASE_def)

theorem piperead_delivers_witness:
  "\<exists>r. piperead 0x80300000 0x1800 5 (ex_filemach 1) = Ret 1 r \<and> m_mem r 0x87070800 = 3 \<and> pipe_bytes (st_pipes r 0x80300000) = []"
proof -
  have b: "pipe_bytes (ex_pipe 1) = [3]"
    by (simp add: pipe_bytes_def ex_pipe_count PIPESIZE_def) (simp add: ex_pipe_def)
  obtain u where u: "ustore [3] 0x1800 (ex_filemach 1) = Ret () u" "m_mem u = (\<lambda>_. 7)(0x87070800 := 3)"
    using ex_ustore by blast
  have "pipe_ok (st_pipes (ex_filemach 1) 0x80300000)" "\<not> pipe_empty (ex_pipe 1)"
    by (simp_all add: ex_pipe_count PIPESIZE_def pipe_empty_count)
  then show ?thesis
    using piperead_delivers [OF ex_filemach_ok(1,3,3), of 1 "0x80300000" 5 "0x1800" u] u b
    by (auto simp: Let_def ex_pipe_count PIPESIZE_def)
qed

section \<open>The file table\<close>

definition with_file :: "nat \<Rightarrow> kfile \<Rightarrow> 'a filemach_scheme \<Rightarrow> 'a filemach_scheme" where
  "with_file i f s = s\<lparr>st_files := (st_files s)(i := f)\<rparr>"

lemma with_file_simps [simp]:
  "cpu_ok (with_file i f s) = cpu_ok s" "lock_free (with_file i f s) l = lock_free s l"
  "st_files (with_file i f s) j = (if j = i then f else st_files s j)" "st_pipes (with_file i f s) = st_pipes s"
  "with_file i f (with_file i g s) = with_file i f s" "with_file i (st_files s i) s = s"
  "st_procs (with_file i f s) = st_procs s" "running k (with_file i f s) = running k s"
  by (simp_all add: with_file_def running_def)

lemma acquired_with_file [kframe]: "with_file i f (acquired l s) = acquired l (with_file i f s)"
  by (simp add: with_file_def kframe)

lemma upd_file_run [krun]: "upd_file i g s = Ret () (with_file i (g (st_files s i)) s)"
  by (simp add: upd_file_def with_file_def)

lemma filealloc_run:
  assumes "cpu_ok s" "lock_free s FtableLock"
  shows "filealloc s = (case find (\<lambda>i. f_ref (st_files s i) = 0) [0..<NFILE] of
     Some i \<Rightarrow> Ret (Some i) (with_file i ((st_files s i)\<lparr>f_ref := 1\<rparr>) s) | None \<Rightarrow> Ret None s)"
  using assms by (simp add: filealloc_def kseq_run kbind_run acquire_ok upd_file_run kframe release_acquired split: option.splits)

lemma filedup_run:
  assumes "cpu_ok s" "lock_free s FtableLock" "1 \<le> f_ref (st_files s i)"
  shows "filedup i s = Ret i (with_file i ((st_files s i)\<lparr>f_ref := f_ref (st_files s i) + 1\<rparr>) s)"
  using assms by (simp add: filedup_def kseq_run kbind_run getfile_def acquire_ok upd_file_run kframe release_acquired)

lemma fileclose_shared_run:
  assumes "cpu_ok s" "lock_free s FtableLock" "1 < f_ref (st_files s i)"
  shows "fileclose i s = Ret () (with_file i ((st_files s i)\<lparr>f_ref := f_ref (st_files s i) - 1\<rparr>) s)"
  using assms by (simp add: fileclose_def kseq_run kbind_run getfile_def acquire_ok upd_file_run kframe release_acquired)

lemma fileclose_pipe_run:
  assumes "cpu_ok s" "lock_free s FtableLock" "f_ref (st_files s i) = 1" "f_type (st_files s i) = FD_PIPE"
  shows "fileclose i s = pipeclose (f_pipe (st_files s i)) (f_writable (st_files s i))
     (with_file i ((st_files s i)\<lparr>f_ref := 0, f_type := FD_NONE\<rparr>) s)"
  using assms by (simp add: fileclose_def kseq_run kbind_run getfile_def acquire_ok upd_file_run kframe release_acquired)

lemma pipeclose_writer_run:
  assumes "cpu_ok s" "lock_free s (PipeLock p)" "lock_free s PtableLock" "pi_readopen (st_pipes s p)"
  shows "pipeclose p True s
     = Ret () (woken (ChanPipeRead p) (with_pipe p ((st_pipes s p)\<lparr>pi_writeopen := False\<rparr>) s))"
  using assms
  by (simp add: pipeclose_def kseq_run kbind_run getpipe_def acquire_ok upd_pipe_run wakeup_woken kframe
      release_acquired woken_with_pipe)



text \<open>
  C37. The end of a stream: when the last reference to the write end of an empty pipe is closed,
  \<open>fileclose\<close> returns with every process that waits to read from the pipe runnable, and from then on
  every read from the pipe returns 0 at once.
\<close>

theorem close_ends_stream:
  fixes s :: "'a filemach_scheme"
  assumes "cpu_ok s" "lock_free s FtableLock" "lock_free s PtableLock" "lock_free s (PipeLock p)"
    "st_files s i = f" "f_ref f = 1" "f_type f = FD_PIPE" "f_writable f" "f_pipe f = p"
    "pi_readopen (st_pipes s p)" "pipe_empty (st_pipes s p)" "pipe_ok (st_pipes s p)"
  shows "\<exists>t :: 'a filemach_scheme. fileclose i s = Ret () t \<and> f_ref (st_files t i) = 0
    \<and> (\<forall>j<NPROC. p_state (st_procs s j) = SLEEPING \<and> p_chan (st_procs s j) = ChanPipeRead p
         \<longrightarrow> p_state (st_procs t j) = RUNNABLE)
    \<and> (\<forall>n addr. \<exists>u :: 'a filemach_scheme. piperead p addr (int n) t = Ret 0 u)"
proof -
  let ?f = "f\<lparr>f_ref := 0, f_type := FD_NONE\<rparr>" and ?q = "(st_pipes s p)\<lparr>pi_writeopen := False\<rparr>"
  let ?s = "with_file i ?f s"
  let ?t = "woken (ChanPipeRead p) (with_pipe p ?q ?s)"
  have run: "fileclose i s = Ret () ?t"
    using fileclose_pipe_run [OF assms(1,2)] pipeclose_writer_run [of ?s p] assms by simp
  have q: "st_pipes ?t p = ?q" "pipe_empty ?q" "pipe_ok ?q" "pipe_bytes ?q = []" "pipe_count ?q = 0"
    using assms(11,12) by (simp_all add: woken_with_pipe pipe_empty_def pipe_ok_def pipe_count_def pipe_bytes_def)
  have "\<exists>u :: 'a filemach_scheme. piperead p addr (int n) ?t = Ret 0 u" for n addr
    using piperead_run [of ?t p n addr ?t] assms(1-4) q by simp
  moreover have "st_files ?t i = ?f" "p_state (st_procs ?t j) = RUNNABLE"
    if "j < NPROC" "p_state (st_procs s j) = SLEEPING" "p_chan (st_procs s j) = ChanPipeRead p" for j
    using that by (simp_all add: woken_def with_pipe_def)
  moreover have "f_ref (st_files ?t i) = 0" by (simp add: woken_def with_pipe_def)
  ultimately show ?thesis using run by (intro exI [of _ ?t]) auto
qed

theorem close_ends_stream_witness:
  "\<exists>t u. fileclose 0 (with_file 0 ((st_files (ex_filemach 0) 0)\<lparr>f_ref := 1\<rparr>) (ex_filemach 0)) = Ret () t
     \<and> piperead 0x80300000 0x1800 (int 9) t = Ret 0 u"
proof -
  let ?s = "with_file 0 ((st_files (ex_filemach 0) 0)\<lparr>f_ref := 1\<rparr>) (ex_filemach 0)" and ?p = "0x80300000 :: addr"
  have h: "cpu_ok ?s" "lock_free ?s l" "pi_readopen (st_pipes ?s ?p)" "pipe_empty (st_pipes ?s ?p)" "pipe_ok (st_pipes ?s ?p)" for l
    using ex_filemach_ok by (simp_all add: ex_pipe_count pipe_empty_count) (simp add: ex_pipe_def)
  have "\<exists>t. fileclose 0 ?s = Ret () t \<and> (\<forall>n addr. \<exists>u :: filemach. piperead ?p addr (int n) t = Ret 0 u)"
    using close_ends_stream [OF h(1) h(2) h(2) h(2) refl _ _ _ _ h(3-5), of 0] by auto
  then show ?thesis by blast
qed

end
