(* ===== verification/Proc.thy ===== *)
theory Proc
  imports File
begin

text \<open>
  Processes and threads: the rest of \<^verbatim>\<open>src/proc.c\<close>. Threads of a process are entries of the
  process table that share one \<^verbatim>\<open>struct sharedData\<close> (\<open>p_sharePtr\<close>), with its sixteen open files,
  its working directory and six thread slots.

  \<open>wait_loop\<close> and \<open>thread_join_loop\<close> are the loops from their heads on; a parent that slept in
  \<open>wait\<close> goes on with \<open>sleep_resume\<close> and \<open>wait_loop\<close>, a thread that slept in \<open>thread_join\<close> with
  \<open>thread_join_resume\<close>.
\<close>

section \<open>Allocation\<close>

definition NTHREAD :: nat where "NTHREAD = 6"

definition TF_SIZE :: uint where "TF_SIZE = 76"
definition CTX_SIZE :: uint where "CTX_SIZE = 20"

definition zero_ctx :: ctxt where
  "zero_ctx = \<lparr>cx_edi = 0, cx_esi = 0, cx_ebx = 0, cx_ebp = 0, cx_eip = 0\<rparr>"

definition zero_tf :: trapframe where
  "zero_tf = \<lparr>tf_edi = 0, tf_esi = 0, tf_ebp = 0, tf_oesp = 0, tf_ebx = 0, tf_edx = 0, tf_ecx = 0,
     tf_eax = 0, tf_gs = 0, tf_fs = 0, tf_es = 0, tf_ds = 0, tf_trapno = 0, tf_err = 0, tf_eip = 0,
     tf_cs = 0, tf_eflags = 0, tf_esp = 0, tf_ss = 0\<rparr>"

definition zero_shared :: sharedData where
  "zero_shared = \<lparr>sh_sz = 0, sh_pgdir = 0, sh_ofile = (\<lambda>_. None), sh_cwd = None,
     sh_numOfThread = 0, sh_threads = (\<lambda>_. None), sh_isThere = (\<lambda>_. 0)\<rparr>"

definition getproc :: "nat option \<Rightarrow> ('a filemach_scheme, proc) K" where
  "getproc p = kget (\<lambda>s. procp s p)"

definition getshared :: "nat option \<Rightarrow> ('a filemach_scheme, sharedData) K" where
  "getshared p = kget (\<lambda>s. sharedp s p)"

definition upd_sharedp :: "nat option \<Rightarrow> (sharedData \<Rightarrow> sharedData) \<Rightarrow> ('a filemach_scheme, unit) K" where
  "upd_sharedp p f = kbind (getproc p) (\<lambda>q. upd_shared (p_sharePtr q) f)"

definition allocproc :: "('a filemach_scheme, nat option) K" where
  "allocproc =
     kseq (acquire PtableLock) (
     kbind (kget st_procs) (\<lambda>pt.
     case find (\<lambda>i. p_state (pt i) = UNUSED) [0..<NPROC] of
       None \<Rightarrow> kseq (release PtableLock) (ret None)
     | Some i \<Rightarrow>
         kseq (upd_proc (Some i) (\<lambda>p. p\<lparr>p_state := EMBRYO\<rparr>)) (
         kbind (kget st_nextpid) (\<lambda>pid.
         kseq (kmod (\<lambda>s. s\<lparr>st_nextpid := pid + 1\<rparr>)) (
         kseq (upd_proc (Some i) (\<lambda>p. p\<lparr>p_pid := pid\<rparr>)) (
         kseq (release PtableLock) (
         kbind kalloc (\<lambda>k.
         kseq (upd_proc (Some i) (\<lambda>p. p\<lparr>p_kstack := k\<rparr>)) (
         if k = 0 then kseq (upd_proc (Some i) (\<lambda>p. p\<lparr>p_state := UNUSED\<rparr>)) (ret None)
         else
           let sp = k + KSTACKSIZE - TF_SIZE; sp1 = sp - 4; sp2 = sp1 - CTX_SIZE in
           kseq (upd_proc (Some i) (\<lambda>p. p\<lparr>p_tf := sp\<rparr>)) (
           kbind (kget st_trapret) (\<lambda>tr.
           kseq (kstore32 sp1 tr) (
           kseq (upd_proc (Some i) (\<lambda>p. p\<lparr>p_context := sp2\<rparr>)) (
           kseq (kmod (\<lambda>s. s\<lparr>st_ctx := (st_ctx s)(sp2 := zero_ctx\<lparr>cx_eip := st_forkret s\<rparr>)\<rparr>))
                (ret (Some i)))))))))))))))"

text \<open>
  The first process. It is set up at boot under the kernel page table, which has no mapping at
  address 0: a null pointer faults.
\<close>

definition userinit :: "addr \<Rightarrow> uint \<Rightarrow> ('a filemach_scheme, unit) K" where
  "userinit initcode initsize =
     kbind allocproc (\<lambda>p.
     kbind kalloc (\<lambda>mem.
     if mem = 0 then kstop (Fault 0)
     else
       kseq (upd_shared mem (\<lambda>_. zero_shared)) (
       if p = None then kstop (Fault 0)
       else
         kseq (upd_proc p (\<lambda>q. q\<lparr>p_sharePtr := mem\<rparr>)) (
         kseq (kmod (\<lambda>s. s\<lparr>st_initproc := p\<rparr>)) (
         kbind setupkvm (\<lambda>pgdir.
         kseq (upd_sharedp p (\<lambda>h. h\<lparr>sh_pgdir := pgdir\<rparr>)) (
         if pgdir = 0 then panic ''userinit: out of memory?''
         else
           kseq (inituvm pgdir initcode initsize) (
           kseq (upd_sharedp p (\<lambda>h. h\<lparr>sh_sz := PGSIZE\<rparr>)) (
           kbind (getproc p) (\<lambda>q.
           let ds = of_nat (SEG_UDATA * 8) OR 3 in
           kseq (upd_tf (p_tf q) (\<lambda>_. zero_tf\<lparr>tf_cs := of_nat (SEG_UCODE * 8) OR 3, tf_ds := ds,
                   tf_es := ds, tf_ss := ds, tf_eflags := FL_IF, tf_esp := PGSIZE, tf_eip := 0\<rparr>)) (
           kseq (upd_proc p (\<lambda>q. q\<lparr>p_name := str ''initcode''\<rparr>)) (
           kbind (namei [slash]) (\<lambda>cwd.
           kseq (upd_sharedp p (\<lambda>h. h\<lparr>sh_cwd := cwd, sh_numOfThread := 1,
                   sh_threads := (sh_threads h)(0 := p), sh_isThere := (sh_isThere h)(0 := 1)\<rparr>)) (
           kseq (upd_proc p (\<lambda>q. q\<lparr>p_orderOfThread := 0\<rparr>)) (
           kseq (acquire PtableLock) (
           kseq (upd_proc p (\<lambda>q. q\<lparr>p_state := RUNNABLE\<rparr>))
                (release PtableLock)))))))))))))))))"

definition growproc :: "int \<Rightarrow> ('a filemach_scheme, int) K" where
  "growproc n =
     kbind myproc (\<lambda>p.
     kseq (acquire PtableLock) (
     kbind (getshared p) (\<lambda>h.
     kbind (if n > 0 then allocuvm (sh_pgdir h) (sh_sz h) (sh_sz h + of_int n)
            else if n < 0 then deallocuvm (sh_pgdir h) (sh_sz h) (sh_sz h + of_int n)
            else ret (sh_sz h)) (\<lambda>sz.
     if n \<noteq> 0 \<and> sz = 0 then ret (- 1)
     else
       kseq (upd_sharedp p (\<lambda>h. h\<lparr>sh_sz := sz\<rparr>)) (
       kseq (switchuvm p) (
       kseq (release PtableLock) (ret 0)))))))"

section \<open>fork, exit and wait\<close>

definition fork_fd :: "nat option \<Rightarrow> nat option \<Rightarrow> nat \<Rightarrow> ('a filemach_scheme, unit) K" where
  "fork_fd cp np i =
     kbind (getshared cp) (\<lambda>h.
     case sh_ofile h i of None \<Rightarrow> ret ()
     | Some f \<Rightarrow>
         kbind (filedup f) (\<lambda>f.
         upd_sharedp np (\<lambda>h. h\<lparr>sh_ofile := (sh_ofile h)(i := Some f)\<rparr>)))"

definition fork :: "('a filemach_scheme, int) K" where
  "fork =
     kbind myproc (\<lambda>cp.
     kbind allocproc (\<lambda>np.
     if np = None then kseq (kprint ''allocproc Failed!'') (ret (- 1))
     else
       kbind kalloc (\<lambda>mem.
       if mem = 0
       then
         kseq (kprint ''kalloc Failed!'') (
         kseq (upd_proc np (\<lambda>q. q\<lparr>p_state := UNUSED\<rparr>)) (ret (- 1)))
       else
         kseq (upd_shared mem (\<lambda>_. zero_shared)) (
         kseq (upd_proc np (\<lambda>q. q\<lparr>p_sharePtr := mem\<rparr>)) (
         kbind (getshared cp) (\<lambda>h.
         kbind (copyuvm (sh_pgdir h) (sh_sz h)) (\<lambda>pgdir.
         kseq (upd_sharedp np (\<lambda>h. h\<lparr>sh_pgdir := pgdir\<rparr>)) (
         if pgdir = 0
         then
           kseq (kprint ''copyuvm Failed!'') (
           kbind (getproc np) (\<lambda>q.
           kseq (kfree (p_kstack q)) (
           kseq (upd_proc np (\<lambda>q. q\<lparr>p_kstack := 0, p_state := UNUSED\<rparr>)) (ret (- 1)))))
         else
           kseq (upd_sharedp np (\<lambda>n. n\<lparr>sh_sz := sh_sz h\<rparr>)) (
           kseq (upd_proc np (\<lambda>q. q\<lparr>p_parent := cp\<rparr>)) (
           kbind (getproc cp) (\<lambda>c.
           kbind (getproc np) (\<lambda>q.
           kbind (kget (\<lambda>s. st_tf s (p_tf c))) (\<lambda>tf.
           kseq (upd_tf (p_tf q) (\<lambda>_. tf\<lparr>tf_eax := 0\<rparr>)) (
           kseq (kfor (fork_fd cp np) [0..<NOFILE]) (
           kbind (getshared cp) (\<lambda>h.
           kbind (idup (sh_cwd h)) (\<lambda>cwd.
           kseq (upd_sharedp np (\<lambda>n. n\<lparr>sh_cwd := cwd\<rparr>)) (
           kseq (upd_proc np (\<lambda>q. q\<lparr>p_name := take 15 (p_name c)\<rparr>)) (
           kseq (acquire PtableLock) (
           kseq (upd_sharedp np (\<lambda>n. n\<lparr>sh_numOfThread := 1,
                   sh_isThere := (\<lambda>i. if 1 \<le> i \<and> i < NTHREAD then 0 else if i = 0 then 1 else sh_isThere n i),
                   sh_threads := (sh_threads n)(0 := np)\<rparr>)) (
           kseq (upd_proc np (\<lambda>q. q\<lparr>p_orderOfThread := 0, p_imMaster := True, p_state := RUNNABLE\<rparr>)) (
           kseq (release PtableLock) (ret (p_pid q))))))))))))))))))))))))"

definition close_fd :: "nat option \<Rightarrow> nat \<Rightarrow> ('a filemach_scheme, unit) K" where
  "close_fd p fd =
     kbind (getshared p) (\<lambda>h.
     case sh_ofile h fd of None \<Rightarrow> ret ()
     | Some f \<Rightarrow>
         kseq (fileclose f)
              (upd_sharedp p (\<lambda>h. h\<lparr>sh_ofile := (sh_ofile h)(fd := None)\<rparr>)))"

definition reparent :: "nat option \<Rightarrow> nat \<Rightarrow> ('a filemach_scheme, unit) K" where
  "reparent cp i =
     kbind (getproc (Some i)) (\<lambda>p.
     kwhen (p_parent p = cp) (
       kbind (kget st_initproc) (\<lambda>init.
       kseq (upd_proc (Some i) (\<lambda>q. q\<lparr>p_parent := init\<rparr>))
            (kwhen (p_state p = ZOMBIE) (wakeup1 (proc_chan init))))))"

definition zombify :: "nat option \<Rightarrow> nat \<Rightarrow> ('a filemach_scheme, unit) K" where
  "zombify cp i =
     kbind (getproc (Some i)) (\<lambda>p.
     kbind (getproc cp) (\<lambda>c.
     kwhen (p_sharePtr p = p_sharePtr c \<and> Some i \<noteq> cp)
       (upd_proc (Some i) (\<lambda>q. q\<lparr>p_state := ZOMBIE\<rparr>))))"

definition exit :: "('a filemach_scheme, unit) K" where
  "exit =
     kbind myproc (\<lambda>cp.
     kbind (kget st_initproc) (\<lambda>init.
     if cp = init then panic ''init exiting''
     else
       kseq (kfor (close_fd cp) [0..<NOFILE]) (
       kseq begin_op (
       kbind (getshared cp) (\<lambda>h.
       kseq (iput (sh_cwd h)) (
       kseq end_op (
       kseq (upd_sharedp cp (\<lambda>h. h\<lparr>sh_cwd := None\<rparr>)) (
       kseq (acquire PtableLock) (
       kbind (getproc cp) (\<lambda>c.
       kseq (wakeup1 (proc_chan (p_parent c))) (
       kseq (kfor (reparent cp) [0..<NPROC]) (
       kseq (kfor (zombify cp) [0..<NPROC]) (
       kseq (upd_proc cp (\<lambda>q. q\<lparr>p_state := ZOMBIE\<rparr>)) (
       kseq sched (panic ''zombie exit'')))))))))))))))"

text \<open>Reaping one thread slot of an exited child \<open>p\<close>.\<close>

definition reap_slot :: "nat \<Rightarrow> nat \<Rightarrow> ('a filemach_scheme, unit) K" where
  "reap_slot p i =
     kbind (getshared (Some p)) (\<lambda>h.
     let t = sh_threads h i in
     kbind (getproc t) (\<lambda>q.
     kwhen (p_state q = ZOMBIE \<and> p_pid q \<noteq> 0) (
       kbind (getproc (Some p)) (\<lambda>pp.
       kseq (kwhen (p_kstack pp \<noteq> 0) (
               kseq (kfree (p_kstack pp)) (upd_proc (Some p) (\<lambda>q. q\<lparr>p_kstack := 0\<rparr>)))) (
       kseq (upd_proc t (\<lambda>q. q\<lparr>p_kstack := 0\<rparr>)) (
       kbind (getshared t) (\<lambda>g.
       kseq (kwhen (sh_numOfThread g = 1) (freevm (sh_pgdir g))) (
       kseq (upd_proc t (\<lambda>q. q\<lparr>p_pid := 0, p_parent := None, p_name := [], p_killed := False,
               p_state := UNUSED\<rparr>))
            (upd_sharedp (Some p) (\<lambda>h. h\<lparr>sh_numOfThread := sh_numOfThread h - 1\<rparr>))))))))))"

text \<open>
  The scan of \<open>wait\<close>: the pid of the first child that is a zombie master, reaped, or whether there
  are children at all.
\<close>

fun wait_scan :: "nat option \<Rightarrow> nat list \<Rightarrow> bool \<Rightarrow> ('a filemach_scheme, int + bool) K" where
  "wait_scan cp [] havekids = ret (Inr havekids)"
| "wait_scan cp (p # ps) havekids =
     kbind (getproc (Some p)) (\<lambda>q.
     if p_parent q \<noteq> cp then wait_scan cp ps havekids
     else if p_state q = ZOMBIE \<and> p_imMaster q
     then
       kseq (kfor (reap_slot p) [0..<NTHREAD]) (
       kseq (release PtableLock) (ret (Inl (p_pid q))))
     else wait_scan cp ps True)"

definition wait_loop :: "nat option \<Rightarrow> ('a filemach_scheme, int) K" where
  "wait_loop cp =
     kbind (wait_scan cp [0..<NPROC] False) (\<lambda>r.
     case r of
       Inl pid \<Rightarrow> ret pid
     | Inr havekids \<Rightarrow>
         kbind (getproc cp) (\<lambda>c.
         if \<not> havekids \<or> p_killed c then kseq (release PtableLock) (ret (- 1))
         else kseq (sleep (proc_chan cp) PtableLock) (ret (- 1))))"

definition wait :: "('a filemach_scheme, int) K" where
  "wait = kbind myproc (\<lambda>cp. kseq (acquire PtableLock) (wait_loop cp))"

section \<open>kill\<close>

definition kill_slot :: "nat \<Rightarrow> nat \<Rightarrow> ('a filemach_scheme, unit) K" where
  "kill_slot p i =
     kbind (getshared (Some p)) (\<lambda>h.
     let t = sh_threads h i in
     kbind (getproc t) (\<lambda>q.
     kwhen (p_pid q \<noteq> 0)
       (upd_proc t (\<lambda>q. q\<lparr>p_killed := True,
          p_state := if p_state q = SLEEPING then RUNNABLE else p_state q\<rparr>))))"

definition kill :: "int \<Rightarrow> ('a filemach_scheme, int) K" where
  "kill pid =
     kseq (acquire PtableLock) (
     kbind (kget st_procs) (\<lambda>pt.
     case find (\<lambda>i. p_pid (pt i) = pid) [0..<NPROC] of
       Some p \<Rightarrow>
         kseq (kfor (kill_slot p) [0..<NTHREAD]) (
         kseq (release PtableLock) (ret 0))
     | None \<Rightarrow> kseq (release PtableLock) (ret (- 1))))"

section \<open>Threads\<close>

definition thread_slot :: "nat option \<Rightarrow> ('a filemach_scheme, unit) K" where
  "thread_slot np =
     kbind (getshared np) (\<lambda>h.
     case find (\<lambda>i. sh_isThere h i = 0) [0..<NTHREAD] of
       None \<Rightarrow> ret ()
     | Some i \<Rightarrow>
         kseq (upd_sharedp np (\<lambda>h. h\<lparr>sh_isThere := (sh_isThere h)(i := 1),
                 sh_threads := (sh_threads h)(i := np), sh_numOfThread := sh_numOfThread h + 1\<rparr>))
              (upd_proc np (\<lambda>q. q\<lparr>p_orderOfThread := int i\<rparr>)))"

text \<open>
  The user stack of a new thread, two pages above the memory of the process of which the lower one is
  made inaccessible, with a fake return address and the argument on it: the stack pointer, or \<open>None\<close>
  where \<open>thread_create\<close> fails.
\<close>

definition thread_stack :: "nat option \<Rightarrow> uint \<Rightarrow> ('a filemach_scheme, uint option) K" where
  "thread_stack np arg =
     kbind (getshared np) (\<lambda>h.
     kbind (allocuvm (sh_pgdir h) (sh_sz h) (sh_sz h + 2 * PGSIZE)) (\<lambda>sz.
     if sz = 0 then ret None
     else
       kseq (clearpteu (sh_pgdir h) (sz - 2 * PGSIZE)) (
       kseq (upd_sharedp np (\<lambda>h. h\<lparr>sh_sz := sz\<rparr>)) (
       kbind (copyout (sh_pgdir h) (sz - 8) (le_bytes 0xFFFFFFFF @ le_bytes arg)) (\<lambda>r.
       ret (if r < 0 then None else Some (sz - 8)))))))"

definition thread_create :: "addr \<Rightarrow> uint \<Rightarrow> uint \<Rightarrow> ('a filemach_scheme, int) K" where
  "thread_create thread start_routine arg =
     kbind myproc (\<lambda>cp.
     kbind allocproc (\<lambda>np.
     if np = None then kseq (kprint ''allocproc Failed!'') (ret (- 1))
     else
       kseq (acquire PtableLock) (
       kbind (getproc cp) (\<lambda>c.
       kseq (upd_proc np (\<lambda>q. q\<lparr>p_sharePtr := p_sharePtr c, p_parent := p_parent c\<rparr>)) (
       kbind (getproc np) (\<lambda>q.
       kbind (kget (\<lambda>s. st_tf s (p_tf c))) (\<lambda>tf.
       kseq (upd_tf (p_tf q) (\<lambda>_. tf\<lparr>tf_eax := 0\<rparr>)) (
       kbind (thread_stack np arg) (\<lambda>r.
       case r of
         None \<Rightarrow>
           kseq (upd_proc np (\<lambda>q. q\<lparr>p_state := UNUSED\<rparr>)) (
           kseq (release PtableLock) (ret (- 1)))
       | Some sp \<Rightarrow>
           kseq (upd_proc np (\<lambda>q. q\<lparr>p_stack := sp\<rparr>)) (
           kseq (upd_tf (p_tf q) (\<lambda>t. t\<lparr>tf_eip := start_routine, tf_esp := sp\<rparr>)) (
           kseq (upd_proc np (\<lambda>q. q\<lparr>p_imMaster := False, p_state := RUNNABLE\<rparr>)) (
           kseq (thread_slot np) (
           kbind (getproc np) (\<lambda>q.
           kseq (ustore32 thread (of_int (p_orderOfThread q))) (
           kseq (release PtableLock) (ret 0))))))))))))))))"

text \<open>
  The thread whose table entry \<open>thread_exit\<close> wakes: the first slot whose thread is the master. If no
  slot has one, the index is 6 and \<^verbatim>\<open>threads[6]\<close> is the word after the array, \<^verbatim>\<open>isThere[0]\<close>.
\<close>

definition exit_chan :: "'a filemach_scheme \<Rightarrow> nat option \<Rightarrow> chan" where
  "exit_chan s cp =
     (let h = sharedp s cp in
      case find (\<lambda>i. p_imMaster (procp s (sh_threads h i))) [0..<NTHREAD] of
        Some i \<Rightarrow> proc_chan (sh_threads h i)
      | None \<Rightarrow> ChanRaw (of_int (sh_isThere h 0)))"

definition thread_exit :: "uint \<Rightarrow> ('a filemach_scheme, unit) K" where
  "thread_exit retval =
     kbind myproc (\<lambda>cp.
     kseq (acquire PtableLock) (
     kbind (kget (\<lambda>s. exit_chan s cp)) (\<lambda>ch.
     kseq (wakeup1 ch) (
     kbind (getproc cp) (\<lambda>c.
     kseq (upd_sharedp cp (\<lambda>h. h\<lparr>sh_isThere := (sh_isThere h)(nat (p_orderOfThread c) := 0)\<rparr>)) (
     kseq (upd_proc cp (\<lambda>q. q\<lparr>p_state := ZOMBIE\<rparr>)) (
     kseq (upd_proc cp (\<lambda>q. q\<lparr>p_retval := retval\<rparr>)) (
     kseq sched (panic ''zombie exit'')))))))))"

definition joinable :: "'a filemach_scheme \<Rightarrow> nat option \<Rightarrow> uint \<Rightarrow> nat \<Rightarrow> bool" where
  "joinable s cp thread i \<longleftrightarrow>
     (let p = st_procs s i in of_int (p_orderOfThread p) = thread \<and> p_state p = ZOMBIE
        \<and> p_parent p = p_parent (procp s cp) \<and> \<not> p_imMaster p)"

definition thread_join_loop :: "nat option \<Rightarrow> uint \<Rightarrow> addr \<Rightarrow> ('a filemach_scheme, int) K" where
  "thread_join_loop cp thread retval =
     kbind (kget (\<lambda>s. find (joinable s cp thread) [0..<NPROC])) (\<lambda>r.
     case r of
       Some i \<Rightarrow>
         kbind (getproc (Some i)) (\<lambda>p.
         kseq (kwhen (retval \<noteq> 0) (ustore32 retval (p_retval p))) (
         kseq (upd_proc (Some i) (\<lambda>q. q\<lparr>p_retval := 0\<rparr>)) (
         kseq (kfree (p_kstack p)) (
         kseq (upd_proc (Some i) (\<lambda>q. q\<lparr>p_kstack := 0, p_state := UNUSED, p_pid := 0,
                 p_parent := None, p_killed := False, p_name := [], p_imMaster := False,
                 p_orderOfThread := 0\<rparr>)) (
         kseq (upd_sharedp cp (\<lambda>h. h\<lparr>sh_numOfThread := sh_numOfThread h - 1\<rparr>)) (
         kseq (upd_proc (Some i) (\<lambda>q. q\<lparr>p_sharePtr := 0, p_stack := 0\<rparr>)) (
         kseq (release PtableLock) (ret 0))))))))
     | None \<Rightarrow> kseq (sleep (proc_chan cp) PtableLock) (ret (- 1)))"

definition thread_join_resume :: "bool \<Rightarrow> nat option \<Rightarrow> uint \<Rightarrow> addr \<Rightarrow> ('a filemach_scheme, int) K" where
  "thread_join_resume intena cp thread retval =
     kseq (sleep_resume intena PtableLock) (
     kbind (getproc cp) (\<lambda>c.
     if p_killed c then kseq (release PtableLock) (ret (- 1))
     else thread_join_loop cp thread retval))"

definition thread_join :: "uint \<Rightarrow> addr \<Rightarrow> ('a filemach_scheme, int) K" where
  "thread_join thread retval =
     kbind myproc (\<lambda>cp.
     kbind (getproc cp) (\<lambda>c.
     if \<not> p_imMaster c then ret (- 1)
     else
       kseq (kwhen (cp \<noteq> None) (acquire PtableLock))
            (thread_join_loop cp thread retval)))"

section \<open>The first scheduling of a process\<close>

definition forkret :: "('a filemach_scheme, unit) K" where
  "forkret =
     kseq (release PtableLock) (
     kbind (kget st_first) (\<lambda>first.
     kwhen first (
       kseq (kmod (\<lambda>s. s\<lparr>st_first := False\<rparr>)) (
       kseq (iinit (unat ROOTDEV)) (initlog (unat ROOTDEV))))))"

end
