(* ===== verification/Exec.thy ===== *)
theory Exec
  imports Proc
begin

text \<open>
  Loading a program: \<^verbatim>\<open>src/exec.c\<close>, the ELF headers of \<^verbatim>\<open>src/elf.h\<close>, and \<open>loaduvm\<close> of
  \<^verbatim>\<open>src/vm.c\<close>. The path and the argument strings are the lists of their bytes before the NUL.
\<close>

section \<open>ELF headers\<close>

definition ELF_MAGIC :: uint where "ELF_MAGIC = 0x464C457F"
definition ELF_PROG_LOAD :: uint where "ELF_PROG_LOAD = 1"
definition ELFHDR_SIZE :: nat where "ELFHDR_SIZE = 52"
definition PROGHDR_SIZE :: nat where "PROGHDR_SIZE = 32"

record elfhdr =
  e_magic :: uint
  e_entry :: uint
  e_phoff :: uint
  e_phnum :: ushort

definition decode_elfhdr :: "uchar list \<Rightarrow> elfhdr" where
  "decode_elfhdr d = \<lparr>e_magic = get32 d 0, e_entry = get32 d 24, e_phoff = get32 d 28, e_phnum = get16 d 44\<rparr>"

record proghdr =
  ph_type :: uint
  ph_off :: uint
  ph_vaddr :: uint
  ph_filesz :: uint
  ph_memsz :: uint

definition decode_proghdr :: "uchar list \<Rightarrow> proghdr" where
  "decode_proghdr d = \<lparr>ph_type = get32 d 0, ph_off = get32 d 4, ph_vaddr = get32 d 8,
     ph_filesz = get32 d 16, ph_memsz = get32 d 20\<rparr>"

section \<open>The other threads of the process\<close>

text \<open>
  \<open>free_proc\<close> calls \<open>freevm\<close> when the shared data pointer is null, and reads the page directory
  through that null pointer.
\<close>

definition free_proc :: "nat option \<Rightarrow> ('a filemach_scheme, unit) K" where
  "free_proc p =
     kbind (getproc p) (\<lambda>q.
     kseq (kwhen (p_kstack q \<noteq> 0) (kfree (p_kstack q))) (
     kseq (upd_proc p (\<lambda>q. q\<lparr>p_kstack := 0\<rparr>)) (
     kseq (kwhen (p_sharePtr q = 0) (kbind (getshared p) (\<lambda>h. freevm (sh_pgdir h))))
          (upd_proc p (\<lambda>q. q\<lparr>p_pid := 0, p_parent := None, p_tf := 0, p_context := 0,
             p_chan := ChanRaw 0, p_killed := False, p_state := UNUSED, p_name := [],
             p_sharePtr := 0, p_orderOfThread := 0, p_retval := 0\<rparr>)))))"

definition kill_other :: "nat option \<Rightarrow> nat \<Rightarrow> ('a filemach_scheme, unit) K" where
  "kill_other cp i =
     kbind (getshared cp) (\<lambda>h.
     let t = sh_threads h i in
     kwhen (sh_isThere h i \<noteq> 0 \<and> t \<noteq> cp) (
       kseq (upd_proc t (\<lambda>q. q\<lparr>p_killed := True,
               p_state := if p_state q = SLEEPING then RUNNABLE else p_state q\<rparr>))
            (free_proc t)))"

definition kill_other_threads :: "nat option \<Rightarrow> ('a filemach_scheme, unit) K" where
  "kill_other_threads cp =
     kseq (acquire PtableLock) (
     kseq (kfor (kill_other cp) [0..<NTHREAD]) (release PtableLock))"

section \<open>Loading a segment\<close>

primrec loaduvm_loop :: "nat \<Rightarrow> addr \<Rightarrow> addr \<Rightarrow> nat \<Rightarrow> uint \<Rightarrow> uint \<Rightarrow> uint \<Rightarrow> ('a dmach_scheme, int) K" where
  "loaduvm_loop 0 pgdir addr ip offset sz i = kstop Diverge"
| "loaduvm_loop (Suc fuel) pgdir addr ip offset sz i =
     (if i < sz
      then
        kbind (walkpgdir pgdir (addr + i) False) (\<lambda>pte.
        if pte = 0 then panic ''loaduvm: address should exist''
        else
          kbind (kload32 pte) (\<lambda>e.
          let n = (if sz - i < PGSIZE then sz - i else PGSIZE) in
          kbind (readi ip (KernMem (P2V (PTE_ADDR e))) (offset + i) n) (\<lambda>(r, _).
          if r \<noteq> sint n then ret (- 1)
          else loaduvm_loop fuel pgdir addr ip offset sz (i + PGSIZE))))
      else ret 0)"

definition loaduvm :: "addr \<Rightarrow> addr \<Rightarrow> nat \<Rightarrow> uint \<Rightarrow> uint \<Rightarrow> ('a dmach_scheme, int) K" where
  "loaduvm pgdir addr ip offset sz =
     (if addr mod PGSIZE \<noteq> 0 then panic ''loaduvm: addr must be page aligned''
      else loaduvm_loop (unat sz div 4096 + 2) pgdir addr ip offset sz 0)"

section \<open>exec\<close>

text \<open>The program headers in turn; \<open>None\<close> is the jump to the error exit.\<close>

primrec exec_load :: "nat \<Rightarrow> addr \<Rightarrow> nat \<Rightarrow> uint \<Rightarrow> uint \<Rightarrow> ('a dmach_scheme, uint option) K" where
  "exec_load 0 pgdir ip off sz = ret (Some sz)"
| "exec_load (Suc k) pgdir ip off sz =
     kbind (readi ip (Stack []) off (of_nat PROGHDR_SIZE)) (\<lambda>(r, bs).
     if r \<noteq> int PROGHDR_SIZE then ret None
     else
       let ph = decode_proghdr bs; off' = off + of_nat PROGHDR_SIZE in
       if ph_type ph \<noteq> ELF_PROG_LOAD then exec_load k pgdir ip off' sz
       else if ph_memsz ph < ph_filesz ph then ret None
       else
         kbind (allocuvm pgdir sz (ph_vaddr ph + ph_memsz ph)) (\<lambda>sz'.
         if sz' = 0 then ret None
         else if ph_vaddr ph mod PGSIZE \<noteq> 0 then ret None
         else
           kbind (loaduvm pgdir (ph_vaddr ph) ip (ph_off ph) (ph_filesz ph)) (\<lambda>r.
           if r < 0 then ret None else exec_load k pgdir ip off' sz')))"

text \<open>Pushing the argument strings: the stack pointer and the addresses of the strings.\<close>

fun exec_args :: "addr \<Rightarrow> uchar list list \<Rightarrow> nat \<Rightarrow> uint \<Rightarrow> uint list \<Rightarrow> ('a dmach_scheme, (uint \<times> uint list) option) K" where
  "exec_args pgdir [] argc sp us = ret (Some (sp, us))"
| "exec_args pgdir (a # as) argc sp us =
     (if argc \<ge> MAXARG then ret None
      else
        let sp = (sp - (of_nat (length a) + 1)) AND NOT 3 in
        kbind (copyout pgdir sp (a @ [0])) (\<lambda>r.
        if r < 0 then ret None
        else exec_args pgdir as (Suc argc) sp (us @ [sp])))"

definition exec_bad :: "addr \<Rightarrow> nat option \<Rightarrow> ('a dmach_scheme, int) K" where
  "exec_bad pgdir ip =
     kseq (kwhen (pgdir \<noteq> 0) (freevm pgdir)) (
     kseq (kwhen (ip \<noteq> None) (kseq (iunlockput ip) end_op)) (ret (- 1)))"

definition last_elem :: "uchar list \<Rightarrow> uchar list" where
  "last_elem path = rev (takeWhile (\<lambda>c. c \<noteq> slash) (rev path))"

definition exec_commit :: "nat option \<Rightarrow> uchar list \<Rightarrow> addr \<Rightarrow> uint \<Rightarrow> uint \<Rightarrow> uint \<Rightarrow> ('a filemach_scheme, int) K" where
  "exec_commit cp path pgdir sz sp entry =
     kseq (upd_proc cp (\<lambda>q. q\<lparr>p_name := take 15 (last_elem path)\<rparr>)) (
     kbind (getshared cp) (\<lambda>h.
     kseq (upd_sharedp cp (\<lambda>h. h\<lparr>sh_pgdir := pgdir, sh_sz := sz\<rparr>)) (
     kbind (getproc cp) (\<lambda>q.
     kseq (upd_tf (p_tf q) (\<lambda>t. t\<lparr>tf_eip := entry, tf_esp := sp\<rparr>)) (
     kseq (upd_proc cp (\<lambda>q. q\<lparr>p_imMaster := True\<rparr>)) (
     kseq (switchuvm cp) (
     kseq (freevm (sh_pgdir h)) (ret 0))))))))"

definition exec_stack :: "nat option \<Rightarrow> uchar list \<Rightarrow> uchar list list \<Rightarrow> addr \<Rightarrow> uint \<Rightarrow> uint \<Rightarrow> ('a filemach_scheme, int) K" where
  "exec_stack cp path argv pgdir entry sz0 =
     (let sz1 = PGROUNDUP sz0 in
      kbind (allocuvm pgdir sz1 (sz1 + 2 * PGSIZE)) (\<lambda>sz.
      if sz = 0 then exec_bad pgdir None
      else
        kseq (clearpteu pgdir (sz - 2 * PGSIZE)) (
        kbind (exec_args pgdir argv 0 sz []) (\<lambda>r.
        case r of None \<Rightarrow> exec_bad pgdir None
        | Some (sp, us) \<Rightarrow>
            let argc = of_nat (length us) :: uint;
                ustack = [0xFFFFFFFF, argc, sp - (argc + 1) * 4] @ us @ [0];
                sp' = sp - (3 + argc + 1) * 4 in
            kbind (copyout pgdir sp' (concat (map le_bytes ustack))) (\<lambda>r.
            if r < 0 then exec_bad pgdir None
            else exec_commit cp path pgdir sz sp' entry)))))"

definition exec :: "uchar list \<Rightarrow> uchar list list \<Rightarrow> ('a filemach_scheme, int) K" where
  "exec path argv =
     kbind myproc (\<lambda>cp.
     kseq (kill_other_threads cp) (
     kseq begin_op (
     kbind (namei path) (\<lambda>ip.
     case ip of
       None \<Rightarrow> kseq end_op (kseq (kprint ''exec: fail'') (ret (- 1)))
     | Some i \<Rightarrow>
         kseq (ilock ip) (
         kbind (readi i (Stack []) 0 (of_nat ELFHDR_SIZE)) (\<lambda>(r, bs).
         if r \<noteq> int ELFHDR_SIZE then exec_bad 0 ip
         else
           let elf = decode_elfhdr bs in
           if e_magic elf \<noteq> ELF_MAGIC then exec_bad 0 ip
           else
             kbind setupkvm (\<lambda>pgdir.
             if pgdir = 0 then exec_bad 0 ip
             else
               kbind (exec_load (unat (e_phnum elf)) pgdir i (e_phoff elf) 0) (\<lambda>r.
               case r of None \<Rightarrow> exec_bad pgdir ip
               | Some sz \<Rightarrow>
                   kseq (iunlockput ip) (
                   kseq end_op (exec_stack cp path argv pgdir (e_entry elf) sz))))))))))"

end
