(* ===== verification/Syscall.thy ===== *)
theory Syscall
  imports Exec
begin

text \<open>
  System calls: the argument checks and the dispatch of \<^verbatim>\<open>src/syscall.c\<close>, and the calls of
  \<^verbatim>\<open>src/sysproc.c\<close> and \<^verbatim>\<open>src/sysfile.c\<close>.

  The arguments are read from the user stack through the current page table. \<open>argstr\<close> returns the
  string with its address: the kernel reads it where it is. \<open>None\<close> is the result -1 of a failed
  check. \<open>sys_sleep_loop\<close> is the loop of \<open>sys_sleep\<close> from its head on.
\<close>

section \<open>Arguments\<close>

definition my_sz :: "('a filemach_scheme, uint) K" where
  "my_sz = kbind myproc (\<lambda>p. kget (\<lambda>s. sh_sz (sharedp s p)))"

definition fetchint :: "uint \<Rightarrow> ('a filemach_scheme, uint option) K" where
  "fetchint addr =
     kbind my_sz (\<lambda>sz.
     if addr \<ge> sz \<or> addr + 4 > sz then ret None
     else kbind (uload32 addr) (\<lambda>v. ret (Some v)))"

text \<open>The loop of \<open>fetchstr\<close>: \<open>n\<close> addresses are left before the end of the process.\<close>

primrec fetchstr_loop :: "nat \<Rightarrow> addr \<Rightarrow> uchar list \<Rightarrow> ('a filemach_scheme, uchar list option) K" where
  "fetchstr_loop 0 s acc = ret None"
| "fetchstr_loop (Suc n) s acc =
     kbind (uload8 s) (\<lambda>c.
     if c = 0 then ret (Some acc) else fetchstr_loop n (s + 1) (acc @ [c]))"

definition fetchstr :: "uint \<Rightarrow> ('a filemach_scheme, (addr \<times> uchar list) option) K" where
  "fetchstr addr =
     kbind my_sz (\<lambda>sz.
     if addr \<ge> sz then ret None
     else kbind (fetchstr_loop (unat (sz - addr)) addr []) (\<lambda>r. ret (map_option (\<lambda>bs. (addr, bs)) r)))"

definition my_tf :: "('a filemach_scheme, trapframe) K" where
  "my_tf = kbind myproc (\<lambda>p. kget (\<lambda>s. st_tf s (p_tf (procp s p))))"

definition argint :: "nat \<Rightarrow> ('a filemach_scheme, uint option) K" where
  "argint n = kbind my_tf (\<lambda>tf. fetchint (tf_esp tf + 4 + 4 * of_nat n))"

definition argptr :: "nat \<Rightarrow> int \<Rightarrow> ('a filemach_scheme, addr option) K" where
  "argptr n sz0 =
     kbind (argint n) (\<lambda>r.
     case r of None \<Rightarrow> ret None
     | Some i \<Rightarrow>
         kbind my_sz (\<lambda>sz.
         if sz0 < 0 \<or> i \<ge> sz \<or> i + of_int sz0 > sz then ret None else ret (Some i)))"

definition argstr :: "nat \<Rightarrow> ('a filemach_scheme, (addr \<times> uchar list) option) K" where
  "argstr n = kbind (argint n) (\<lambda>r. case r of None \<Rightarrow> ret None | Some a \<Rightarrow> fetchstr a)"

section \<open>Processes\<close>

definition sys_fork :: "('a filemach_scheme, int) K" where
  "sys_fork = fork"

definition sys_exit :: "('a filemach_scheme, int) K" where
  "sys_exit = kseq exit (ret 0)"

definition sys_wait :: "('a filemach_scheme, int) K" where
  "sys_wait = wait"

definition sys_kill :: "('a filemach_scheme, int) K" where
  "sys_kill =
     kseq (acquire PtableLock) (
     kbind (argint 0) (\<lambda>r.
     case r of None \<Rightarrow> ret (- 1)
     | Some pid \<Rightarrow>
         kbind (kget st_procs) (\<lambda>pt.
         case find (\<lambda>i. p_pid (pt i) = sint pid) [0..<NPROC] of
           None \<Rightarrow> kseq (release PtableLock) (ret (- 1))
         | Some p \<Rightarrow>
             kseq (kmod (\<lambda>s. s\<lparr>st_procs := scan NPROC (\<lambda>q. p_sharePtr q = p_sharePtr (pt p))
                     (\<lambda>q. q\<lparr>p_killed := True,
                        p_state := if p_state q = SLEEPING then RUNNABLE else p_state q\<rparr>) (st_procs s)\<rparr>)) (
             kseq (release PtableLock) (ret 0)))))"

definition sys_getpid :: "('a filemach_scheme, int) K" where
  "sys_getpid = kbind myproc (\<lambda>p. kget (\<lambda>s. p_pid (procp s p)))"

definition sys_sbrk :: "('a filemach_scheme, int) K" where
  "sys_sbrk =
     kbind (argint 0) (\<lambda>r.
     case r of None \<Rightarrow> ret (- 1)
     | Some n \<Rightarrow>
         kbind my_sz (\<lambda>addr.
         kbind (growproc (sint n)) (\<lambda>r.
         if r < 0 then ret (- 1) else ret (sint addr))))"

definition sys_sleep_loop :: "uint \<Rightarrow> uint \<Rightarrow> ('a filemach_scheme, int) K" where
  "sys_sleep_loop ticks0 n =
     kbind getdev (\<lambda>d.
     if dv_ticks d - ticks0 < n
     then
       kbind killed (\<lambda>k.
       if k then kseq (release TicksLock) (ret (- 1))
       else kseq (sleep ChanTicks TicksLock) (ret (- 1)))
     else kseq (release TicksLock) (ret 0))"

definition sys_sleep :: "('a filemach_scheme, int) K" where
  "sys_sleep =
     kbind (argint 0) (\<lambda>r.
     case r of None \<Rightarrow> ret (- 1)
     | Some n \<Rightarrow>
         kseq (acquire TicksLock) (
         kbind getdev (\<lambda>d. sys_sleep_loop (dv_ticks d) n)))"

definition sys_uptime :: "('a filemach_scheme, int) K" where
  "sys_uptime =
     kseq (acquire TicksLock) (
     kbind getdev (\<lambda>d.
     kseq (release TicksLock) (ret (sint (dv_ticks d)))))"

definition sys_thread_create :: "('a filemach_scheme, int) K" where
  "sys_thread_create =
     kbind (argptr 0 4) (\<lambda>r0. case r0 of None \<Rightarrow> ret (- 1) | Some thread \<Rightarrow>
     kbind (argptr 1 4) (\<lambda>r1. case r1 of None \<Rightarrow> ret (- 1) | Some start \<Rightarrow>
     kbind (argptr 2 4) (\<lambda>r2. case r2 of None \<Rightarrow> ret (- 1) | Some arg \<Rightarrow>
     thread_create thread start arg)))"

definition sys_thread_exit :: "('a filemach_scheme, int) K" where
  "sys_thread_exit =
     kbind (argptr 0 4) (\<lambda>r. case r of None \<Rightarrow> ret (- 1) | Some retval \<Rightarrow>
     kseq (thread_exit retval) (ret 0))"

definition sys_thread_join :: "('a filemach_scheme, int) K" where
  "sys_thread_join =
     kbind (argint 0) (\<lambda>r0. case r0 of None \<Rightarrow> ret (- 1) | Some thread \<Rightarrow>
     kbind (argptr 1 4) (\<lambda>r1. case r1 of None \<Rightarrow> ret (- 1) | Some retval \<Rightarrow>
     thread_join thread retval))"

section \<open>Files\<close>

definition argfd :: "nat \<Rightarrow> ('a filemach_scheme, (nat \<times> nat) option) K" where
  "argfd n =
     kbind (argint n) (\<lambda>r.
     case r of None \<Rightarrow> ret None
     | Some v \<Rightarrow>
         if sint v < 0 \<or> sint v \<ge> int NOFILE then ret None
         else
           kbind myproc (\<lambda>p.
           kbind (getshared p) (\<lambda>h.
           case sh_ofile h (unat v) of None \<Rightarrow> ret None | Some f \<Rightarrow> ret (Some (unat v, f)))))"

definition fdalloc :: "nat \<Rightarrow> ('a filemach_scheme, nat option) K" where
  "fdalloc f =
     kbind myproc (\<lambda>p.
     kbind (getshared p) (\<lambda>h.
     case find (\<lambda>fd. sh_ofile h fd = None) [0..<NOFILE] of
       None \<Rightarrow> ret None
     | Some fd \<Rightarrow>
         kseq (upd_sharedp p (\<lambda>h. h\<lparr>sh_ofile := (sh_ofile h)(fd := Some f)\<rparr>)) (ret (Some fd))))"

definition sys_dup :: "('a filemach_scheme, int) K" where
  "sys_dup =
     kbind (argfd 0) (\<lambda>r. case r of None \<Rightarrow> ret (- 1) | Some (_, f) \<Rightarrow>
     kbind (fdalloc f) (\<lambda>r. case r of None \<Rightarrow> ret (- 1) | Some fd \<Rightarrow>
     kseq (filedup f) (ret (int fd))))"

definition sys_read :: "('a filemach_scheme, int) K" where
  "sys_read =
     kbind (argfd 0) (\<lambda>r. case r of None \<Rightarrow> ret (- 1) | Some (_, f) \<Rightarrow>
     kbind (argint 2) (\<lambda>r. case r of None \<Rightarrow> ret (- 1) | Some n \<Rightarrow>
     kbind (argptr 1 (sint n)) (\<lambda>r. case r of None \<Rightarrow> ret (- 1) | Some p \<Rightarrow>
     fileread f p (sint n))))"

definition sys_write :: "('a filemach_scheme, int) K" where
  "sys_write =
     kbind (argfd 0) (\<lambda>r. case r of None \<Rightarrow> ret (- 1) | Some (_, f) \<Rightarrow>
     kbind (argint 2) (\<lambda>r. case r of None \<Rightarrow> ret (- 1) | Some n \<Rightarrow>
     kbind (argptr 1 (sint n)) (\<lambda>r. case r of None \<Rightarrow> ret (- 1) | Some p \<Rightarrow>
     filewrite f p (sint n))))"

definition sys_close :: "('a filemach_scheme, int) K" where
  "sys_close =
     kbind (argfd 0) (\<lambda>r. case r of None \<Rightarrow> ret (- 1) | Some (fd, f) \<Rightarrow>
     kbind myproc (\<lambda>p.
     kseq (upd_sharedp p (\<lambda>h. h\<lparr>sh_ofile := (sh_ofile h)(fd := None)\<rparr>)) (
     kseq (fileclose f) (ret 0))))"

definition sys_fstat :: "('a filemach_scheme, int) K" where
  "sys_fstat =
     kbind (argfd 0) (\<lambda>r. case r of None \<Rightarrow> ret (- 1) | Some (_, f) \<Rightarrow>
     kbind (argptr 1 20) (\<lambda>r. case r of None \<Rightarrow> ret (- 1) | Some st \<Rightarrow>
     filestat f st))"

definition link_bad :: "nat \<Rightarrow> ('a filemach_scheme, int) K" where
  "link_bad i =
     kseq (ilock (Some i)) (
     kseq (upd_inode i (\<lambda>x. x\<lparr>d_nlink := d_nlink x - 1\<rparr>)) (
     kseq (iupdate i) (
     kseq (iunlockput (Some i)) (
     kseq end_op (ret (- 1))))))"

definition sys_link :: "('a filemach_scheme, int) K" where
  "sys_link =
     kbind (argstr 0) (\<lambda>r. case r of None \<Rightarrow> ret (- 1) | Some (_, old) \<Rightarrow>
     kbind (argstr 1) (\<lambda>r. case r of None \<Rightarrow> ret (- 1) | Some (_, new) \<Rightarrow>
     kseq begin_op (
     kbind (namei old) (\<lambda>r. case r of None \<Rightarrow> kseq end_op (ret (- 1)) | Some i \<Rightarrow>
     kseq (ilock (Some i)) (
     kbind (getinode i) (\<lambda>ip.
     if d_type ip = T_DIR then kseq (iunlockput (Some i)) (kseq end_op (ret (- 1)))
     else
       kseq (upd_inode i (\<lambda>x. x\<lparr>d_nlink := d_nlink x + 1\<rparr>)) (
       kseq (iupdate i) (
       kseq (iunlock (Some i)) (
       kbind (nameiparent new) (\<lambda>(r, name). case r of None \<Rightarrow> link_bad i | Some d \<Rightarrow>
       kseq (ilock (Some d)) (
       kbind (getinode d) (\<lambda>dp.
       kbind (getinode i) (\<lambda>ip.
       kbind (if i_dev dp \<noteq> i_dev ip then ret (- 1) else dirlink d name (i_inum ip)) (\<lambda>r.
       if r < 0 then kseq (iunlockput (Some d)) (link_bad i)
       else
         kseq (iunlockput (Some d)) (
         kseq (iput (Some i)) (
         kseq end_op (ret 0)))))))))))))))))"

fun isdirempty_loop :: "nat \<Rightarrow> nat list \<Rightarrow> ('a filemach_scheme, bool) K" where
  "isdirempty_loop dp [] = ret True"
| "isdirempty_loop dp (off # offs) =
     kbind (read_dirent dp off ''isdirempty: readi'') (\<lambda>de.
     if de_inum de \<noteq> 0 then ret False else isdirempty_loop dp offs)"

definition isdirempty :: "nat \<Rightarrow> ('a filemach_scheme, bool) K" where
  "isdirempty dp = kbind (getinode dp) (\<lambda>d. isdirempty_loop dp (drop 2 (dir_offsets (d_size d))))"

definition unlink_bad :: "nat \<Rightarrow> ('a filemach_scheme, int) K" where
  "unlink_bad d = kseq (iunlockput (Some d)) (kseq end_op (ret (- 1)))"

definition sys_unlink :: "('a filemach_scheme, int) K" where
  "sys_unlink =
     kbind (argstr 0) (\<lambda>r. case r of None \<Rightarrow> ret (- 1) | Some (_, path) \<Rightarrow>
     kseq begin_op (
     kbind (nameiparent path) (\<lambda>(r, name). case r of None \<Rightarrow> kseq end_op (ret (- 1)) | Some d \<Rightarrow>
     kseq (ilock (Some d)) (
     if namecmp name (str ''.'') = 0 \<or> namecmp name (str ''..'') = 0 then unlink_bad d
     else
       kbind (dirlookup d name) (\<lambda>r. case r of None \<Rightarrow> unlink_bad d | Some (i, off) \<Rightarrow>
       kseq (ilock (Some i)) (
       kbind (getinode i) (\<lambda>ip.
       if sint (d_nlink ip) < 1 then panic ''unlink: nlink < 1''
       else
         kbind (if d_type ip = T_DIR then isdirempty i else ret True) (\<lambda>e.
         if \<not> e then kseq (iunlockput (Some i)) (unlink_bad d)
         else
           kbind (writei d (Stack (replicate DIRENT_SIZE 0)) (of_nat off) (of_nat DIRENT_SIZE)) (\<lambda>r.
           if r \<noteq> int DIRENT_SIZE then panic ''unlink: writei''
           else
             kseq (kwhen (d_type ip = T_DIR) (
                     kseq (upd_inode d (\<lambda>x. x\<lparr>d_nlink := d_nlink x - 1\<rparr>)) (iupdate d))) (
             kseq (iunlockput (Some d)) (
             kseq (upd_inode i (\<lambda>x. x\<lparr>d_nlink := d_nlink x - 1\<rparr>)) (
             kseq (iupdate i) (
             kseq (iunlockput (Some i)) (
             kseq end_op (ret 0)))))))))))))))"

definition create :: "uchar list \<Rightarrow> ushort \<Rightarrow> ushort \<Rightarrow> ushort \<Rightarrow> ('a filemach_scheme, nat option) K" where
  "create path type major minor =
     kbind (nameiparent path) (\<lambda>(r, name). case r of None \<Rightarrow> ret None | Some d \<Rightarrow>
     kseq (ilock (Some d)) (
     kbind (dirlookup d name) (\<lambda>r.
     case r of
       Some (i, _) \<Rightarrow>
         kseq (iunlockput (Some d)) (
         kseq (ilock (Some i)) (
         kbind (getinode i) (\<lambda>ip.
         if type = T_FILE \<and> d_type ip = T_FILE then ret (Some i)
         else kseq (iunlockput (Some i)) (ret None))))
     | None \<Rightarrow>
         kbind (getinode d) (\<lambda>dp.
         kbind (ialloc (i_dev dp) type) (\<lambda>i.
         kseq (ilock (Some i)) (
         kseq (upd_inode i (\<lambda>x. x\<lparr>d_major := major, d_minor := minor, d_nlink := 1\<rparr>)) (
         kseq (iupdate i) (
         kbind (getinode i) (\<lambda>ip.
         kseq (kwhen (type = T_DIR) (
                 kseq (upd_inode d (\<lambda>x. x\<lparr>d_nlink := d_nlink x + 1\<rparr>)) (
                 kseq (iupdate d) (
                 kbind (dirlink i (str ''.'') (i_inum ip)) (\<lambda>r1.
                 if r1 < 0 then panic ''create dots''
                 else
                   kbind (dirlink i (str ''..'') (i_inum dp)) (\<lambda>r2.
                   if r2 < 0 then panic ''create dots'' else ret ())))))) (
         kbind (dirlink d name (i_inum ip)) (\<lambda>r.
         if r < 0 then panic ''create: dirlink''
         else kseq (iunlockput (Some d)) (ret (Some i)))))))))))))"

definition O_RDONLY :: uint where "O_RDONLY = 0"
definition O_WRONLY :: uint where "O_WRONLY = 1"
definition O_RDWR :: uint where "O_RDWR = 2"
definition O_CREATE :: uint where "O_CREATE = 0x200"

definition open_inode :: "uchar list \<Rightarrow> uint \<Rightarrow> ('a filemach_scheme, nat option) K" where
  "open_inode path omode =
     (if omode AND O_CREATE \<noteq> 0 then create path T_FILE 0 0
      else
        kbind (namei path) (\<lambda>r. case r of None \<Rightarrow> ret None | Some i \<Rightarrow>
        kseq (ilock (Some i)) (
        kbind (getinode i) (\<lambda>ip.
        if d_type ip = T_DIR \<and> omode \<noteq> O_RDONLY
        then kseq (iunlockput (Some i)) (ret None)
        else ret (Some i)))))"

definition open_file :: "nat \<Rightarrow> uint \<Rightarrow> ('a filemach_scheme, int) K" where
  "open_file i omode =
     kbind filealloc (\<lambda>r.
     case r of
       None \<Rightarrow> kseq (iunlockput (Some i)) (kseq end_op (ret (- 1)))
     | Some f \<Rightarrow>
         kbind (fdalloc f) (\<lambda>r.
         case r of
           None \<Rightarrow> kseq (fileclose f) (kseq (iunlockput (Some i)) (kseq end_op (ret (- 1))))
         | Some fd \<Rightarrow>
             kseq (iunlock (Some i)) (
             kseq end_op (
             kseq (upd_file f (\<lambda>x. x\<lparr>f_type := FD_INODE, f_ip := Some i, f_off := 0,
                     f_readable := (omode AND O_WRONLY = 0),
                     f_writable := (omode AND O_WRONLY \<noteq> 0 \<or> omode AND O_RDWR \<noteq> 0)\<rparr>))
                  (ret (int fd))))))"

definition sys_open :: "('a filemach_scheme, int) K" where
  "sys_open =
     kbind (argstr 0) (\<lambda>r. case r of None \<Rightarrow> ret (- 1) | Some (_, path) \<Rightarrow>
     kbind (argint 1) (\<lambda>r. case r of None \<Rightarrow> ret (- 1) | Some omode \<Rightarrow>
     kseq begin_op (
     kbind (open_inode path omode) (\<lambda>r. case r of None \<Rightarrow> kseq end_op (ret (- 1)) | Some i \<Rightarrow>
     open_file i omode))))"

definition sys_mkdir :: "('a filemach_scheme, int) K" where
  "sys_mkdir =
     kseq begin_op (
     kbind (argstr 0) (\<lambda>r. case r of None \<Rightarrow> kseq end_op (ret (- 1)) | Some (_, path) \<Rightarrow>
     kbind (create path T_DIR 0 0) (\<lambda>r. case r of None \<Rightarrow> kseq end_op (ret (- 1)) | Some i \<Rightarrow>
     kseq (iunlockput (Some i)) (kseq end_op (ret 0)))))"

definition sys_mknod :: "('a filemach_scheme, int) K" where
  "sys_mknod =
     kseq begin_op (
     kbind (argstr 0) (\<lambda>r. case r of None \<Rightarrow> kseq end_op (ret (- 1)) | Some (_, path) \<Rightarrow>
     kbind (argint 1) (\<lambda>r. case r of None \<Rightarrow> kseq end_op (ret (- 1)) | Some major \<Rightarrow>
     kbind (argint 2) (\<lambda>r. case r of None \<Rightarrow> kseq end_op (ret (- 1)) | Some minor \<Rightarrow>
     kbind (create path T_DEV (ucast major) (ucast minor)) (\<lambda>r.
     case r of None \<Rightarrow> kseq end_op (ret (- 1)) | Some i \<Rightarrow>
     kseq (iunlockput (Some i)) (kseq end_op (ret 0)))))))"

definition sys_chdir :: "('a filemach_scheme, int) K" where
  "sys_chdir =
     kbind myproc (\<lambda>cp.
     kseq begin_op (
     kbind (argstr 0) (\<lambda>r. case r of None \<Rightarrow> kseq end_op (ret (- 1)) | Some (_, path) \<Rightarrow>
     kbind (namei path) (\<lambda>r. case r of None \<Rightarrow> kseq end_op (ret (- 1)) | Some i \<Rightarrow>
     kseq (ilock (Some i)) (
     kbind (getinode i) (\<lambda>ip.
     if d_type ip \<noteq> T_DIR then kseq (iunlockput (Some i)) (kseq end_op (ret (- 1)))
     else
       kseq (iunlock (Some i)) (
       kbind (getshared cp) (\<lambda>h.
       kseq (iput (sh_cwd h)) (
       kseq end_op (
       kseq (upd_sharedp cp (\<lambda>h. h\<lparr>sh_cwd := Some i\<rparr>)) (ret 0)))))))))))"

primrec sys_exec_args :: "nat \<Rightarrow> uint \<Rightarrow> uchar list list \<Rightarrow> ('a filemach_scheme, uchar list list option) K" where
  "sys_exec_args 0 a acc = ret None"
| "sys_exec_args (Suc n) a acc =
     kbind (fetchint a) (\<lambda>r. case r of None \<Rightarrow> ret None | Some uarg \<Rightarrow>
     if uarg = 0 then ret (Some acc)
     else
       kbind (fetchstr uarg) (\<lambda>r. case r of None \<Rightarrow> ret None | Some (_, bs) \<Rightarrow>
       sys_exec_args n (a + 4) (acc @ [bs])))"

definition sys_exec :: "('a filemach_scheme, int) K" where
  "sys_exec =
     kbind (argstr 0) (\<lambda>r. case r of None \<Rightarrow> ret (- 1) | Some (_, path) \<Rightarrow>
     kbind (argint 1) (\<lambda>r. case r of None \<Rightarrow> ret (- 1) | Some uargv \<Rightarrow>
     kbind (sys_exec_args MAXARG uargv []) (\<lambda>r. case r of None \<Rightarrow> ret (- 1) | Some argv \<Rightarrow>
     exec path argv)))"

definition pipe_bad :: "nat option \<Rightarrow> nat \<Rightarrow> nat \<Rightarrow> ('a filemach_scheme, int) K" where
  "pipe_bad fd0 rfl wfl =
     kbind myproc (\<lambda>p.
     kseq (case fd0 of None \<Rightarrow> ret ()
           | Some fd \<Rightarrow> upd_sharedp p (\<lambda>h. h\<lparr>sh_ofile := (sh_ofile h)(fd := None)\<rparr>)) (
     kseq (fileclose rfl) (
     kseq (fileclose wfl) (ret (- 1)))))"

definition sys_pipe :: "('a filemach_scheme, int) K" where
  "sys_pipe =
     kbind (argptr 0 8) (\<lambda>r. case r of None \<Rightarrow> ret (- 1) | Some fd \<Rightarrow>
     kbind pipealloc (\<lambda>r. case r of None \<Rightarrow> ret (- 1) | Some (rfl, wfl) \<Rightarrow>
     kbind (fdalloc rfl) (\<lambda>r. case r of None \<Rightarrow> pipe_bad None rfl wfl | Some fd0 \<Rightarrow>
     kbind (fdalloc wfl) (\<lambda>r. case r of None \<Rightarrow> pipe_bad (Some fd0) rfl wfl | Some fd1 \<Rightarrow>
     kseq (ustore32 fd (of_nat fd0)) (
     kseq (ustore32 (fd + 4) (of_nat fd1)) (ret 0))))))"

section \<open>Dispatch\<close>

text \<open>The table of system calls, by number (\<^verbatim>\<open>src/syscall.h\<close>).\<close>

definition syscalls :: "nat \<Rightarrow> ('a filemach_scheme, int) K option" where
  "syscalls n =
     (if n < 25
      then
        [None, Some sys_fork, Some sys_exit, Some sys_wait, Some sys_pipe, Some sys_read,
         Some sys_kill, Some sys_exec, Some sys_fstat, Some sys_chdir, Some sys_dup,
         Some sys_getpid, Some sys_sbrk, Some sys_sleep, Some sys_uptime, Some sys_open,
         Some sys_write, Some sys_mknod, Some sys_unlink, Some sys_link, Some sys_mkdir,
         Some sys_close, Some sys_thread_create, Some sys_thread_exit, Some sys_thread_join] ! n
      else None)"

definition syscall :: "('a filemach_scheme, unit) K" where
  "syscall =
     kbind myproc (\<lambda>cp.
     kbind (getproc cp) (\<lambda>q.
     kbind (kget (\<lambda>s. st_tf s (p_tf q))) (\<lambda>tf.
     let num = sint (tf_eax tf) in
     case (if num > 0 then syscalls (nat num) else None) of
       Some f \<Rightarrow>
         kbind f (\<lambda>r.
         kbind (getproc cp) (\<lambda>q.
         upd_tf (p_tf q) (\<lambda>t. t\<lparr>tf_eax := of_int r\<rparr>)))
     | None \<Rightarrow>
         kseq (kprint ''%d %s: unknown sys call %d'')
              (upd_tf (p_tf q) (\<lambda>t. t\<lparr>tf_eax := - 1\<rparr>)))))"

end
