(* ===== verification/Trap.thy ===== *)
theory Trap
  imports Syscall
begin

text \<open>
  Traps and interrupts, \<^verbatim>\<open>src/trap.c\<close>, and the start of the kernel, \<^verbatim>\<open>src/main.c\<close>.

  \<open>trap\<close> ends at the context switch when a timer interrupt makes the process yield; what it does
  when the process runs again is \<open>trap_resume\<close>. The waiting of the boot processor for another
  processor is a loop on that processor's \<^verbatim>\<open>started\<close> flag: it goes on when the flag is set.
\<close>

section \<open>Gates\<close>

definition SETGATE :: "bool \<Rightarrow> uint \<Rightarrow> uint \<Rightarrow> uint \<Rightarrow> gatedesc" where
  "SETGATE istrap sel off d =
     \<lparr>gd_off_15_0 = off AND 0xFFFF, gd_cs = sel, gd_args = 0, gd_rsv1 = 0,
      gd_type = (if istrap then STS_TG32 else STS_IG32), gd_s = 0, gd_dpl = d, gd_p = 1,
      gd_off_31_16 = drop_bit 16 off\<rparr>"

text \<open>The argument is the table of entry points that \<^verbatim>\<open>vectors.pl\<close> generates.\<close>

definition tvinit :: "(nat \<Rightarrow> uint) \<Rightarrow> ('a dmach_scheme, unit) K" where
  "tvinit vectors =
     kseq (kfor (\<lambda>i. upd_dev (\<lambda>d. d\<lparr>dv_idt := (dv_idt d)
             (i := SETGATE False (of_nat (SEG_KCODE * 8)) (vectors i) 0)\<rparr>)) [0..<256]) (
     kseq (upd_dev (\<lambda>d. d\<lparr>dv_idt := (dv_idt d)
             (unat T_SYSCALL := SETGATE True (of_nat (SEG_KCODE * 8)) (vectors (unat T_SYSCALL)) DPL_USER)\<rparr>))
          (initlock TicksLock ''time''))"

definition idtinit :: "('a dmach_scheme, unit) K" where
  "idtinit = kmod (\<lambda>s. s\<lparr>st_dev := (st_dev s)\<lparr>dv_idtr := (dv_idtr (st_dev s))(m_lapicid s := True)\<rparr>\<rparr>)"

section \<open>Traps\<close>

definition exit_if_killed :: "trapframe \<Rightarrow> ('a filemach_scheme, unit) K" where
  "exit_if_killed tf =
     kbind myproc (\<lambda>p.
     kbind (getproc p) (\<lambda>q.
     kwhen (p \<noteq> None \<and> p_killed q \<and> tf_cs tf AND 3 = 3) exit))"

definition trap_syscall :: "addr \<Rightarrow> ('a filemach_scheme, unit) K" where
  "trap_syscall tfa =
     kbind killed (\<lambda>k.
     kseq (kwhen k exit) (
     kbind myproc (\<lambda>p.
     kseq (upd_proc p (\<lambda>q. q\<lparr>p_tf := tfa\<rparr>)) (
     kseq syscall (
     kbind killed (\<lambda>k. kwhen k exit))))))"

definition trap_timer :: "('a filemach_scheme, unit) K" where
  "trap_timer =
     kbind cpuid (\<lambda>c.
     kseq (kwhen (c = 0) (
             kseq (acquire TicksLock) (
             kseq (upd_dev (\<lambda>d. d\<lparr>dv_ticks := dv_ticks d + 1\<rparr>)) (
             kseq (wakeup ChanTicks) (release TicksLock)))))
          lapiceoi)"

definition trap_default :: "trapframe \<Rightarrow> ('a filemach_scheme, unit) K" where
  "trap_default tf =
     kbind myproc (\<lambda>p.
     if p = None \<or> tf_cs tf AND 3 = 0
     then kseq (kprint ''unexpected trap %d from cpu %d eip %x (cr2=0x%x)'') (panic ''trap'')
     else
       kseq (kprint ''pid %d %s: trap %d err %d on cpu %d eip 0x%x addr 0x%x--kill proc'')
            (upd_proc p (\<lambda>q. q\<lparr>p_killed := True\<rparr>)))"

definition trap_resume :: "bool \<Rightarrow> trapframe \<Rightarrow> ('a filemach_scheme, unit) K" where
  "trap_resume intena tf = kseq (yield_resume intena) (exit_if_killed tf)"

definition trap :: "addr \<Rightarrow> ('a filemach_scheme, unit) K" where
  "trap tfa =
     kbind (kget (\<lambda>s. st_tf s tfa)) (\<lambda>tf.
     let n = tf_trapno tf in
     if n = T_SYSCALL then trap_syscall tfa
     else
       kseq (if n = T_IRQ0 + IRQ_TIMER then trap_timer
             else if n = T_IRQ0 + IRQ_IDE then kseq ideintr lapiceoi
             else if n = T_IRQ0 + IRQ_IDE + 1 then ret ()
             else if n = T_IRQ0 + IRQ_KBD then kseq kbdintr lapiceoi
             else if n = T_IRQ0 + IRQ_COM1 then kseq uartintr lapiceoi
             else if n = T_IRQ0 + 7 \<or> n = T_IRQ0 + IRQ_SPURIOUS
             then kseq (kprint ''cpu%d: spurious interrupt at %x:%x'') lapiceoi
             else trap_default tf) (
       kseq (exit_if_killed tf) (
       kbind myproc (\<lambda>p.
       kbind (getproc p) (\<lambda>q.
       kseq (kwhen (p \<noteq> None \<and> p_state q = RUNNING \<and> n = T_IRQ0 + IRQ_TIMER) yield)
            (exit_if_killed tf))))))"

section \<open>Start of the kernel\<close>

definition mpmain :: "('a filemach_scheme, nat) K" where
  "mpmain =
     kseq (kprint ''cpu%d: starting %d'') (
     kseq idtinit (
     kbind mycpu (\<lambda>c.
     kseq (upd_cpu c (\<lambda>k. k\<lparr>c_started := True\<rparr>)) scheduler_enter)))"

definition mpenter :: "('a filemach_scheme, nat) K" where
  "mpenter = kseq switchkvm (kseq seginit (kseq lapicinit mpmain))"

text \<open>
  Starting processor \<open>c\<close>: the arguments are the addresses of \<open>mpenter\<close> and \<^verbatim>\<open>entrypgdir\<close>. The
  wait for the processor ends when it has set its flag, which \<open>mpmain\<close> does on that processor.
\<close>

definition startother :: "addr \<Rightarrow> addr \<Rightarrow> nat \<Rightarrow> ('a filemach_scheme, unit) K" where
  "startother enter entrydir c =
     kbind mycpu (\<lambda>me.
     kwhen (c \<noteq> me) (
       kbind kalloc (\<lambda>stack.
       let code = P2V 0x7000 in
       kseq (kstore32 (code - 4) (stack + KSTACKSIZE)) (
       kseq (kstore32 (code - 8) enter) (
       kseq (kstore32 (code - 12) (V2P entrydir)) (
       kbind (kget (\<lambda>s. c_apicid (m_cpus s c))) (\<lambda>a.
       kseq (lapicstartap a (V2P code)) (
       kbind (kget (\<lambda>s. c_started (m_cpus s c))) (\<lambda>st.
       if st then ret () else kstop Diverge)))))))))"

definition startothers :: "addr \<Rightarrow> addr \<Rightarrow> addr \<Rightarrow> uint \<Rightarrow> ('a filemach_scheme, unit) K" where
  "startothers enter entrydir start sz =
     kseq (kmemmove (P2V 0x7000) start sz) (
     kbind (kget m_ncpu) (\<lambda>n. kfor (startother enter entrydir) [0..<n]))"

record boot_image =
  bi_vectors :: "nat \<Rightarrow> uint"
  bi_disk :: "nat \<Rightarrow> uchar list"
  bi_disksize :: nat
  bi_uart_lsr :: uchar
  bi_mpenter :: addr
  bi_entrypgdir :: addr
  bi_entryother :: addr
  bi_entryother_size :: uint
  bi_initcode :: addr
  bi_initcode_size :: uint

text \<open>The boot processor up to its scheduler, on what the linker and the hardware provide.\<close>

definition main :: "boot_image \<Rightarrow> ('a filemach_scheme, nat) K" where
  "main bi =
     kbind (kget st_end) (\<lambda>e.
     kseq (kinit1 e (P2V 0x400000)) (
     kseq kvmalloc (
     kseq mpinit (
     kseq lapicinit (
     kseq seginit (
     kseq picinit (
     kseq ioapicinit (
     kseq consoleinit (
     kseq (uartinit (bi_uart_lsr bi)) (
     kseq pinit (
     kseq (tvinit (bi_vectors bi)) (
     kseq binit (
     kseq fileinit (
     kseq (ideinit (bi_disk bi) (bi_disksize bi)) (
     kseq (startothers (bi_mpenter bi) (bi_entrypgdir bi) (bi_entryother bi) (bi_entryother_size bi)) (
     kseq (kinit2 (P2V 0x400000) (P2V PHYSTOP)) (
     kseq (userinit (bi_initcode bi) (bi_initcode_size bi)) mpmain)))))))))))))))))"

end
