(* ===== verification/Ide.thy ===== *)
theory Ide
  imports Devices
begin

text \<open>
  The driver of a real disk, \<^verbatim>\<open>src/ide.c\<close>. Requests wait in a queue that is linked through the
  buffers (\<^verbatim>\<open>qnext\<close>); its first element is the one the disk works on. \<open>ide_rw_loop\<close> is the wait of
  \<open>iderw\<close> from its head on, which the process enters again after \<open>sleep_resume\<close>.

  The disk is what it is told and what it answers: \<open>id_io\<close> is the history of the commands and data
  written to its ports, \<open>id_status\<close> the answers of its status port to come, \<open>id_data\<close> the data it
  returns for the reads to come.
\<close>

section \<open>State\<close>

datatype ideio = PortOut uint uint | DataOut "uchar list"

record idemach = dmach +
  id_queue :: "nat option"
  id_havedisk1 :: bool
  id_io :: "ideio list"
  id_status :: "uchar list"
  id_data :: "uchar list list"

definition IDE_BSY :: uchar where "IDE_BSY = 0x80"
definition IDE_DRDY :: uchar where "IDE_DRDY = 0x40"
definition IDE_DF :: uchar where "IDE_DF = 0x20"
definition IDE_ERR :: uchar where "IDE_ERR = 0x01"
definition IDE_CMD_READ :: uint where "IDE_CMD_READ = 0x20"
definition IDE_CMD_WRITE :: uint where "IDE_CMD_WRITE = 0x30"
definition IDE_CMD_RDMUL :: uint where "IDE_CMD_RDMUL = 0xC4"
definition IDE_CMD_WRMUL :: uint where "IDE_CMD_WRMUL = 0xC5"
definition SECTOR_SIZE :: nat where "SECTOR_SIZE = 512"

definition ide_out :: "ideio \<Rightarrow> ('a idemach_scheme, unit) K" where
  "ide_out x = kmod (\<lambda>s. s\<lparr>id_io := id_io s @ [x]\<rparr>)"

section \<open>Operations\<close>

text \<open>The wait for the disk: it runs on for as long as the status port says busy.\<close>

fun ready_at :: "uchar list \<Rightarrow> (uchar \<times> uchar list) option" where
  "ready_at [] = None"
| "ready_at (r # rs) = (if r AND (IDE_BSY OR IDE_DRDY) = IDE_DRDY then Some (r, rs) else ready_at rs)"

definition idewait :: "bool \<Rightarrow> ('a idemach_scheme, int) K" where
  "idewait checkerr =
     kbind (kget (\<lambda>s. ready_at (id_status s))) (\<lambda>a.
     case a of None \<Rightarrow> kstop Diverge
     | Some (r, rs) \<Rightarrow>
         kseq (kmod (\<lambda>s. s\<lparr>id_status := rs\<rparr>))
              (ret (if checkerr \<and> r AND (IDE_DF OR IDE_ERR) \<noteq> 0 then - 1 else 0)))"

text \<open>The probe for the second disk: up to 1000 reads of the status port.\<close>

definition ide_init :: "('a idemach_scheme, unit) K" where
  "ide_init =
     kseq (initlock IdeLock ''ide'') (
     kseq (kbind (kget m_ncpu) (\<lambda>n. ioapicenable IRQ_IDE (of_nat (n - 1)))) (
     kseq (idewait False) (
     kseq (ide_out (PortOut 0x1F6 (0xE0 OR push_bit 4 1))) (
     kbind (kget (\<lambda>s. take 1000 (id_status s))) (\<lambda>st.
     let z = takeWhile (\<lambda>b. b = 0) st in
     kseq (kmod (\<lambda>s. s\<lparr>id_havedisk1 := id_havedisk1 s \<or> length z < length st,
                      id_status := drop (min (length z + 1) (length st)) (id_status s)\<rparr>))
          (ide_out (PortOut 0x1F6 0xE0)))))))"

definition idestart :: "nat option \<Rightarrow> ('a idemach_scheme, unit) K" where
  "idestart p = (case p of None \<Rightarrow> panic ''idestart'' | Some i \<Rightarrow>
     kbind (getbuf i) (\<lambda>b.
     if b_blockno b \<ge> FSSIZE then panic ''incorrect blockno''
     else
       let spb = BSIZE div SECTOR_SIZE;
           sector = of_nat (b_blockno b * spb) :: uint;
           read_cmd = (if spb = 1 then IDE_CMD_READ else IDE_CMD_RDMUL);
           write_cmd = (if spb = 1 then IDE_CMD_WRITE else IDE_CMD_WRMUL) in
       if spb > 7 then panic ''idestart''
       else
         kseq (idewait False) (
         kseq (ide_out (PortOut 0x3F6 0)) (
         kseq (ide_out (PortOut 0x1F2 (of_nat spb))) (
         kseq (ide_out (PortOut 0x1F3 (sector AND 0xFF))) (
         kseq (ide_out (PortOut 0x1F4 (drop_bit 8 sector AND 0xFF))) (
         kseq (ide_out (PortOut 0x1F5 (drop_bit 16 sector AND 0xFF))) (
         kseq (ide_out (PortOut 0x1F6 (0xE0 OR push_bit 4 (of_nat (b_dev b) AND 1)
                 OR (drop_bit 24 sector AND 0x0F)))) (
         if b_dirty b
         then kseq (ide_out (PortOut 0x1F7 write_cmd)) (ide_out (DataOut (b_data b)))
         else ide_out (PortOut 0x1F7 read_cmd))))))))))"

definition ide_intr :: "('a idemach_scheme, unit) K" where
  "ide_intr =
     kseq (acquire IdeLock) (
     kbind (kget id_queue) (\<lambda>q.
     case q of None \<Rightarrow> release IdeLock
     | Some i \<Rightarrow>
         kbind (getbuf i) (\<lambda>b.
         kseq (kmod (\<lambda>s. s\<lparr>id_queue := b_qnext b\<rparr>)) (
         kseq (kwhen (\<not> b_dirty b) (
                 kbind (idewait True) (\<lambda>r.
                 kwhen (r \<ge> 0) (
                   kbind (kget id_data) (\<lambda>ds.
                   kseq (upd_buf i (\<lambda>b. b\<lparr>b_data := (case ds of [] \<Rightarrow> b_data b | d # _ \<Rightarrow> d)\<rparr>))
                        (kmod (\<lambda>s. s\<lparr>id_data := drop 1 (id_data s)\<rparr>))))))) (
         kseq (upd_buf i (\<lambda>b. b\<lparr>b_valid := True, b_dirty := False\<rparr>)) (
         kseq (wakeup (ChanBuf i)) (
         kbind (kget id_queue) (\<lambda>q.
         kseq (kwhen (q \<noteq> None) (idestart q)) (release IdeLock)))))))))"

text \<open>
  Walking to the end of the queue: the buffer whose \<^verbatim>\<open>qnext\<close> is null, or \<open>None\<close> for the variable
  \<^verbatim>\<open>idequeue\<close> itself. The fuel is the number of buffers, which bounds the length of the queue.
\<close>

primrec queue_end :: "nat \<Rightarrow> (nat \<Rightarrow> buf) \<Rightarrow> nat \<Rightarrow> nat option" where
  "queue_end 0 bs i = None"
| "queue_end (Suc n) bs i = (case b_qnext (bs i) of None \<Rightarrow> Some i | Some j \<Rightarrow> queue_end n bs j)"

definition ide_append :: "nat \<Rightarrow> ('a idemach_scheme, unit) K" where
  "ide_append i =
     kbind (kget id_queue) (\<lambda>q.
     case q of None \<Rightarrow> kmod (\<lambda>s. s\<lparr>id_queue := Some i\<rparr>)
     | Some h \<Rightarrow>
         kbind (kget (\<lambda>s. queue_end NBUF (st_bufs s) h)) (\<lambda>e.
         case e of None \<Rightarrow> kstop Diverge
         | Some t \<Rightarrow> upd_buf t (\<lambda>b. b\<lparr>b_qnext := Some i\<rparr>)))"

definition ide_rw_loop :: "nat \<Rightarrow> ('a idemach_scheme, unit) K" where
  "ide_rw_loop i =
     kbind (getbuf i) (\<lambda>b.
     if \<not> (b_valid b \<and> \<not> b_dirty b) then sleep (ChanBuf i) IdeLock
     else release IdeLock)"

definition ide_rw :: "nat \<Rightarrow> ('a idemach_scheme, unit) K" where
  "ide_rw i =
     kbind (holdingsleep (BufSL i)) (\<lambda>h.
     if \<not> h then panic ''iderw: buf not locked''
     else
       kbind (getbuf i) (\<lambda>b.
       if b_valid b \<and> \<not> b_dirty b then panic ''iderw: nothing to do''
       else
         kbind (kget id_havedisk1) (\<lambda>d1.
         if b_dev b \<noteq> 0 \<and> \<not> d1 then panic ''iderw: ide disk 1 not present''
         else
           kseq (acquire IdeLock) (
           kseq (upd_buf i (\<lambda>b. b\<lparr>b_qnext := None\<rparr>)) (
           kseq (ide_append i) (
           kbind (kget id_queue) (\<lambda>q.
           kseq (kwhen (q = Some i) (idestart (Some i))) (ide_rw_loop i))))))))"

section \<open>Frame\<close>

lemma ide_frame [simp]:
  "cpuno (s\<lparr>id_queue := x\<rparr>) = cpuno s" "cur (s\<lparr>id_queue := x\<rparr>) = cur s"
  "cpu_ok (s\<lparr>id_queue := x\<rparr>) = cpu_ok s" "lock_free (s\<lparr>id_queue := x\<rparr>) l = lock_free s l"
  "holds (s\<lparr>id_queue := x\<rparr>) c l = holds s c l" "IF_on (s\<lparr>id_queue := x\<rparr>) = IF_on s"
  "cpuno (s\<lparr>id_havedisk1 := y\<rparr>) = cpuno s" "cur (s\<lparr>id_havedisk1 := y\<rparr>) = cur s"
  "cpu_ok (s\<lparr>id_havedisk1 := y\<rparr>) = cpu_ok s" "lock_free (s\<lparr>id_havedisk1 := y\<rparr>) l = lock_free s l"
  "holds (s\<lparr>id_havedisk1 := y\<rparr>) c l = holds s c l" "IF_on (s\<lparr>id_havedisk1 := y\<rparr>) = IF_on s"
  "cpuno (s\<lparr>id_io := z\<rparr>) = cpuno s" "cur (s\<lparr>id_io := z\<rparr>) = cur s"
  "cpu_ok (s\<lparr>id_io := z\<rparr>) = cpu_ok s" "lock_free (s\<lparr>id_io := z\<rparr>) l = lock_free s l"
  "holds (s\<lparr>id_io := z\<rparr>) c l = holds s c l" "IF_on (s\<lparr>id_io := z\<rparr>) = IF_on s"
  "cpuno (s\<lparr>id_status := u\<rparr>) = cpuno s" "cur (s\<lparr>id_status := u\<rparr>) = cur s"
  "cpu_ok (s\<lparr>id_status := u\<rparr>) = cpu_ok s" "lock_free (s\<lparr>id_status := u\<rparr>) l = lock_free s l"
  "holds (s\<lparr>id_status := u\<rparr>) c l = holds s c l" "IF_on (s\<lparr>id_status := u\<rparr>) = IF_on s"
  "cpuno (s\<lparr>id_data := v\<rparr>) = cpuno s" "cur (s\<lparr>id_data := v\<rparr>) = cur s"
  "cpu_ok (s\<lparr>id_data := v\<rparr>) = cpu_ok s" "lock_free (s\<lparr>id_data := v\<rparr>) l = lock_free s l"
  "holds (s\<lparr>id_data := v\<rparr>) c l = holds s c l" "IF_on (s\<lparr>id_data := v\<rparr>) = IF_on s"
  by (simp_all add: cpuno_def cur_def cpu_ok_def lock_free_def holds_def IF_on_def)

lemma acquired_ide [kframe]:
  "(acquired l s)\<lparr>id_queue := x\<rparr> = acquired l (s\<lparr>id_queue := x\<rparr>)"
  "(acquired l s)\<lparr>id_havedisk1 := y\<rparr> = acquired l (s\<lparr>id_havedisk1 := y\<rparr>)"
  "(acquired l s)\<lparr>id_io := z\<rparr> = acquired l (s\<lparr>id_io := z\<rparr>)"
  "(acquired l s)\<lparr>id_status := u\<rparr> = acquired l (s\<lparr>id_status := u\<rparr>)"
  "(acquired l s)\<lparr>id_data := v\<rparr> = acquired l (s\<lparr>id_data := v\<rparr>)"
  by (simp_all add: acquired_def pushed_def IF_on_def)

lemma acquired_ide_sel [simp]:
  "id_queue (acquired l s) = id_queue s"
  "id_havedisk1 (acquired l s) = id_havedisk1 s"
  "id_io (acquired l s) = id_io s"
  "id_status (acquired l s) = id_status s"
  "id_data (acquired l s) = id_data s"
  by (simp_all add: acquired_def pushed_def)

end
