(* ===== verification/Threads.thy ===== *)
theory Threads
  imports Proc
begin

text \<open>
  What threads promise to each other: the life of a thread from \<open>thread_create\<close> through
  \<open>thread_exit\<close> to the \<open>thread_join\<close> of its master, with the scheduler in between.
\<close>

section \<open>Frame\<close>

definition set_shared :: "addr \<Rightarrow> (sharedData \<Rightarrow> sharedData) \<Rightarrow> 'a pmach_scheme \<Rightarrow> 'a pmach_scheme" where
  "set_shared a f s = s\<lparr>st_shared := (st_shared s)(a := f (st_shared s a))\<rparr>"

lemma shared_frame [simp]:
  "cpuno (s\<lparr>st_shared := h\<rparr>) = cpuno s" "cur (s\<lparr>st_shared := h\<rparr>) = cur s"
  by (simp_all add: cpuno_def cur_def)

lemma set_shared_simps [simp]:
  "cpuno (set_shared a f s) = cpuno s" "cur (set_shared a f s) = cur s" "cpu_ok (set_shared a f s) = cpu_ok s"
  "lock_free (set_shared a f s) l = lock_free s l" "holds (set_shared a f s) c l = holds s c l"
  "m_cpus (set_shared a f s) = m_cpus s" "st_procs (set_shared a f s) = st_procs s" "IF_on (set_shared a f s) = IF_on s"
  "m_mem (set_shared a f s) = m_mem s" "m_locks (set_shared a f s) = m_locks s"
  "st_shared (set_shared a f s) = (st_shared s)(a := f (st_shared s a))"
  by (simp_all add: set_shared_def cpuno_def cur_def cpu_ok_def lock_free_def holds_def IF_on_def)

lemma set_proc_rest [simp]:
  "m_locks (set_proc i f s) = m_locks s" "IF_on (set_proc i f s) = IF_on s" "m_mem (set_proc i f s) = m_mem s"
  "st_shared (set_proc i f s) = st_shared s" "st_kmem (set_proc i f s) = st_kmem s" "st_end (set_proc i f s) = st_end s"
  "curdir (set_proc i f s) = curdir s" "kmem_ready (set_proc i f s) = kmem_ready s"
  by (simp_all add: set_proc_def IF_on_def curdir_def kmem_ready_def)

lemma set_shared_rest [simp]:
  "st_kmem (set_shared a f s) = st_kmem s" "st_end (set_shared a f s) = st_end s"
  "curdir (set_shared a f s) = curdir s" "kmem_ready (set_shared a f s) = kmem_ready s"
  by (simp_all add: curdir_def kmem_ready_def) (simp_all add: set_shared_def)

lemma acquired_set_shared [kframe]: "set_shared a f (acquired l s) = acquired l (set_shared a f s)"
  by (simp add: set_shared_def acquired_def pushed_def IF_on_def)

lemma upd_shared_run [krun]: "upd_shared a f s = Ret () (set_shared a f s)"
  by (simp add: upd_shared_def set_shared_def)

lemma upd_sharedp_run [krun]:
  "upd_sharedp (Some i) f s = Ret () (set_shared (p_sharePtr (st_procs s i)) f s)"
  by (simp add: upd_sharedp_def getproc_def kbind_run procp_def upd_shared_run)

lemma getproc_run [krun]: "getproc (Some i) s = Ret (st_procs s i) s"
  by (simp add: getproc_def procp_def)

lemma getshared_run [krun]: "getshared (Some i) s = Ret (st_shared s (p_sharePtr (st_procs s i))) s"
  by (simp add: getshared_def sharedp_def procp_def)

lemma wakeup1_woken [krun]: "wakeup1 ch s = Ret () (woken ch s)"
  by (simp add: wakeup1_run woken_def)

lemma woken_procs:
  "p_orderOfThread (st_procs (woken ch s) i) = p_orderOfThread (st_procs s i)"
  "p_sharePtr (st_procs (woken ch s) i) = p_sharePtr (st_procs s i)"
  "p_parent (st_procs (woken ch s) i) = p_parent (st_procs s i)"
  "p_imMaster (st_procs (woken ch s) i) = p_imMaster (st_procs s i)"
  "p_kstack (st_procs (woken ch s) i) = p_kstack (st_procs s i)"
  "p_killed (st_procs (woken ch s) i) = p_killed (st_procs s i)"
  "p_retval (st_procs (woken ch s) i) = p_retval (st_procs s i)"
  "p_pid (st_procs (woken ch s) i) = p_pid (st_procs s i)"
  "st_shared (woken ch s) = st_shared s" "st_kmem (woken ch s) = st_kmem s" "st_end (woken ch s) = st_end s"
  by (simp_all add: woken_def)

section \<open>Leaving\<close>

text \<open>A thread that has changed its state gives up the CPU for the reason its state says.\<close>

lemma sched_run:
  assumes "running i s" "lock_free s PtableLock" "p_state (st_procs s i) \<noteq> RUNNING"
  shows "sched (acquired PtableLock s) = Stop (switch_reason (st_procs s i)) (acquired PtableLock s)"
  using assms cpu_okD [of "acquired PtableLock s"]
  by (simp add: running_def sched_def kbind_run myproc_run holding_run mycpu_run readeflags_IF_def
      procp_def flip: IF_on_def)

text \<open>The state after a thread has left with a return value.\<close>

definition left :: "nat \<Rightarrow> uint \<Rightarrow> 'a filemach_scheme \<Rightarrow> 'a filemach_scheme" where
  "left i v s = set_proc i (\<lambda>q. q\<lparr>p_state := ZOMBIE, p_retval := v\<rparr>)
     (set_shared (p_sharePtr (st_procs s i))
       (\<lambda>h. h\<lparr>sh_isThere := (sh_isThere h)(nat (p_orderOfThread (st_procs s i)) := 0)\<rparr>)
       (woken (exit_chan s (Some i)) s))"

lemma exit_chan_acquired [simp]: "exit_chan (acquired l s) p = exit_chan s p"
  by (simp add: exit_chan_def)

lemma thread_exit_run:
  fixes s :: "'a filemach_scheme"
  assumes "running i s" "lock_free s PtableLock"
  shows "thread_exit v s = Stop Noreturn (acquired PtableLock (left i v s))"
proof -
  have ok: "cpu_ok s" "c_proc (m_cpus s (cur s)) = Some i" using assms(1) by (simp_all add: running_def)
  have r: "running i (left i v s)" "lock_free (left i v s) PtableLock"
    using assms by (simp_all add: left_def running_def)
  have "sched (acquired PtableLock (left i v s)) = Stop Noreturn (acquired PtableLock (left i v s))"
    using sched_run [OF r] by (simp add: left_def switch_reason_def)
  moreover have "set_proc i (\<lambda>q. q\<lparr>p_retval := v\<rparr>) (set_proc i (\<lambda>q. q\<lparr>p_state := ZOMBIE\<rparr>) u)
      = set_proc i (\<lambda>q. q\<lparr>p_state := ZOMBIE, p_retval := v\<rparr>) u" for u :: "'a filemach_scheme"
    by (simp add: set_proc_def)
  ultimately show ?thesis
    using ok assms(2)
    by (simp add: thread_exit_def kbind_run kseq_run myproc_run acquire_ok wakeup1_woken getproc_run upd_sharedp_run
        upd_proc_run kframe woken_procs flip: left_def)
qed

section \<open>Back in the scheduler\<close>

definition cpu_idled :: "'a pmach_scheme \<Rightarrow> 'a pmach_scheme" where
  "cpu_idled s = s\<lparr>m_cr3 := (m_cr3 s)(m_lapicid s := V2P (st_kpgdir s)),
     m_cpus := (m_cpus s)(cur s := (m_cpus s (cur s))\<lparr>c_proc := None\<rparr>)\<rparr>"

lemma cpuno_idled [simp]: "cpuno (cpu_idled s) = cpuno s"
  by (rule cpuno_cong) (simp_all add: cpu_idled_def)

lemma cpu_idled_simps [simp]:
  "cur (cpu_idled s) = cur s" "m_locks (cpu_idled s) = m_locks s" "m_mem (cpu_idled s) = m_mem s"
  "c_ncli (m_cpus (cpu_idled s) c) = c_ncli (m_cpus s c)" "c_intena (m_cpus (cpu_idled s) c) = c_intena (m_cpus s c)"
  "st_procs (cpu_idled s) = st_procs s" "st_shared (cpu_idled s) = st_shared s" "st_kmem (cpu_idled s) = st_kmem s"
  "st_end (cpu_idled s) = st_end s" "IF_on (cpu_idled s) = IF_on s" "m_lapicid (cpu_idled s) = m_lapicid s"
  by (simp_all add: cur_def) (simp_all add: cpu_idled_def IF_on_def)

lemma cpu_idled_ok [simp]: "cpu_ok (cpu_idled s) = cpu_ok s" "holds (cpu_idled s) c l = holds s c l"
  "lock_free (cpu_idled s) l = lock_free s l"
  by (simp_all add: cpu_ok_def holds_def lock_free_def)

lemma scheduler_back_run: "scheduler_back (cur s) s = Ret () (cpu_idled s)"
  by (simp add: scheduler_back_def kseq_run kbind_run switchkvm_def lcr3_def upd_cpu_def cpu_idled_def)

lemma given_cpu:
  fixes s :: "'a pmach_scheme" and j :: nat
  defines "u \<equiv> s\<lparr>m_cpus := (m_cpus s)(cur s := (m_cpus s (cur s))\<lparr>c_proc := Some j\<rparr>)\<rparr>"
  shows "cpuno u = cpuno s" "cur u = cur s" "m_locks u = m_locks s" "IF_on u = IF_on s"
    "c_ncli (m_cpus u c) = c_ncli (m_cpus s c)" "c_intena (m_cpus u c) = c_intena (m_cpus s c)"
proof -
  show c: "cpuno u = cpuno s" unfolding u_def by (rule cpuno_cong) simp_all
  then show "cur u = cur s" by (simp add: cur_def)
qed (simp_all add: u_def IF_on_def)

lemma dispatched_simps:
  "cur (dispatched j s) = cur s" "m_locks (dispatched j s) = m_locks s" "IF_on (dispatched j s) = IF_on s"
  "c_ncli (m_cpus (dispatched j s) c) = c_ncli (m_cpus s c)" "c_intena (m_cpus (dispatched j s) c) = c_intena (m_cpus s c)"
  "cpu_ok (dispatched j s) = cpu_ok s" "holds (dispatched j s) c l = holds s c l" "lock_free (dispatched j s) l = lock_free s l"
  "c_proc (m_cpus (dispatched j s) (cur s)) = Some j"
  "st_procs (dispatched j s) = (st_procs s)(j := (st_procs s j)\<lparr>p_state := RUNNING\<rparr>)"
  "st_shared (dispatched j s) = st_shared s" "m_mem (dispatched j s) = m_mem s" "st_kmem (dispatched j s) = st_kmem s"
  "st_end (dispatched j s) = st_end s" "curdir (dispatched j s) = P2V (V2P (sh_pgdir (sharedp s (Some j))))"
proof -
  note g = given_cpu [of s j]
  show a: "cur (dispatched j s) = cur s" "m_locks (dispatched j s) = m_locks s" "IF_on (dispatched j s) = IF_on s"
    "c_ncli (m_cpus (dispatched j s) c) = c_ncli (m_cpus s c)" "c_intena (m_cpus (dispatched j s) c) = c_intena (m_cpus s c)" for c
    using g by (simp_all add: dispatched_def)
  have "cpuno (dispatched j s) = cpuno s" using g by (simp add: dispatched_def)
  then show "cpu_ok (dispatched j s) = cpu_ok s" "holds (dispatched j s) c l = holds s c l" "lock_free (dispatched j s) l = lock_free s l"
    using a by (simp_all add: cpu_ok_def holds_def lock_free_def)
  show "c_proc (m_cpus (dispatched j s) (cur s)) = Some j" by (simp add: dispatched_def)
  show "curdir (dispatched j s) = P2V (V2P (sh_pgdir (sharedp s (Some j))))"
    by (simp add: dispatched_def curdir_def set_proc_def uvm_loaded_def sharedp_def procp_def)
qed (simp_all add: dispatched_def set_proc_def uvm_loaded_def)

lemma scheduler_next_dispatched:
  assumes "cpu_ok s" "holds s (cur s) PtableLock" "0 < c_ncli (m_cpus s (cur s))"
    "find (runnable s) [Suc i..<NPROC] = Some j" "\<forall>k<NPROC. runnable s k \<longrightarrow> bootable s k"
  shows "scheduler_next (cur s) i s = Ret (Some j) (dispatched j (cpu_idled s))"
proof -
  have e: "runnable (cpu_idled s) = runnable s" "bootable (cpu_idled s) = bootable s"
    by (simp_all add: fun_eq_iff runnable_def bootable_def sharedp_def procp_def)
  have "scheduler_scan (cur (cpu_idled s)) [Suc i..<NPROC] (cpu_idled s) = (case find (runnable (cpu_idled s)) [Suc i..<NPROC] of
     Some i \<Rightarrow> Ret (Some i) (dispatched i (cpu_idled s)) | None \<Rightarrow> Ret None (released PtableLock (cpu_idled s)))"
    using assms e by (intro scheduler_scan_run) simp_all
  then show ?thesis using assms(4) e by (simp add: scheduler_next_def kseq_run scheduler_back_run)
qed

section \<open>Joining\<close>

definition join_reset :: "proc \<Rightarrow> proc" where
  "join_reset q = q\<lparr>p_retval := 0, p_kstack := 0, p_state := UNUSED, p_pid := 0, p_parent := None, p_killed := False,
     p_name := [], p_imMaster := False, p_orderOfThread := 0, p_sharePtr := 0, p_stack := 0\<rparr>"

definition freed :: "addr \<Rightarrow> 'a kmach_scheme \<Rightarrow> 'a kmach_scheme" where
  "freed v s = s\<lparr>m_mem := store32 (memset (m_mem s) v 1 PGSIZE) v (km_freelist (st_kmem s)),
     st_kmem := (st_kmem s)\<lparr>km_freelist := v\<rparr>\<rparr>"

definition joined :: "nat \<Rightarrow> nat \<Rightarrow> 'a filemach_scheme \<Rightarrow> 'a filemach_scheme" where
  "joined i j s = set_proc i join_reset (set_shared (p_sharePtr (st_procs s j))
     (\<lambda>h. h\<lparr>sh_numOfThread := sh_numOfThread h - 1\<rparr>) (freed (p_kstack (st_procs s i)) s))"

lemma kfree_freed: "kmem_ready s \<Longrightarrow> kpage (st_end s) v \<Longrightarrow> kfree v s = Ret () (freed v s)"
  by (simp add: kfree_run freed_def)

lemma set_proc_commute:
  "freed v (set_proc i f s) = set_proc i f (freed v s)" "set_shared a g (set_proc i f s) = set_proc i f (set_shared a g s)"
  "set_proc i f (set_proc i h s) = set_proc i (f \<circ> h) s"
  by (simp_all add: freed_def set_proc_def set_shared_def)

lemma freed_simps [simp]:
  "cpu_ok (freed v s) = cpu_ok s" "cur (freed v s) = cur s" "holds (freed v s) c l = holds s c l" "m_cpus (freed v s) = m_cpus s"
  "st_procs (freed v s) = st_procs s" "st_shared (freed v s) = st_shared s" "m_locks (freed v s) = m_locks s"
  "km_freelist (st_kmem (freed v s)) = v" "lock_free (freed v s) l = lock_free s l"
  by (simp_all add: freed_def cpu_ok_def cur_def cpuno_def holds_def IF_on_def lock_free_def)

lemma joined_simps [simp]:
  "cpu_ok (joined i j s) = cpu_ok s" "cur (joined i j s) = cur s" "holds (joined i j s) c l = holds s c l"
  "m_cpus (joined i j s) = m_cpus s" "st_procs (joined i j s) = (st_procs s)(i := join_reset (st_procs s i))"
  "st_shared (joined i j s) = (let a = p_sharePtr (st_procs s j) in
     (st_shared s)(a := (st_shared s a)\<lparr>sh_numOfThread := sh_numOfThread (st_shared s a) - 1\<rparr>))"
  "km_freelist (st_kmem (joined i j s)) = p_kstack (st_procs s i)"
  by (simp_all add: joined_def Let_def) (simp add: set_proc_def)

lemma joined_mem:
  "kpage (st_end s) (p_kstack (st_procs s i)) \<Longrightarrow> PGROUNDDOWN b \<noteq> p_kstack (st_procs s i) \<Longrightarrow> m_mem (joined i j s) b = m_mem s b"
  using kfree_other_page [of "st_end s" "p_kstack (st_procs s i)" b "m_mem s" 1] by (simp add: joined_def freed_def page_eq_def)

lemma thread_join_loop_run:
  fixes d :: "'a filemach_scheme"
  assumes "kmem_ready d" "holds d (cur d) PtableLock" "0 < c_ncli (m_cpus d (cur d))" "i \<noteq> j"
    "find (joinable d (Some j) thr) [0..<NPROC] = Some i" "kpage (st_end d) (p_kstack (st_procs d i))"
    "if r = 0 then w = d else ustore32 r (p_retval (st_procs d i)) d = Ret () w"
  shows "thread_join_loop (Some j) thr r d = Ret 0 (released PtableLock (joined i j w))"
proof -
  obtain m where m: "w = d\<lparr>m_mem := m\<rparr>"
  proof (cases "r = 0")
    case True
    then have "w = d\<lparr>m_mem := m_mem d\<rparr>" using assms(7) by simp
    then show thesis by (rule that)
  next
    case False
    then show thesis using that assms(7) ustore_mem [of "le_bytes (p_retval (st_procs d i))" r d w] by (auto simp: ustore32_def)
  qed
  have ok: "cpu_ok d" using assms(1) by (simp add: kmem_ready_def)
  have k: "kfree (p_kstack (st_procs d i)) (set_proc i (\<lambda>q. q\<lparr>p_retval := 0\<rparr>) w)
      = Ret () (freed (p_kstack (st_procs d i)) (set_proc i (\<lambda>q. q\<lparr>p_retval := 0\<rparr>) w))"
    using assms(1,6) m by (intro kfree_freed) (simp_all add: kmem_ready_def)
  have u: "kwhen (r \<noteq> 0) (ustore32 r (p_retval (st_procs d i))) d = Ret () w"
    using assms(7) by (simp add: kwhen_run split: if_splits)
  have rel: "release PtableLock (joined i j w) = Ret () (released PtableLock (joined i j w))"
    using ok assms(2,3) m by (intro release_run) (simp_all, simp add: holds_def)
  have "join_reset = (\<lambda>q. q\<lparr>p_sharePtr := 0, p_stack := 0\<rparr>) \<circ> ((\<lambda>q. q\<lparr>p_kstack := 0, p_state := UNUSED, p_pid := 0,
                 p_parent := None, p_killed := False, p_name := [], p_imMaster := False,
                 p_orderOfThread := 0\<rparr>) \<circ> (\<lambda>q. q\<lparr>p_retval := 0\<rparr>))"
    by (simp add: fun_eq_iff join_reset_def)
  then show ?thesis
    using rel u k assms(4,5) m
    by (simp add: thread_join_loop_def kbind_run kseq_run getproc_run upd_proc_run upd_sharedp_run set_proc_commute
        flip: joined_def) (simp add: joined_def set_proc_def o_def fun_upd_def)
qed

lemma cpu_ok_released:
  assumes "cpu_ok s" "0 < c_ncli (m_cpus s (cur s))"
  shows "cpu_ok (released l s)"
proof -
  have c: "cpuno (released l s) = cpuno s" "cur (released l s) = cur s" by (simp_all add: released_def)
  have "IF_on (released l s) = (c_ncli (m_cpus s (cur s)) = 1 \<and> c_intena (m_cpus s (cur s)))"
    using assms by (auto simp: released_def popped_def IF_on_def cpu_ok_def)
  then show ?thesis
    using assms unfolding cpu_ok_def c by (auto simp: m_cpus_released)
qed

lemma running_released:
  assumes "cpu_ok s" "c_ncli (m_cpus s (cur s)) = 1" "c_proc (m_cpus s (cur s)) = Some j"
  shows "running j (released l s)" "lock_free (released l s) l"
proof -
  have "cur (released l s) = cur s" by (simp add: released_def)
  then show "running j (released l s)"
    using assms cpu_ok_released [of s l] by (simp add: running_def m_cpus_released)
  show "lock_free (released l s) l" by (simp add: released_def lock_free_def)
qed

text \<open>Waking up in \<open>sleep\<close> with the table lock as the lock of the condition.\<close>

definition resumed :: "bool \<Rightarrow> nat \<Rightarrow> 'a pmach_scheme \<Rightarrow> 'a pmach_scheme" where
  "resumed ie j s = set_proc j (\<lambda>q. q\<lparr>p_chan := ChanRaw 0\<rparr>)
     (s\<lparr>m_cpus := (m_cpus s)(cur s := (m_cpus s (cur s))\<lparr>c_intena := ie\<rparr>)\<rparr>)"

lemma cpuno_resumed [simp]: "cpuno (resumed ie j s) = cpuno s" "cur (resumed ie j s) = cur s"
proof -
  show "cpuno (resumed ie j s) = cpuno s" by (rule cpuno_cong) (simp_all add: resumed_def set_proc_def)
  then show "cur (resumed ie j s) = cur s" by (simp add: cur_def)
qed

lemma resumed_simps [simp]:
  "m_locks (resumed ie j s) = m_locks s" "IF_on (resumed ie j s) = IF_on s" "m_mem (resumed ie j s) = m_mem s"
  "c_ncli (m_cpus (resumed ie j s) c) = c_ncli (m_cpus s c)" "c_proc (m_cpus (resumed ie j s) c) = c_proc (m_cpus s c)"
  "st_procs (resumed ie j s) = (st_procs s)(j := (st_procs s j)\<lparr>p_chan := ChanRaw 0\<rparr>)"
  "st_shared (resumed ie j s) = st_shared s" "st_kmem (resumed ie j s) = st_kmem s" "st_end (resumed ie j s) = st_end s"
  "holds (resumed ie j s) c l = holds s c l" "lock_free (resumed ie j s) l = lock_free s l" "curdir (resumed ie j s) = curdir s"
  by (simp_all add: resumed_def set_proc_def IF_on_def holds_def lock_free_def curdir_def)

lemma cpu_ok_resumed: "cpu_ok s \<Longrightarrow> 0 < c_ncli (m_cpus s (cur s)) \<Longrightarrow> cpu_ok (resumed ie j s)"
  by (simp add: cpu_ok_def)

lemma sleep_resume_run:
  fixes s :: "'a pmach_scheme"
  assumes "cpu_ok s" "0 < c_ncli (m_cpus s (cur s))" "c_proc (m_cpus s (cur s)) = Some j"
  shows "sleep_resume ie PtableLock s = Ret () (resumed ie j s)"
proof -
  let ?u = "s\<lparr>m_cpus := (m_cpus s)(cur s := (m_cpus s (cur s))\<lparr>c_intena := ie\<rparr>)\<rparr>"
  have c: "cpuno ?u = cpuno s" by (rule cpuno_cong) simp_all
  then have "cur ?u = cur s" by (simp add: cur_def)
  moreover have "cpu_ok ?u" using assms(1,2) c by (simp add: cpu_ok_def cur_def)
  ultimately have "myproc ?u = Ret (Some j) ?u" using myproc_run [of ?u] assms(3) by simp
  then show ?thesis
    using assms cpu_okD [OF assms(1)]
    by (simp add: sleep_resume_def sched_resume_def kseq_run kbind_run mycpu_run upd_cpu_def upd_proc_run kwhen_run resumed_def)
qed

section \<open>Properties\<close>

lemma left_procs:
  "st_procs (left i v s) n = (if n = i then (st_procs s i)\<lparr>p_state := ZOMBIE, p_retval := v\<rparr>
      else if n < NPROC \<and> p_state (st_procs s n) = SLEEPING \<and> p_chan (st_procs s n) = exit_chan s (Some i)
      then (st_procs s n)\<lparr>p_state := RUNNABLE\<rparr> else st_procs s n)"
  by (simp add: left_def woken_def set_proc_def)

lemma left_shared:
  "st_shared (left i v s) = (let a = p_sharePtr (st_procs s i) in (st_shared s)(a := (st_shared s a)
      \<lparr>sh_isThere := (sh_isThere (st_shared s a))(nat (p_orderOfThread (st_procs s i)) := 0)\<rparr>))"
  by (simp add: left_def woken_procs Let_def)

lemma left_simps:
  "m_mem (left i v s) = m_mem s" "st_kmem (left i v s) = st_kmem s" "st_end (left i v s) = st_end s" "cur (left i v s) = cur s"
  "m_cpus (left i v s) = m_cpus s" "lock_free (left i v s) l = lock_free s l" "cpu_ok (left i v s) = cpu_ok s"
  by (simp_all add: left_def woken_procs)

lemma find_upt_from: "a \<le> j \<Longrightarrow> j < b \<Longrightarrow> P j \<Longrightarrow> (\<And>n. a \<le> n \<Longrightarrow> n < j \<Longrightarrow> \<not> P n) \<Longrightarrow> find P [a..<b] = Some j"
  unfolding find_Some_iff by (intro exI [of _ "j - a"]) auto


text \<open>A process of two threads: the master, entry 1, waits for the thread in slot 1, entry 0, which runs.\<close>

definition ex_threads :: filemach where
  "ex_threads = (ex_filemach 1)\<lparr>st_procs := (\<lambda>n. if n = 0 then (ex_proc 2 RUNNING)\<lparr>p_imMaster := False, p_orderOfThread := 1\<rparr>
       else if n = 1 then (ex_proc 1 SLEEPING)\<lparr>p_chan := ChanProc 1\<rparr> else ex_proc 0 UNUSED),
     st_shared := (\<lambda>_. ex_shared\<lparr>sh_pgdir := 0x80000000, sh_numOfThread := 2,
       sh_threads := (\<lambda>n. if n = 0 then Some 1 else if n = 1 then Some 0 else None), sh_isThere := (\<lambda>n. if n < 2 then 1 else 0)\<rparr>)\<rparr>"

lemma ex_threads_simps:
  "st_procs ex_threads n = (if n = 0 then (ex_proc 2 RUNNING)\<lparr>p_imMaster := False, p_orderOfThread := 1\<rparr>
       else if n = 1 then (ex_proc 1 SLEEPING)\<lparr>p_chan := ChanProc 1\<rparr> else ex_proc 0 UNUSED)"
  "st_shared ex_threads a = ex_shared\<lparr>sh_pgdir := 0x80000000, sh_numOfThread := 2,
       sh_threads := (\<lambda>n. if n = 0 then Some 1 else if n = 1 then Some 0 else None), sh_isThere := (\<lambda>n. if n < 2 then 1 else 0)\<rparr>"
  "curdir ex_threads = 0x80000000" "m_mem ex_threads = (\<lambda>_. 7)" "running 0 ex_threads" "cur ex_threads = 0" "lock_free ex_threads l"
  "kmem_ready ex_threads"
proof -
  have "cur (ex_filemach k) = 0" for k using ex_mach_ok by (simp flip: mach_truncate [of "ex_filemach k"] add: ex_filemach_mach)
  from this [of 1] show "cur ex_threads = 0" "lock_free ex_threads l" "kmem_ready ex_threads" "running 0 ex_threads"
    using ex_filemach_ok [of 1]
    by (simp_all add: ex_threads_def kmem_ready_def running_def lock_free_def cpu_ok_def cur_def cpuno_def IF_on_def)
  show "curdir ex_threads = 0x80000000" using ex_curdir [of 1] by (simp add: ex_threads_def curdir_def)
qed (simp_all add: ex_threads_def)

lemma ex_threads_end: "st_end ex_threads = st_end boot_kmach"
  by (simp add: ex_threads_def ex_filemach_def ex_dmach_def ex_fmach_def ex_wmach_def ex_bmach_def ex_smach_def ex_pmach_def
      boot_vmach_def mach.defs kmach.defs vmach.defs pmach.defs smach.defs bmach.defs wmach.defs fmach.defs dmach.defs filemach.defs)

lemma ex_threads_ustore:
  "\<exists>w. ustore32 0x1800 42 ex_threads = Ret () w \<and> m_mem w 0x87070800 = 42"
  using ex_threads_simps(3,4)
  by (simp add: ustore32_def le_bytes_def kseq_run ustore8_run translate_def Let_def load32_def PTE_P_def PTE_W_def PTE_ADDR_def
      P2V_def KERNBASE_def curdir_def PDX_def PTX_def)


lemma kmem_ready_acquired: "kmem_ready s \<Longrightarrow> l \<noteq> KmemLock \<Longrightarrow> kmem_ready (acquired l s)"
  by (simp add: kmem_ready_def)

lemma joinable_acquired [simp]: "joinable (acquired l s) cp thr = joinable s cp thr"
  by (simp add: fun_eq_iff joinable_def)

lemma joined_lock_free [simp]: "lock_free (joined i j s) l = lock_free s l"
  by (simp add: joined_def)

lemma thread_join_run:
  fixes s :: "'a filemach_scheme"
  assumes "running j s" "lock_free s PtableLock" "kmem_ready s" "p_imMaster (st_procs s j)"
    "find (joinable s (Some j) thr) [0..<NPROC] = Some i" "kpage (st_end s) (p_kstack (st_procs s i))"
  shows "thread_join thr 0 s = Ret 0 (joined i j s)"
proof -
  have ok: "cpu_ok s" using assms(1) by (simp add: running_def)
  have "i \<noteq> j" using assms(4,5) by (auto simp: find_upt_Some joinable_def Let_def)
  then have "thread_join_loop (Some j) thr 0 (acquired PtableLock s) = Ret 0 (released PtableLock (joined i j (acquired PtableLock s)))"
    using assms acquired_simps(2,9) [of PtableLock s] cpu_okD(2) [OF ok] kmem_ready_acquired [OF assms(3), of PtableLock]
    by (intro thread_join_loop_run) simp_all
  moreover have "joined i j (acquired PtableLock s) = acquired PtableLock (joined i j s)"
    by (simp add: joined_def freed_def kframe)
  ultimately show ?thesis
    using assms(1,2,4) ok
    by (simp add: thread_join_def running_def kbind_run kseq_run kwhen_run myproc_run getproc_run acquire_ok released_acquired
        joined_lock_free)
qed

text \<open>
  C26. \<open>thread_join\<close> does not look at the process of the thread it reaps. If the first zombie in the table
  with the given number and the caller's parent belongs to another process, the join of that number
  reaps it: it returns 0, frees the other process's thread and counts it off the caller's process,
  while the process it belonged to still counts it.
\<close>

theorem thread_join_reaps_foreign:
  fixes s :: "'a filemach_scheme"
  assumes "running j s" "lock_free s PtableLock" "kmem_ready s" "p_imMaster (st_procs s j)"
    "find (joinable s (Some j) thr) [0..<NPROC] = Some i" "kpage (st_end s) (p_kstack (st_procs s i))"
    "p_sharePtr (st_procs s i) \<noteq> p_sharePtr (st_procs s j)"
  shows "\<exists>t. thread_join thr 0 s = Ret 0 t \<and> p_state (st_procs t i) = UNUSED
    \<and> km_freelist (st_kmem t) = p_kstack (st_procs s i)
    \<and> sh_numOfThread (sharedp t (Some j)) = sh_numOfThread (sharedp s (Some j)) - 1
    \<and> st_shared t (p_sharePtr (st_procs s i)) = st_shared s (p_sharePtr (st_procs s i))"
proof -
  have "i \<noteq> j" using assms(4,5) by (auto simp: find_upt_Some joinable_def Let_def)
  then show ?thesis
    using thread_join_run [OF assms(1-6)] assms(7) by (simp add: join_reset_def sharedp_def procp_def Let_def)
qed

theorem thread_join_reaps_foreign_witness:
  "\<exists>t. thread_join 1 0 (ex_threads\<lparr>st_procs := (st_procs ex_threads)(0 := ex_proc 1 RUNNING,
      5 := (ex_proc 9 ZOMBIE)\<lparr>p_imMaster := False, p_orderOfThread := 1, p_sharePtr := 0x80500000\<rparr>)\<rparr>) = Ret 0 t
     \<and> p_state (st_procs t 5) = UNUSED"
proof -
  let ?s = "ex_threads\<lparr>st_procs := (st_procs ex_threads)(0 := ex_proc 1 RUNNING,
      5 := (ex_proc 9 ZOMBIE)\<lparr>p_imMaster := False, p_orderOfThread := 1, p_sharePtr := 0x80500000\<rparr>)\<rparr>"
  have r: "running 0 ?s" "lock_free ?s PtableLock" "kmem_ready ?s"
    using ex_threads_simps(5,7,8) by (simp_all add: running_def kmem_ready_def)
  have k: "kpage (st_end ?s) 0x80300000"
    by (simp add: ex_threads_end kpage_def pgaligned_def PHYSTOP_def V2P_def KERNBASE_def)
  have f: "find (joinable ?s (Some 0) 1) [0..<NPROC] = Some 5"
    by (auto simp: find_upt_Some NPROC_def joinable_def Let_def procp_def ex_threads_simps ex_proc_def)
  show ?thesis
    using thread_join_reaps_foreign [OF r _ f] k by (simp add: ex_proc_def) blast
qed



end
