(* ===== verification/ThreadCreate.thy ===== *)
theory ThreadCreate
  imports Threads
begin

text \<open>
  The birth of a thread: closed forms of \<open>allocproc\<close> and \<open>thread_create\<close> on a machine with enough free
  pages, and what they promise about the new thread, its stack and its number.
\<close>

section \<open>Frame\<close>

lemma create_frame [simp]:
  "cpuno (s\<lparr>st_nextpid := x\<rparr>) = cpuno s" "cur (s\<lparr>st_nextpid := x\<rparr>) = cur s" "cpu_ok (s\<lparr>st_nextpid := x\<rparr>) = cpu_ok s"
  "lock_free (s\<lparr>st_nextpid := x\<rparr>) l = lock_free s l"
  "cpuno (s\<lparr>st_tf := y\<rparr>) = cpuno s" "cur (s\<lparr>st_tf := y\<rparr>) = cur s" "cpu_ok (s\<lparr>st_tf := y\<rparr>) = cpu_ok s"
  "lock_free (s\<lparr>st_tf := y\<rparr>) l = lock_free s l"
  "cpuno (s\<lparr>st_ctx := z\<rparr>) = cpuno s" "cur (s\<lparr>st_ctx := z\<rparr>) = cur s" "cpu_ok (s\<lparr>st_ctx := z\<rparr>) = cpu_ok s"
  "lock_free (s\<lparr>st_ctx := z\<rparr>) l = lock_free s l"
  by (simp_all add: cpuno_def cur_def cpu_ok_def lock_free_def IF_on_def)

lemma acquired_create [kframe]:
  "(acquired l s)\<lparr>st_nextpid := x\<rparr> = acquired l (s\<lparr>st_nextpid := x\<rparr>)"
  "(acquired l s)\<lparr>st_tf := y\<rparr> = acquired l (s\<lparr>st_tf := y\<rparr>)"
  by (simp_all add: acquired_def pushed_def IF_on_def)

section \<open>A fresh table entry\<close>

definition embryo :: "nat \<Rightarrow> addr \<Rightarrow> 'a filemach_scheme \<Rightarrow> 'a filemach_scheme" where
  "embryo n p s = s\<lparr>st_procs := (st_procs s)(n := (st_procs s n)\<lparr>p_state := EMBRYO, p_pid := st_nextpid s, p_kstack := p,
       p_tf := p + KSTACKSIZE - TF_SIZE, p_context := p + KSTACKSIZE - TF_SIZE - 4 - CTX_SIZE\<rparr>),
     st_nextpid := st_nextpid s + 1, st_kmem := (st_kmem s)\<lparr>km_freelist := load32 (m_mem s) p\<rparr>,
     m_mem := store32 (m_mem s) (p + KSTACKSIZE - TF_SIZE - 4) (st_trapret s),
     st_ctx := (st_ctx s)(p + KSTACKSIZE - TF_SIZE - 4 - CTX_SIZE := zero_ctx\<lparr>cx_eip := st_forkret s\<rparr>)\<rparr>"

lemma embryo_simps [simp]:
  "cpuno (embryo n p s) = cpuno s" "cur (embryo n p s) = cur s" "cpu_ok (embryo n p s) = cpu_ok s"
  "lock_free (embryo n p s) l = lock_free s l" "m_cpus (embryo n p s) = m_cpus s" "st_shared (embryo n p s) = st_shared s"
  "st_tf (embryo n p s) = st_tf s" "st_end (embryo n p s) = st_end s" "curdir (embryo n p s) = curdir s"
  by (simp_all add: embryo_def cpuno_def cur_def cpu_ok_def lock_free_def IF_on_def curdir_def)

lemma allocproc_run:
  fixes s :: "'a filemach_scheme"
  assumes "lock_free s PtableLock" "kmem_ready s" "free_pages s (p # ps)"
    "find (\<lambda>i. p_state (st_procs s i) = UNUSED) [0..<NPROC] = Some n"
  shows "allocproc s = Ret (Some n) (embryo n p s)"
proof -
  have ok: "cpu_ok s" using assms(2) by (simp add: kmem_ready_def)
  have p: "km_freelist (st_kmem s) = p" "p \<noteq> 0" using assms(3) by (auto simp: free_pages_def)
  let ?s = "set_proc n (\<lambda>q. q\<lparr>p_pid := st_nextpid s\<rparr>) ((set_proc n (\<lambda>q. q\<lparr>p_state := EMBRYO\<rparr>) s)\<lparr>st_nextpid := st_nextpid s + 1\<rparr>)"
  have k: "kalloc ?s = Ret p (?s\<lparr>st_kmem := (st_kmem s)\<lparr>km_freelist := load32 (m_mem s) p\<rparr>\<rparr>)"
    using kalloc_run [of ?s] assms(2) p by (simp add: kmem_ready_def set_proc_def)
  have n: "st_nextpid (set_proc n f u) = st_nextpid u" "st_trapret (set_proc n f u) = st_trapret u" "st_forkret (set_proc n f u) = st_forkret u"
    "st_ctx (set_proc n f u) = st_ctx u" for f and u :: "'a filemach_scheme"
    by (simp_all add: set_proc_def)
  show ?thesis
    using ok assms(1,4) p(2) k
    by (simp add: allocproc_def kseq_run kbind_run acquire_ok upd_proc_run kframe release_acquired n Let_def kstore32_def)
      (rule filemach.equality; simp add: embryo_def set_proc_def)
qed

text \<open>The new entry costs a page and leaves the page tables as they are.\<close>

lemma embryo_mem:
  assumes "pgaligned p"
  shows "PGROUNDDOWN b \<noteq> p \<Longrightarrow> page_eq b (m_mem (embryo n p s)) (m_mem s)"
proof -
  have e: "p + KSTACKSIZE - TF_SIZE - 4 = p + 4 * 1004" by (simp add: KSTACKSIZE_def TF_SIZE_def)
  note f = slot_facts [OF assms, of 1004]
  show "PGROUNDDOWN b \<noteq> p \<Longrightarrow> page_eq b (m_mem (embryo n p s)) (m_mem s)"
    unfolding embryo_def e using f by (auto intro!: store32_page_eq)
qed

lemma embryo_ready:
  fixes s :: "'a filemach_scheme"
  assumes "vm_ready s d (p # ps)"
  shows "vm_ready (embryo n p s) d ps" "dir_kept d (m_mem s) (m_mem (embryo n p s))"
    "pte_of (m_mem (embryo n p s)) d w = pte_of (m_mem s) d w" "tpages (m_mem (embryo n p s)) d = tpages (m_mem s) d"
proof -
  let ?m = "m_mem (embryo n p s)"
  have r: "kmem_ready s" "free_pages s (p # ps)" "tables_ok (m_mem s) d (p # ps)" using assms by (auto simp: vm_ready_def)
  have p: "pgaligned p" "p \<notin> set ps" using r(2) by (auto simp: free_pages_def kpage_def)
  note eq = embryo_mem [OF p(1), of _ n s]
  have d: "pgaligned d" using tables_okD(1) [OF r(3)] .
  have same: "page_eq b (m_mem s) ?m" if "b \<in> tpages (m_mem s) d" for b
  proof -
    have "pgaligned b" "b \<noteq> p" using that d r(3) by (auto simp: tpages_def tables_ok_def)
    then show ?thesis using eq [of b] by (simp add: PGROUNDDOWN_aligned page_eq_sym)
  qed
  note t = tables_page_eq [OF d same]
  show "pte_of ?m d w = pte_of (m_mem s) d w" "tpages ?m d = tpages (m_mem s) d" using t(1,2) by blast+
  show "dir_kept d (m_mem s) ?m" using same d by (intro dir_kept_page) (simp_all add: tpages_def)
  have "flist ?m (load32 (m_mem s) p) ps"
  proof (rule flist_page_eq [of "m_mem s"])
    show "flist (m_mem s) (load32 (m_mem s) p) ps" using r(2) by (simp add: free_pages_def)
    show "aligned4 q \<and> page_eq q (m_mem s) ?m" if "q \<in> set ps" for q
    proof -
      have "kpage (st_end s) q" "q \<noteq> p" using r(2) that p(2) by (auto simp: free_pages_def)
      then show ?thesis using eq [of q] by (simp add: page_eq_sym)
    qed
  qed
  then have "free_pages (embryo n p s) ps" using r(2) by (simp add: free_pages_def) (simp add: embryo_def)
  moreover have "tables_ok ?m d ps" using t(5) r(3) by (auto simp: tables_ok_def)
  moreover have "kmem_ready (embryo n p s)" using r(1) by (simp add: kmem_ready_def) (simp add: embryo_def)
  ultimately show "vm_ready (embryo n p s) d ps" by (simp add: vm_ready_def)
qed

section \<open>The stack of a thread\<close>

lemma write_bytes_page:
  assumes "pgaligned p" "off + length bs \<le> 4096" "PGROUNDDOWN b \<noteq> p"
  shows "page_eq b (write_bytes m (p + of_nat off) bs) m"
proof -
  have "write_bytes m (p + of_nat off) bs y = m y" if "PGROUNDDOWN y = PGROUNDDOWN b" for y
  proof (rule ccontr)
    assume "write_bytes m (p + of_nat off) bs y \<noteq> m y"
    then have l: "unat (y - (p + of_nat off)) < length bs" by (auto simp: write_bytes_def split: if_splits)
    let ?k = "unat (y - (p + of_nat off))"
    have "y = p + of_nat (off + ?k)" by simp
    then have "PGROUNDDOWN y = p" using pgaligned_add_page(2) [OF assms(1), of "off + ?k"] l assms(2) by simp
    then show False using that assms(3) by simp
  qed
  then show ?thesis by (simp add: page_eq_def)
qed

text \<open>An entry as \<open>allocuvm\<close> writes it.\<close>

lemma user_entry:
  assumes "pgaligned p"
  shows "P2V (PTE_ADDR (V2P p OR (PTE_W OR PTE_U) OR PTE_P)) = p" "(V2P p OR (PTE_W OR PTE_U) OR PTE_P) AND PTE_P \<noteq> 0"
    "(V2P p OR (PTE_W OR PTE_U) OR PTE_P) AND PTE_U \<noteq> 0"
proof -
  have "PTE_ADDR (V2P p OR (PTE_W OR PTE_U OR PTE_P)) = V2P p"
    "(V2P p OR (PTE_W OR PTE_U OR PTE_P)) AND PTE_P = PTE_P" "(V2P p OR (PTE_W OR PTE_U OR PTE_P)) AND PTE_U = PTE_U"
    using pte_parts [OF pgaligned_V2P [OF assms], of "PTE_W OR PTE_U OR PTE_P"] by (simp_all add: pte_defs)
  then show "P2V (PTE_ADDR (V2P p OR (PTE_W OR PTE_U) OR PTE_P)) = p" "(V2P p OR (PTE_W OR PTE_U) OR PTE_P) AND PTE_P \<noteq> 0"
    "(V2P p OR (PTE_W OR PTE_U) OR PTE_P) AND PTE_U \<noteq> 0"
    by (simp_all add: or.assoc) (simp_all add: pte_defs)
qed

lemma two_pages:
  fixes sz :: uint
  assumes "pgaligned sz" "unat sz + 8192 < 2147483648"
  shows "PGROUNDUP sz = sz" "unat (sz + 8192) = unat sz + 8192"
    "2 = (unat (sz + 8192) + 4095) div 4096 - (unat sz + 4095) div 4096" "PGROUNDDOWN (sz + 8184) = sz + 4096"
    "unat (w - sz) div 4096 < 2 \<longleftrightarrow> PGROUNDDOWN w = sz \<or> PGROUNDDOWN w = sz + 4096"
    "PGROUNDDOWN w = sz + 4096 \<longleftrightarrow> unat (w - sz) div 4096 = 1"
proof -
  obtain q where q: "unat sz = 4096 * q" using assms(1) by (auto simp: pgaligned_def)
  show u: "unat (sz + 8192) = unat sz + 8192" using assms(2) unat_add_small [of sz 8192] by simp
  show "2 = (unat (sz + 8192) + 4095) div 4096 - (unat sz + 4095) div 4096" unfolding u q by simp
  show "PGROUNDUP sz = sz" using assms(2) by (simp add: word_unat_eq_iff unat_PGROUNDUP q)
  have a: "pgaligned (sz + 4096)" by (rule pgaligned_next [OF assms(1)])
  show "PGROUNDDOWN (sz + 8184) = sz + 4096" using pgaligned_add_page(2) [OF a, of 4088] by (simp add: add.assoc)
  show one: "PGROUNDDOWN w = sz + 4096 \<longleftrightarrow> unat (w - sz) div 4096 = 1"
    using page_distance [OF a, of w] page_distance_next [of w sz] by auto
  show "unat (w - sz) div 4096 < 2 \<longleftrightarrow> PGROUNDDOWN w = sz \<or> PGROUNDDOWN w = sz + 4096"
    using one page_distance [OF assms(1), of w] by linarith
qed

text \<open>
  The memory with the guard page of a stack closed to the user, and the words of the stack written.
  \<open>stacked\<close> says what this leaves: the two new pages at their addresses, every other address where it
  was, and the words.
\<close>

definition guarded :: "memory \<Rightarrow> addr \<Rightarrow> uint \<Rightarrow> memory" where
  "guarded m d sz = store32 m (pgtab m d (PDX sz) + 4 * PTX sz) (pte_of m d sz AND NOT PTE_U)"

definition stacked :: "memory \<Rightarrow> memory \<Rightarrow> addr \<Rightarrow> uint \<Rightarrow> addr \<Rightarrow> uchar list \<Rightarrow> bool" where
  "stacked m m' d sz p bs \<longleftrightarrow> dir_kept d m m' \<and> pte_of m' d sz AND PTE_U = 0 \<and> pgaligned p \<and> p \<notin> tpages m' d
     \<and> (\<forall>w. PGROUNDDOWN w = sz + 4096 \<longrightarrow> pte_of m' d w = V2P p OR (PTE_W OR PTE_U) OR PTE_P)
     \<and> (\<forall>w. PGROUNDDOWN w \<noteq> sz \<and> PGROUNDDOWN w \<noteq> sz + 4096 \<longrightarrow> pte_of m' d w = pte_of m d w)
     \<and> bytes_at m' (p + 4088) 8 = bs"

lemma stacked_mem:
  assumes ok: "tables_ok m1 d qs" and g: "grown m m1 d sz [g, p]" and kept: "dir_kept d m m1"
    and sz: "pgaligned sz" "unat sz + 8192 < 2147483648" and bs: "length bs = 8"
  shows "present m1 d (PDX sz)" "tables_ok (guarded m1 d sz) d qs" "tpages (write_bytes (guarded m1 d sz) (p + 4088) bs) d = tpages m1 d"
    "pte_of (guarded m1 d sz) d (sz + 8184) = V2P p OR (PTE_W OR PTE_U) OR PTE_P" "pgaligned p"
    "stacked m (write_bytes (guarded m1 d sz) (p + 4088) bs) d sz p bs"
proof -
  let ?m2 = "guarded m1 d sz"
  let ?m3 = "write_bytes ?m2 (p + 4088) bs"
  note tp = two_pages [OF sz]
  have pg: "pgaligned g" "pgaligned p" "g \<noteq> p" "p \<notin> tpages m1 d" using g by (auto simp: grown_def)
  then show "pgaligned p" by simp
  have e0: "pte_of m1 d w = V2P g OR (PTE_W OR PTE_U) OR PTE_P" if "PGROUNDDOWN w = sz" for w
    using g that page_distance [OF sz(1), of w] by (simp add: grown_def)
  have e1: "pte_of m1 d w = V2P p OR (PTE_W OR PTE_U) OR PTE_P" if "PGROUNDDOWN w = sz + 4096" for w
    using g that tp(6) [of w] by (simp add: grown_def)
  have e2: "pte_of m1 d w = pte_of m d w" if "PGROUNDDOWN w \<noteq> sz" "PGROUNDDOWN w \<noteq> sz + 4096" for w
    using g that tp(5) [of w] by (simp add: grown_def numeral_2_eq_2)
  have s: "PGROUNDDOWN sz = sz" using sz(1) by (rule PGROUNDDOWN_aligned)
  show pr: "present m1 d (PDX sz)"
    using e0 [OF s] user_entry(2) [OF pg(1)] by (auto simp: pte_of_def split: if_splits)
  note st = pte_store [OF ok pr, where v = "pte_of m1 d sz AND NOT PTE_U", folded guarded_def]
  show "tables_ok ?m2 d qs" by (rule st(1))
  have ne: "sz + 4096 \<noteq> sz" by simp
  then show "pte_of ?m2 d (sz + 8184) = V2P p OR (PTE_W OR PTE_U) OR PTE_P"
    using e1 [of "sz + 8184"] tp(4) s by (simp add: st(3))
  have d: "pgaligned d" using tables_okD(1) [OF ok] .
  have same: "page_eq b ?m2 ?m3" if "b \<in> tpages ?m2 d" for b
  proof -
    have "pgaligned b" "b \<noteq> p" using that d pg(4) st(2) by (auto simp: tpages_def)
    then show ?thesis
      using write_bytes_page [OF pg(2), of 4088 bs b ?m2] bs by (simp add: PGROUNDDOWN_aligned page_eq_sym)
  qed
  note t3 = tables_page_eq [OF d same]
  show tps: "tpages ?m3 d = tpages m1 d" using t3(1) st(2) by blast
  have p3: "pte_of ?m3 d w = pte_of ?m2 d w" for w using t3(2) by blast
  have "dir_kept d m1 ?m2"
    using st(4) [of d] d tables_okD(4) [OF ok unat_PDX_less pr] by (intro dir_kept_page) (auto simp: PGROUNDDOWN_aligned page_eq_sym)
  moreover have "dir_kept d ?m2 ?m3" using same d by (intro dir_kept_page) (simp_all add: tpages_def)
  ultimately have "dir_kept d m ?m3" using kept dir_kept_trans by blast
  moreover have "pte_of ?m3 d sz AND PTE_U = 0" by (simp add: p3 st(3) and.assoc)
  moreover have "bytes_at ?m3 (p + 4088) 8 = bs" using bytes_at_write_bytes [of bs ?m2 "p + 4088"] bs by simp
  ultimately show "stacked m ?m3 d sz p bs"
    unfolding stacked_def using pg tps e1 e2 s ne by (simp add: p3 st(3))
qed

lemma thread_stack_run:
  fixes x :: "'a filemach_scheme" and n :: nat
  defines "h \<equiv> st_shared x (p_sharePtr (st_procs x n))"
  assumes ready: "vm_ready x (sh_pgdir h) ps" "4 \<le> length ps" and sz: "pgaligned (sh_sz h)" "unat (sh_sz h) + 8192 < 2147483648"
    and free: "\<forall>w. unat (w - sh_sz h) div 4096 < 2 \<longrightarrow> translate (m_mem x) (sh_pgdir h) PTE_P w = None"
  obtains m k p where "thread_stack (Some n) arg x = Ret (Some (sh_sz h + 8184))
      (set_shared (p_sharePtr (st_procs x n)) (\<lambda>g. g\<lparr>sh_sz := sh_sz h + 8192\<rparr>) (x\<lparr>m_mem := m, st_kmem := k\<rparr>))"
    "stacked (m_mem x) m (sh_pgdir h) (sh_sz h) p (le_bytes 0xFFFFFFFF @ le_bytes arg)"
    "p \<in> set ps" "tpages m (sh_pgdir h) \<subseteq> tpages (m_mem x) (sh_pgdir h) \<union> set ps"
proof -
  let ?d = "sh_pgdir h" and ?sz = "sh_sz h" and ?bs = "le_bytes 0xFFFFFFFF @ le_bytes arg :: uchar list"
  note tp = two_pages [OF sz]
  have lt: "?sz + 8192 < KERNBASE" "?sz \<le> ?sz + 8192" using sz(2) tp(2) by (simp_all add: word_less_nat_alt word_le_nat_alt KERNBASE_def)
  have l: "2 * 2 \<le> length ps" using ready(2) by simp
  obtain m1 k qs fs where a: "allocuvm ?d ?sz (?sz + 8192) x = Ret (?sz + 8192) (x\<lparr>m_mem := m1, st_kmem := k\<rparr>)"
    "vm_step ?d x ps m1 k qs" "length fs = 2" "set fs \<subseteq> set ps - set qs" "grown (m_mem x) m1 ?d ?sz fs"
    by (rule allocuvm_run [OF ready(1) lt(2,1) tp(3) l, unfolded tp(1), OF free])
  obtain g p where fs: "fs = [g, p]" using a(3) by (auto simp: length_Suc_conv numeral_2_eq_2)
  let ?x = "x\<lparr>m_mem := m1, st_kmem := k\<rparr>"
  have ok: "tables_ok m1 ?d qs" and kept: "dir_kept ?d (m_mem x) m1" and sub: "tpages m1 ?d \<subseteq> tpages (m_mem x) ?d \<union> (set ps - set qs)"
    using a(2) by (auto simp: vm_step_def vm_ready_def)
  have bs: "length ?bs = 8" by (simp add: le_bytes_def)
  note sm = stacked_mem [OF ok a(5) [unfolded fs] kept sz bs]
  have c: "clearpteu ?d ?sz ?x = Ret () (?x\<lparr>m_mem := guarded m1 ?d ?sz\<rparr>)"
    using clearpteu_run [of ?x ?d qs ?sz] ok sm(1) by (simp add: guarded_def)
  let ?y = "set_shared (p_sharePtr (st_procs x n)) (\<lambda>g. g\<lparr>sh_sz := ?sz + 8192\<rparr>) (?x\<lparr>m_mem := guarded m1 ?d ?sz\<rparr>)"
  let ?m = "write_bytes (guarded m1 ?d ?sz) (p + 4088) ?bs"
  have pin: "p \<in> set ps" "p \<noteq> 0" using a(4) fs ready(1) by (auto simp: vm_ready_def free_pages_def kpage_def)
  have o: "copyout ?d (?sz + 8184) ?bs ?y = Ret 0 (?y\<lparr>m_mem := ?m\<rparr>)"
    using copyout_run [of ?y ?d qs "?sz + 8184" ?bs] sm(2,4) user_entry [OF sm(5)] pin(2) bs tp(4) by (simp add: le_bytes_def)
  have "?y\<lparr>m_mem := ?m\<rparr> = set_shared (p_sharePtr (st_procs x n)) (\<lambda>g. g\<lparr>sh_sz := ?sz + 8192\<rparr>) (x\<lparr>m_mem := ?m, st_kmem := k\<rparr>)"
    by (rule filemach.equality; simp add: set_shared_def)
  moreover have "?sz + 8192 \<noteq> 0" using tp(2) by (auto simp: word_unat_eq_iff)
  moreover have "copyout ?d (8184 + ?sz) ?bs ?y = Ret 0 (?y\<lparr>m_mem := ?m\<rparr>)" using o by (simp only: add.commute)
  ultimately have "thread_stack (Some n) arg x = Ret (Some (?sz + 8184))
      (set_shared (p_sharePtr (st_procs x n)) (\<lambda>g. g\<lparr>sh_sz := ?sz + 8192\<rparr>) (x\<lparr>m_mem := ?m, st_kmem := k\<rparr>))"
    using a(1) c o
    by (simp add: thread_stack_def kbind_run kseq_run getshared_run upd_sharedp_run PGSIZE_def flip: h_def)
  moreover have "tpages ?m ?d \<subseteq> tpages (m_mem x) ?d \<union> set ps" using sm(3) sub by blast
  ultimately show thesis using that sm(6) pin(1) by blast
qed

section \<open>The new thread\<close>

definition slotted :: "nat \<Rightarrow> 'a filemach_scheme \<Rightarrow> 'a filemach_scheme" where
  "slotted n s = (case find (\<lambda>k. sh_isThere (sharedp s (Some n)) k = 0) [0..<NTHREAD] of
     None \<Rightarrow> s
   | Some k \<Rightarrow> set_proc n (\<lambda>q. q\<lparr>p_orderOfThread := int k\<rparr>) (set_shared (p_sharePtr (st_procs s n))
       (\<lambda>h. h\<lparr>sh_isThere := (sh_isThere h)(k := 1), sh_threads := (sh_threads h)(k := Some n),
          sh_numOfThread := sh_numOfThread h + 1\<rparr>) s))"

lemma thread_slot_run: "thread_slot (Some n) s = Ret () (slotted n s)"
  by (simp add: thread_slot_def slotted_def kbind_run kseq_run getshared_run upd_sharedp_run upd_proc_run sharedp_def procp_def
      split: option.split)

lemma slotted_simps [simp]:
  "cpu_ok (slotted n s) = cpu_ok s" "lock_free (slotted n s) l = lock_free s l" "m_mem (slotted n s) = m_mem s"
  "curdir (slotted n s) = curdir s" "slotted n (acquired l s) = acquired l (slotted n s)" "cur (slotted n s) = cur s"
  "m_cpus (slotted n s) = m_cpus s" "j \<noteq> n \<Longrightarrow> st_procs (slotted n s) j = st_procs s j" "st_tf (slotted n s) = st_tf s"
  by (simp_all add: slotted_def kframe split: option.split) (simp_all add: set_proc_def set_shared_def)

text \<open>The entry with what it takes over from its creator, and with its stack and entry point.\<close>

definition inherited :: "nat \<Rightarrow> nat \<Rightarrow> 'a filemach_scheme \<Rightarrow> 'a filemach_scheme" where
  "inherited i n s = (let c = st_procs s i in
     (set_proc n (\<lambda>q. q\<lparr>p_sharePtr := p_sharePtr c, p_parent := p_parent c\<rparr>) s)
       \<lparr>st_tf := (st_tf s)(p_tf (st_procs s n) := (st_tf s (p_tf c))\<lparr>tf_eax := 0\<rparr>)\<rparr>)"

definition launched :: "nat \<Rightarrow> uint \<Rightarrow> uint \<Rightarrow> 'a filemach_scheme \<Rightarrow> 'a filemach_scheme" where
  "launched n start sp s =
     (set_proc n (\<lambda>q. q\<lparr>p_stack := sp, p_imMaster := False, p_state := RUNNABLE\<rparr>) s)
       \<lparr>st_tf := (st_tf s)(p_tf (st_procs s n) := (st_tf s (p_tf (st_procs s n)))\<lparr>tf_eip := start, tf_esp := sp\<rparr>)\<rparr>"

lemma inherited_simps [simp]:
  "cpu_ok (inherited i n s) = cpu_ok s" "lock_free (inherited i n s) l = lock_free s l" "m_mem (inherited i n s) = m_mem s"
  "curdir (inherited i n s) = curdir s" "inherited i n (acquired l s) = acquired l (inherited i n s)" "cur (inherited i n s) = cur s"
  "m_cpus (inherited i n s) = m_cpus s" "st_shared (inherited i n s) = st_shared s" "vm_ready (inherited i n s) d ps = vm_ready s d ps"
  "st_procs (inherited i n s) = (st_procs s)(n := (st_procs s n)\<lparr>p_sharePtr := p_sharePtr (st_procs s i), p_parent := p_parent (st_procs s i)\<rparr>)"
  by (simp_all add: inherited_def Let_def kframe curdir_def vm_ready_def kmem_ready_def free_pages_def) (simp_all add: set_proc_def)

lemma launched_simps [simp]:
  "cpu_ok (launched n st sp s) = cpu_ok s" "lock_free (launched n st sp s) l = lock_free s l" "m_mem (launched n st sp s) = m_mem s"
  "curdir (launched n st sp s) = curdir s" "launched n st sp (acquired l s) = acquired l (launched n st sp s)"
  "cur (launched n st sp s) = cur s" "m_cpus (launched n st sp s) = m_cpus s" "st_shared (launched n st sp s) = st_shared s"
  "st_procs (launched n st sp s) = (st_procs s)(n := (st_procs s n)\<lparr>p_stack := sp, p_imMaster := False, p_state := RUNNABLE\<rparr>)"
  by (simp_all add: launched_def kframe curdir_def) (simp_all add: set_proc_def)

lemma upd_tf_run [krun]: "upd_tf a f s = Ret () (s\<lparr>st_tf := (st_tf s)(a := f (st_tf s a))\<rparr>)"
  by (simp add: upd_tf_def)

text \<open>The end of \<open>thread_create\<close>, from the stack on.\<close>

lemma thread_create_start:
  fixes s :: "'a filemach_scheme"
  assumes "running i s" "lock_free s PtableLock" "allocproc s = Ret (Some n) u" "cpu_ok u" "lock_free u PtableLock" "i \<noteq> n"
    "thread_stack (Some n) arg (acquired PtableLock (inherited i n u)) = Ret (Some sp) (acquired PtableLock y)"
    "st_procs y = st_procs (inherited i n u)" "st_tf y = st_tf (inherited i n u)" "cpu_ok y" "lock_free y PtableLock"
    "ustore32 thread (of_int (p_orderOfThread (st_procs (slotted n (launched n start sp y)) n)))
       (acquired PtableLock (slotted n (launched n start sp y))) = Ret () (acquired PtableLock (w :: 'a filemach_scheme))"
    "cpu_ok w" "lock_free w PtableLock"
  shows "thread_create thread start arg s = Ret 0 w"
proof -
  have ok: "cpu_ok s" "c_proc (m_cpus s (cur s)) = Some i" using assms(1) by (simp_all add: running_def)
  have l: "set_proc n (\<lambda>q. q\<lparr>p_imMaster := False, p_state := RUNNABLE\<rparr>) ((set_proc n (\<lambda>q. q\<lparr>p_stack := sp\<rparr>) y)
      \<lparr>st_tf := (st_tf y)(p_tf (st_procs y n) := (st_tf y (p_tf (st_procs y n)))\<lparr>tf_eip := start, tf_esp := sp\<rparr>)\<rparr>)
      = launched n start sp y"
    by (rule filemach.equality; simp add: launched_def set_proc_def)
  have tf: "st_tf (set_proc n f v) = st_tf v" for f and v :: "'a filemach_scheme" by (simp add: set_proc_def)
  have q: "p_tf (st_procs y n) = p_tf (st_procs u n)" using assms(8) by simp
  have "thread_create thread start arg s =
      kbind (thread_stack (Some n) arg) (\<lambda>r. case r of
         None \<Rightarrow> kseq (upd_proc (Some n) (\<lambda>q. q\<lparr>p_state := UNUSED\<rparr>)) (kseq (release PtableLock) (ret (- 1)))
       | Some sp \<Rightarrow>
           kseq (upd_proc (Some n) (\<lambda>q. q\<lparr>p_stack := sp\<rparr>)) (
           kseq (upd_tf (p_tf (st_procs u n)) (\<lambda>t. t\<lparr>tf_eip := start, tf_esp := sp\<rparr>)) (
           kseq (upd_proc (Some n) (\<lambda>q. q\<lparr>p_imMaster := False, p_state := RUNNABLE\<rparr>)) (
           kseq (thread_slot (Some n)) (
           kbind (getproc (Some n)) (\<lambda>q.
           kseq (ustore32 thread (of_int (p_orderOfThread q))) (
           kseq (release PtableLock) (ret 0)))))))) (acquired PtableLock (inherited i n u))"
    using ok assms(2-6)
    by (simp add: thread_create_def kbind_run kseq_run myproc_run acquire_ok getproc_run upd_proc_run upd_tf_run kframe tf
        inherited_def Let_def)
  also have "\<dots> = Ret 0 w"
    using assms(7,12-14)
    by (simp add: kbind_run kseq_run upd_proc_run upd_tf_run kframe tf thread_slot_run getproc_run l release_acquired flip: q)
  finally show ?thesis .
qed

lemma vm_ready_acquired: "vm_ready s d ps \<Longrightarrow> l \<noteq> KmemLock \<Longrightarrow> vm_ready (acquired l s) d ps"
  by (simp add: vm_ready_def kmem_ready_def free_pages_def)

lemma ustore32_acquired:
  fixes s :: "'a filemach_scheme"
  assumes "pgaligned (curdir s)" "aligned4 va" "translate (m_mem s) (curdir s) (PTE_P OR PTE_W) va = Some a"
    "PGROUNDDOWN a \<notin> tpages (m_mem s) (curdir s)"
  shows "ustore32 va v (acquired l s) = Ret () (acquired l (s\<lparr>m_mem := store32 (m_mem s) a v\<rparr>))"
  using ustore32_run [of "acquired l s" va a v] assms by (simp add: kframe)

lemma curdir_mem: "curdir (s\<lparr>m_mem := m, st_kmem := k\<rparr>) = curdir s"
  by (simp add: curdir_def)

lemma stackedD:
  assumes "stacked m m' d sz p bs"
  shows "dir_kept d m m'" "pte_of m' d sz AND PTE_U = 0" "pgaligned p" "p \<notin> tpages m' d"
    "PGROUNDDOWN w \<noteq> sz \<Longrightarrow> PGROUNDDOWN w \<noteq> sz + 4096 \<Longrightarrow> pte_of m' d w = pte_of m d w"
    "PGROUNDDOWN w = sz + 4096 \<Longrightarrow> pte_of m' d w = V2P p OR (PTE_W OR PTE_U) OR PTE_P"
    "bytes_at m' (p + 4088) 8 = bs"
  using assms unfolding stacked_def by blast+

lemma stacked_from:
  assumes "stacked m1 m2 d sz p bs" "dir_kept d m m1" "\<And>w. pte_of m1 d w = pte_of m d w"
  shows "stacked m m2 d sz p bs"
  using assms dir_kept_trans [OF assms(2), of m2] by (simp add: stacked_def)

lemma translate_less:
  assumes "translate m d (PTE_P OR PTE_W) va = Some a"
  shows "pte_of m d va AND PTE_P \<noteq> 0"
proof -
  have p: "x AND PTE_P \<noteq> 0" if "x AND (PTE_P OR PTE_W) = PTE_P OR PTE_W" for x :: uint
  proof -
    have "x AND PTE_P = PTE_P" using arg_cong [OF that, of "\<lambda>y. y AND PTE_P"] by (simp add: and.assoc pte_defs)
    then show ?thesis by (simp add: pte_defs)
  qed
  show ?thesis using assms p by (auto simp: translate_def pte_of_def present_def pgtab_def Let_def split: if_splits)
qed

text \<open>What \<open>thread_create\<close> needs: two free pages for the stack above a page-aligned process size, a page for
  the kernel stack and two for page tables, an unused table entry, and a writable word for the number.\<close>

definition creatable :: "'a filemach_scheme \<Rightarrow> nat \<Rightarrow> nat \<Rightarrow> addr list \<Rightarrow> addr \<Rightarrow> addr \<Rightarrow> bool" where
  "creatable s i n ps thread a \<longleftrightarrow> (let h = sharedp s (Some i) in
     running i s \<and> lock_free s PtableLock \<and> vm_ready s (sh_pgdir h) ps \<and> 5 \<le> length ps \<and> curdir s = sh_pgdir h
     \<and> find (\<lambda>i. p_state (st_procs s i) = UNUSED) [0..<NPROC] = Some n \<and> i \<noteq> n
     \<and> pgaligned (sh_sz h) \<and> unat (sh_sz h) + 8192 < 2147483648
     \<and> (\<forall>w. unat (w - sh_sz h) div 4096 < 2 \<longrightarrow> translate (m_mem s) (sh_pgdir h) PTE_P w = None)
     \<and> aligned4 thread \<and> translate (m_mem s) (sh_pgdir h) (PTE_P OR PTE_W) thread = Some a
     \<and> PGROUNDDOWN a \<notin> tpages (m_mem s) (sh_pgdir h) \<union> set ps)"

lemma thread_create_run:
  fixes s :: "'a filemach_scheme"
  assumes "creatable s i n ps thread a"
  defines "h \<equiv> sharedp s (Some i)"
  obtains m k p z where "stacked (m_mem s) m (sh_pgdir h) (sh_sz h) p (le_bytes 0xFFFFFFFF @ le_bytes arg)" "p \<in> set ps"
    "z = slotted n (launched n start (sh_sz h + 8184) (set_shared (p_sharePtr (st_procs s i)) (\<lambda>g. g\<lparr>sh_sz := sh_sz h + 8192\<rparr>)
       ((inherited i n (embryo n (hd ps) s))\<lparr>m_mem := m, st_kmem := k\<rparr>)))"
    "thread_create thread start arg s = Ret 0 (z\<lparr>m_mem := store32 m a (of_int (p_orderOfThread (st_procs z n)))\<rparr>)"
    "tpages m (sh_pgdir h) \<subseteq> tpages (m_mem s) (sh_pgdir h) \<union> set ps"
proof -
  let ?d = "sh_pgdir h" and ?sz = "sh_sz h" and ?bs = "le_bytes 0xFFFFFFFF @ le_bytes arg :: uchar list"
  note c = assms(1) [unfolded creatable_def Let_def, folded h_def]
  have run: "running i s" "lock_free s PtableLock" "vm_ready s ?d ps" "5 \<le> length ps" "curdir s = ?d"
    and n: "find (\<lambda>i. p_state (st_procs s i) = UNUSED) [0..<NPROC] = Some n" "i \<noteq> n"
    and sz: "pgaligned ?sz" "unat ?sz + 8192 < 2147483648" "\<forall>w. unat (w - ?sz) div 4096 < 2 \<longrightarrow> translate (m_mem s) ?d PTE_P w = None"
    and th: "aligned4 thread" "translate (m_mem s) ?d (PTE_P OR PTE_W) thread = Some a" "PGROUNDDOWN a \<notin> tpages (m_mem s) ?d \<union> set ps"
    using c by blast+
  obtain q qs where ps: "ps = q # qs" using run(4) by (cases ps) auto
  let ?u = "embryo n q s"
  let ?x = "acquired PtableLock (inherited i n ?u)"
  note e = embryo_ready [OF run(3) [unfolded ps], of n]
  have ok: "cpu_ok s" "lock_free s KmemLock \<or> \<not> km_use_lock (st_kmem s)"
    using run(1,3) by (auto simp: running_def vm_ready_def kmem_ready_def)
  have al: "allocproc s = Ret (Some n) ?u"
    using run(3) ps by (intro allocproc_run [OF run(2) _ _ n(1), of q qs]) (simp_all add: vm_ready_def)
  have pu: "st_procs ?u i = st_procs s i" using n(2) by (simp add: embryo_def)
  have hx: "p_sharePtr (st_procs ?x n) = p_sharePtr (st_procs s i)" "st_shared ?x (p_sharePtr (st_procs s i)) = h"
    using pu by (simp_all add: h_def sharedp_def procp_def)
  have rx: "vm_ready ?x ?d qs" "4 \<le> length qs" using e(1) run(4) ps by (auto intro!: vm_ready_acquired)
  have fx: "\<forall>w. unat (w - ?sz) div 4096 < 2 \<longrightarrow> translate (m_mem ?x) ?d PTE_P w = None"
    using sz(3) e(3) by (simp only: translate_pte acquired_simps inherited_simps)
  obtain m k p where st: "thread_stack (Some n) arg ?x = Ret (Some (?sz + 8184))
      (set_shared (p_sharePtr (st_procs s i)) (\<lambda>g. g\<lparr>sh_sz := ?sz + 8192\<rparr>) (?x\<lparr>m_mem := m, st_kmem := k\<rparr>))"
    "stacked (m_mem ?x) m ?d ?sz p ?bs" "p \<in> set qs" "tpages m ?d \<subseteq> tpages (m_mem ?x) ?d \<union> set qs"
    by (rule thread_stack_run [of ?x n qs arg, unfolded hx, OF rx sz(1,2) fx])
  let ?y = "set_shared (p_sharePtr (st_procs s i)) (\<lambda>g. g\<lparr>sh_sz := ?sz + 8192\<rparr>) ((inherited i n ?u)\<lparr>m_mem := m, st_kmem := k\<rparr>)"
  let ?z = "slotted n (launched n start (?sz + 8184) ?y)"
  let ?v = "of_int (p_orderOfThread (st_procs ?z n))"
  have sk: "stacked (m_mem s) m ?d ?sz p ?bs" using stacked_from [OF st(2)] e(2,3) by simp
  have tpm: "tpages m ?d \<subseteq> tpages (m_mem s) ?d \<union> set ps" using st(4) e(4) ps by auto
  have "translate (m_mem s) ?d PTE_P thread \<noteq> None" using translate_less [OF th(2)] unfolding translate_pte by simp
  then have "\<not> unat (thread - ?sz) div 4096 < 2" using sz(3) [rule_format, of thread] by metis
  then have nt: "PGROUNDDOWN thread \<noteq> ?sz" "PGROUNDDOWN thread \<noteq> ?sz + 4096" by (simp_all only: two_pages(5) [OF sz(1,2), of thread] de_Morgan_disj not_False_eq_True)
  have tr: "translate m ?d (PTE_P OR PTE_W) thread = Some a"
    by (rule translate_kept [OF stackedD(1) [OF sk] stackedD(5) [OF sk nt] _ th(2)]) (simp add: PTE_P_def PTE_W_def)
  have zc: "m_mem ?z = m" "curdir ?z = ?d" using run(5) by (simp_all add: curdir_mem)
  have dn: "pgaligned ?d" "PGROUNDDOWN a \<notin> tpages m ?d"
    using run(3) th(3) tpm tables_okD(1) [of "m_mem s" ?d ps] by (auto simp: vm_ready_def)
  have us: "ustore32 thread ?v (acquired PtableLock ?z) = Ret () (acquired PtableLock (?z\<lparr>m_mem := store32 m a ?v\<rparr>))"
    using ustore32_acquired [of ?z thread a ?v PtableLock] zc th(1) tr dn by simp
  have "thread_create thread start arg s = Ret 0 (?z\<lparr>m_mem := store32 m a ?v\<rparr>)"
  proof (rule thread_create_start [OF run(1,2) al _ _ n(2) _ _ _ _ _ us])
    show "thread_stack (Some n) arg ?x = Ret (Some (?sz + 8184)) (acquired PtableLock ?y)"
      using st(1) by (simp add: kframe)
    show "st_tf ?y = st_tf (inherited i n ?u)" by (simp add: set_shared_def)
  qed (use ok(1) run(2) in simp_all)
  then show thesis using st(3) ps by (intro that [OF sk _ refl _ tpm]) auto
qed

section \<open>Properties\<close>

text \<open>The new thread with its slot: what the state of the machine says about it after \<open>thread_create\<close>.\<close>

definition before_slot :: "'a filemach_scheme \<Rightarrow> nat \<Rightarrow> nat \<Rightarrow> addr \<Rightarrow> uint \<Rightarrow> memory \<Rightarrow> kmem \<Rightarrow> 'a filemach_scheme" where
  "before_slot s i n p start m k = (let h = sharedp s (Some i) in
     launched n start (sh_sz h + 8184) (set_shared (p_sharePtr (st_procs s i)) (\<lambda>g. g\<lparr>sh_sz := sh_sz h + 8192\<rparr>)
       ((inherited i n (embryo n p s))\<lparr>m_mem := m, st_kmem := k\<rparr>)))"

lemma before_slot_simps:
  assumes "i \<noteq> n"
  shows "st_procs (before_slot s i n p start m k) = (st_procs s)(n := (st_procs s n)\<lparr>p_pid := st_nextpid s,
       p_kstack := p, p_tf := p + KSTACKSIZE - TF_SIZE, p_context := p + KSTACKSIZE - TF_SIZE - 4 - CTX_SIZE,
       p_sharePtr := p_sharePtr (st_procs s i), p_parent := p_parent (st_procs s i), p_stack := sh_sz (sharedp s (Some i)) + 8184,
       p_imMaster := False, p_state := RUNNABLE\<rparr>)"
    "st_shared (before_slot s i n p start m k) = (st_shared s)(p_sharePtr (st_procs s i) :=
       (sharedp s (Some i))\<lparr>sh_sz := sh_sz (sharedp s (Some i)) + 8192\<rparr>)"
    "st_tf (before_slot s i n p start m k) = (st_tf s)(p + KSTACKSIZE - TF_SIZE := (st_tf s (p_tf (st_procs s i)))
       \<lparr>tf_eax := 0, tf_eip := start, tf_esp := sh_sz (sharedp s (Some i)) + 8184\<rparr>)"
    "running j (before_slot s i n p start m k) = running j s" "lock_free (before_slot s i n p start m k) l = lock_free s l"
    "curdir (before_slot s i n p start m k) = curdir s"
  using assms
  by (simp_all add: before_slot_def Let_def sharedp_def procp_def running_def curdir_mem)
    (simp_all add: launched_def set_shared_def inherited_def embryo_def set_proc_def Let_def)

lemma running_frame:
  "running j (s\<lparr>m_mem := m\<rparr>) = running j s" "running j (set_proc i f s) = running j s" "running j (set_shared a g s) = running j s"
  "curdir (s\<lparr>m_mem := m\<rparr>) = curdir s"
  by (simp_all add: running_def curdir_def)

lemma uload_stack:
  assumes st: "stacked m0 m d sz p bs" and sz: "pgaligned sz" "unat sz + 8192 < 2147483648"
    and s: "curdir s = d" "m_mem s = store32 m a v" and a: "aligned4 a" "PGROUNDDOWN a \<noteq> p" "PGROUNDDOWN a \<notin> tpages m d" "pgaligned d"
  shows "uload 8 (sz + 8184) s = Ret bs s" "pte_of (m_mem s) d w = pte_of m d w"
proof -
  have same: "page_eq b m (m_mem s)" if "PGROUNDDOWN b \<noteq> PGROUNDDOWN a" for b
    unfolding s(2) using store32_page_eq [OF a(1) not_sym [OF that]] page_eq_sym by blast
  have al: "PGROUNDDOWN q = q" if "q \<in> tpages m d" for q using that a(4) by (auto simp: tpages_def PGROUNDDOWN_aligned)
  have tb: "page_eq q m (m_mem s)" if "q \<in> tpages m d" for q using same [of q] al [OF that] that a(3) by auto
  show pe: "pte_of (m_mem s) d w = pte_of m d w" for w using tables_page_eq(2) [OF a(4) tb] .
  have p: "pgaligned p" by (rule stackedD(3) [OF st])
  have "page_eq p m (m_mem s)" using same [of p] a(2) p by (simp add: PGROUNDDOWN_aligned)
  then have mp: "m_mem s b = m b" if "PGROUNDDOWN b = p" for b using that p by (simp add: page_eq_def PGROUNDDOWN_aligned)
  have b: "length bs = 8" "\<And>j. j < 8 \<Longrightarrow> bs ! j = m (p + 4088 + of_nat j)"
    using stackedD(7) [OF st] by (auto simp: bytes_at_def)
  have sz1: "pgaligned (sz + 4096)" by (rule pgaligned_next [OF sz(1)])
  have "uload8 (sz + 8184 + of_nat j) s = Ret (bs ! j) s" if "j < 8" for j
  proof -
    let ?w = "sz + 8184 + of_nat j :: uint"
    have e: "?w = sz + 4096 + of_nat (4088 + j)" by simp
    have pw: "PGROUNDDOWN ?w = sz + 4096" using pgaligned_add_page(2) [OF sz1, of "4088 + j"] that unfolding e by simp
    have "?w AND 0xFFF = of_nat (4088 + j)" unfolding low12 pw unfolding e by simp
    moreover have "PGROUNDDOWN (p + of_nat (4088 + j)) = p" by (rule pgaligned_add_page(2) [OF p]) (use that in simp)
    ultimately show ?thesis
      using user_entry [OF p] stackedD(6) [OF st pw] mp [of "p + of_nat (4088 + j)"] b(2) [OF that] s(1)
      by (simp add: uload8_run translate_pte pe add.assoc)
  qed
  then show "uload 8 (sz + 8184) s = Ret bs s" using uload_bytesI [of bs "sz + 8184" s] b(1) by simp
qed

lemma translate_aligned:
  assumes "translate m d need va = Some a" "aligned4 va"
  shows "aligned4 a"
proof -
  obtain p where p: "pgaligned p" "a = p + (va AND 0xFFF)" using translate_Some [OF assms(1)] by blast
  have l: "va AND 0xFFF = va mod 4096" by (simp add: mask12 take_bit_eq_mod flip: take_bit_eq_mask)
  have m: "va mod 4096 = of_nat (unat va mod 4096)"
    by (simp add: word_unat_eq_iff unat_mod unat_of_nat less_imp_le mod_less_divisor order_less_trans [of _ 4096])
  have "a = p + of_nat (unat va mod 4096)" using p(2) l m by simp
  then have "unat a = unat p + unat va mod 4096" using pgaligned_add_page(1) [OF p(1), of "unat va mod 4096"] by simp
  moreover have "4 dvd unat p" using p(1) pgaligned_aligned4 by (auto simp: aligned4_def)
  ultimately show ?thesis using assms(2) by (simp add: aligned4_def dvd_mod)
qed

text \<open>
  A process of one page, whose page directory and page table are the pages at 0x80200000 and 0x80201000,
  on a machine with five free pages.
\<close>

definition ex_cmem :: memory where
  "ex_cmem = store32 (store32 (store32 (store32 (store32 (store32 (\<lambda>_. 0) 0x80101000 0x80102000) 0x80102000 0x80103000)
     0x80103000 0x80104000) 0x80104000 0x80105000) 0x80200000 0x201007) 0x80201000 0x202007"

definition ex_creator :: "(nat \<Rightarrow> int) \<Rightarrow> filemach" where
  "ex_creator f = (ex_filemach 1)\<lparr>m_mem := ex_cmem, m_cr3 := (\<lambda>_. 0x200000), st_kmem := \<lparr>km_use_lock = True, km_freelist = 0x80101000\<rparr>,
     st_procs := (\<lambda>n. if n = 0 then ex_proc 1 RUNNING else ex_proc 0 UNUSED),
     st_shared := (\<lambda>_. ex_shared\<lparr>sh_isThere := f\<rparr>)\<rparr>"

lemma ex_cmem_load:
  assumes "pgaligned p" "unat x < 1024"
  shows "load32 ex_cmem (p + 4 * x) = (if x \<noteq> 0 then 0 else if p = 0x80201000 then 0x202007 else if p = 0x80200000 then 0x201007
     else if p = 0x80104000 then 0x80105000 else if p = 0x80103000 then 0x80104000 else if p = 0x80102000 then 0x80103000
     else if p = 0x80101000 then 0x80102000 else 0)"
proof -
  note f = slot_facts [OF assms]
  have e: "a = p + 4 * x \<longleftrightarrow> p = a \<and> x = 0" if "pgaligned a" for a
  proof
    assume "a = p + 4 * x"
    then have "p = a" using f(3) PGROUNDDOWN_aligned [OF that] by simp
    with \<open>a = p + 4 * x\<close> show "p = a \<and> x = 0" using slot_inj [OF assms, of 0] by simp
  qed simp
  have al: "aligned4 a" if "pgaligned a" for a using pgaligned_aligned4 [OF that] .
  have c: "pgaligned 0x80101000" "pgaligned 0x80102000" "pgaligned 0x80103000" "pgaligned 0x80104000" "pgaligned 0x80200000" "pgaligned 0x80201000"
    by (simp_all add: pgaligned_def)
  show ?thesis
    unfolding ex_cmem_def using f(2) al [OF assms(1)] by (simp add: load32_store32 al c e [OF c(1)] e [OF c(2)] e [OF c(3)] e [OF c(4)] e [OF c(5)] e [OF c(6)] load32_zero)
qed

lemma ex_cmem_tables:
  "unat x < 1024 \<Longrightarrow> present ex_cmem 0x80200000 x = (x = 0)" "pgtab ex_cmem 0x80200000 0 = 0x80201000"
  "pte_of ex_cmem 0x80200000 w = (if PDX w = 0 \<and> PTX w = 0 then 0x202007 else 0)" "tpages ex_cmem 0x80200000 = {0x80200000, 0x80201000}"
proof -
  have c: "pgaligned 0x80200000" "pgaligned 0x80201000" by (simp_all add: pgaligned_def)
  show p: "unat x < 1024 \<Longrightarrow> present ex_cmem 0x80200000 x = (x = 0)" for x
    by (simp add: present_def ex_cmem_load [OF c(1)] PTE_P_def)
  show t: "pgtab ex_cmem 0x80200000 0 = 0x80201000"
    using ex_cmem_load [OF c(1), of 0] by (simp add: pgtab_def PTE_ADDR_def P2V_def KERNBASE_def)
  show "pte_of ex_cmem 0x80200000 w = (if PDX w = 0 \<and> PTX w = 0 then 0x202007 else 0)"
    using ex_cmem_load [OF c(2) unat_PTX_less, of w] ex_cmem_load [OF c(2), of 0] by (simp add: pte_of_def p t)
  have "{pgtab ex_cmem 0x80200000 x |x. unat x < 1024 \<and> present ex_cmem 0x80200000 x} = {0x80201000}"
    using p t by (auto intro!: exI [of _ 0])
  then show "tpages ex_cmem 0x80200000 = {0x80200000, 0x80201000}" by (simp add: tpages_def)
qed


lemma ex_creatable: "creatable (ex_creator f) 0 1 [0x80101000, 0x80102000, 0x80103000, 0x80104000, 0x80105000] 0x800 0x80202800"
proof -
  let ?s = "ex_creator f" and ?ps = "[0x80101000, 0x80102000, 0x80103000, 0x80104000, 0x80105000] :: addr list"
  have h: "sharedp ?s (Some 0) = ex_shared\<lparr>sh_isThere := f\<rparr>" "m_mem ?s = ex_cmem" "curdir ?s = 0x80200000"
    "st_kmem ?s = \<lparr>km_use_lock = True, km_freelist = 0x80101000\<rparr>" "st_end ?s = st_end ex_threads"
    "st_procs ?s n = (if n = 0 then ex_proc 1 RUNNING else ex_proc 0 UNUSED)" for n
    by (simp_all add: ex_creator_def sharedp_def procp_def curdir_def P2V_def KERNBASE_def ex_threads_def)
  have m: "running 0 ?s" "cpu_ok ?s" "lock_free ?s l" for l
    using ex_filemach_ok [of 1] by (simp_all add: ex_creator_def running_def lock_free_def cpu_ok_def cur_def cpuno_def IF_on_def)
  have d: "pgaligned 0x80200000" by (simp add: pgaligned_def)
  have z: "load32 ex_cmem p = (if p = 0x80104000 then 0x80105000 else if p = 0x80103000 then 0x80104000
      else if p = 0x80102000 then 0x80103000 else if p = 0x80101000 then 0x80102000 else 0)" if "p \<in> set ?ps" for p
    using that ex_cmem_load [of p 0] by (auto simp: pgaligned_def)
  have fr: "free_pages ?s ?ps"
    by (simp add: free_pages_def h z kpage_def ex_threads_end pgaligned_def PHYSTOP_def V2P_def KERNBASE_def)
  have ok: "tables_ok ex_cmem 0x80200000 ?ps"
    unfolding tables_ok_def ex_cmem_tables(4) using d ex_cmem_tables(1,2) by auto
  have pte: "pte_of ex_cmem 0x80200000 w = (if PGROUNDDOWN w = 0 then 0x202007 else 0)" for w
    using ex_cmem_tables(3) [of w] page_index_inj [of w 0] same_page_index [of w 0]
    by (auto simp: PDX_def PTX_def PGROUNDDOWN_def)
  have un: "translate ex_cmem 0x80200000 PTE_P w = None" if "unat (w - 0x1000) div 4096 < 2" for w
  proof -
    have "PGROUNDDOWN w \<noteq> 0"
      using that two_pages(5) [of "0x1000" w] by (auto simp: pgaligned_def)
    then show ?thesis by (simp add: translate_pte pte)
  qed
  have tr: "translate ex_cmem 0x80200000 (PTE_P OR PTE_W) 0x800 = Some 0x80202800"
    using ex_cmem_load [OF d, of 0] ex_cmem_load [of "0x80201000" 0]
    by (simp add: translate_def Let_def PDX_def PTX_def pte_defs P2V_def KERNBASE_def pgaligned_def)
  have u: "find (\<lambda>i. p_state (st_procs ?s i) = UNUSED) [0..<NPROC] = Some 1"
    by (auto simp: find_upt_Some NPROC_def h ex_proc_def)
  show ?thesis
    unfolding creatable_def Let_def h(1-3)
    using m fr ok un tr u
    by (simp add: ex_shared_def vm_ready_def kmem_ready_def h(2) pgaligned_def aligned4_def ex_cmem_tables(4) PGROUNDDOWN_def PGSIZE_def)
qed

text \<open>
  C9. \<open>thread_create\<close> starts a thread of the calling process. With pages, a table entry and a slot
  to spare it returns 0. The new entry is runnable, shares memory, files and parent with the caller,
  and has a process number of its own. It will start at the given routine with the caller's other
  registers, on a new stack that holds a return address and the argument; the page below the stack is
  closed to the user. The thread takes the lowest vacant slot, whose index is stored at the address
  given. No other table entry changes, and the table lock is released.
\<close>

theorem thread_create_starts:
  fixes s :: "'a filemach_scheme" and i :: nat
  defines "h \<equiv> sharedp s (Some i)"
  assumes "creatable s i n ps thread a" "find (\<lambda>k. sh_isThere h k = 0) [0..<NTHREAD] = Some k"
  shows "\<exists>t. thread_create thread start arg s = Ret 0 t
    \<and> (let q = st_procs t n; p = st_procs s i in
         p_state q = RUNNABLE \<and> p_pid q = st_nextpid s \<and> p_sharePtr q = p_sharePtr p \<and> p_parent q = p_parent p
         \<and> \<not> p_imMaster q \<and> p_orderOfThread q = int k
         \<and> st_tf t (p_tf q) = (st_tf s (p_tf p))\<lparr>tf_eax := 0, tf_eip := start, tf_esp := sh_sz h + 8184\<rparr>)
    \<and> (\<forall>j. j \<noteq> n \<longrightarrow> st_procs t j = st_procs s j)
    \<and> sharedp t (Some i) = h\<lparr>sh_sz := sh_sz h + 8192, sh_isThere := (sh_isThere h)(k := 1),
         sh_threads := (sh_threads h)(k := Some n), sh_numOfThread := sh_numOfThread h + 1\<rparr>
    \<and> uload 8 (sh_sz h + 8184) t = Ret (le_bytes 0xFFFFFFFF @ le_bytes arg) t
    \<and> pte_of (m_mem t) (sh_pgdir h) (sh_sz h) AND PTE_U = 0
    \<and> load32 (m_mem t) a = of_nat k \<and> running i t \<and> lock_free t PtableLock"
proof -
  note c = assms(2) [unfolded creatable_def Let_def, folded h_def]
  obtain m kk p z where st: "stacked (m_mem s) m (sh_pgdir h) (sh_sz h) p (le_bytes 0xFFFFFFFF @ le_bytes arg)" "p \<in> set ps"
    and z: "z = slotted n (before_slot s i n (hd ps) start m kk)"
    and run: "thread_create thread start arg s = Ret 0 (z\<lparr>m_mem := store32 m a (of_int (p_orderOfThread (st_procs z n)))\<rparr>)"
    and tp: "tpages m (sh_pgdir h) \<subseteq> tpages (m_mem s) (sh_pgdir h) \<union> set ps"
    using thread_create_run [OF assms(2), of arg start, folded h_def] unfolding before_slot_def Let_def h_def by metis
  have n: "i \<noteq> n" and al: "aligned4 a" and d: "pgaligned (sh_pgdir h)"
    using c translate_aligned tables_okD(1) by (auto simp: vm_ready_def)
  note b = before_slot_simps [OF n, where s = s and p = "hd ps" and start = start and m = m and k = kk, folded h_def]
  let ?b = "before_slot s i n (hd ps) start m kk"
  have "sharedp ?b (Some n) = h\<lparr>sh_sz := sh_sz h + 8192\<rparr>" by (simp add: sharedp_def procp_def b)
  then have zz: "z = set_proc n (\<lambda>q. q\<lparr>p_orderOfThread := int k\<rparr>) (set_shared (p_sharePtr (st_procs ?b n))
       (\<lambda>h. h\<lparr>sh_isThere := (sh_isThere h)(k := 1), sh_threads := (sh_threads h)(k := Some n),
          sh_numOfThread := sh_numOfThread h + 1\<rparr>) ?b)"
    using assms(3) by (simp add: z slotted_def)
  let ?t = "z\<lparr>m_mem := store32 m a (of_nat k)\<rparr>"
  have o: "p_orderOfThread (st_procs z n) = int k" by (simp add: zz)
  have q: "st_procs ?t = (st_procs ?b)(n := (st_procs ?b n)\<lparr>p_orderOfThread := int k\<rparr>)" "st_tf ?t = st_tf ?b"
    by (simp_all add: zz set_proc_def) (simp add: set_shared_def)
  have sh: "sharedp ?t (Some i) = h\<lparr>sh_sz := sh_sz h + 8192, sh_isThere := (sh_isThere h)(k := 1),
         sh_threads := (sh_threads h)(k := Some n), sh_numOfThread := sh_numOfThread h + 1\<rparr>"
    using n unfolding sharedp_def procp_def option.case q by (simp add: zz b)
  have cd: "curdir ?t = sh_pgdir h" "running i ?t" "lock_free ?t PtableLock"
    using c b(4-6) by (simp_all add: zz running_frame)
  have u: "uload 8 (sh_sz h + 8184) ?t = Ret (le_bytes 0xFFFFFFFF @ le_bytes arg) ?t"
    "pte_of (m_mem ?t) (sh_pgdir h) (sh_sz h) = pte_of m (sh_pgdir h) (sh_sz h)"
    using uload_stack [OF st(1) _ _ cd(1) _ al _ _ d, of "of_nat k"] c st(2) tp by auto
  show ?thesis
    using run o n u sh cd stackedD(2) [OF st(1)]
    by (intro exI [of _ ?t]) (simp add: Let_def q b load32_store32_same)
qed


theorem thread_create_starts_witness:
  "\<exists>t. thread_create 0x800 0x40 7 (ex_creator (\<lambda>k. if k = 0 then 1 else 0)) = Ret 0 t \<and> p_state (st_procs t 1) = RUNNABLE
    \<and> p_orderOfThread (st_procs t 1) = 1 \<and> load32 (m_mem t) 0x80202800 = 1
    \<and> uload 8 0x2FF8 t = Ret [255, 255, 255, 255, 7, 0, 0, 0] t"
proof -
  have "find (\<lambda>k. sh_isThere (sharedp (ex_creator (\<lambda>k. if k = 0 then 1 else 0)) (Some 0)) k = 0) [0..<NTHREAD] = Some 1"
    by (simp add: ex_creator_def sharedp_def procp_def NTHREAD_def upt_rec)
  from thread_create_starts [OF ex_creatable this, of "0x40" 7] show ?thesis
    by (auto simp: Let_def ex_creator_def sharedp_def procp_def ex_shared_def le_bytes_def)
qed

text \<open>
  C27. \<open>thread_create\<close> does not notice that a process has all its threads. With all six slots taken it
  still starts a thread and returns 0, but the thread is in no slot and is not counted, and the number
  it reports is the one the table entry was left with.
\<close>

theorem thread_create_without_slot:
  fixes s :: "'a filemach_scheme" and i :: nat
  defines "h \<equiv> sharedp s (Some i)"
  assumes "creatable s i n ps thread a" "\<forall>k<NTHREAD. sh_isThere h k \<noteq> 0"
  shows "\<exists>t. thread_create thread start arg s = Ret 0 t \<and> p_state (st_procs t n) = RUNNABLE
    \<and> p_sharePtr (st_procs t n) = p_sharePtr (st_procs s i) \<and> sharedp t (Some i) = h\<lparr>sh_sz := sh_sz h + 8192\<rparr>
    \<and> p_orderOfThread (st_procs t n) = p_orderOfThread (st_procs s n)
    \<and> load32 (m_mem t) a = of_int (p_orderOfThread (st_procs s n))"
proof -
  obtain m kk p z where z: "z = slotted n (before_slot s i n (hd ps) start m kk)"
    and run: "thread_create thread start arg s = Ret 0 (z\<lparr>m_mem := store32 m a (of_int (p_orderOfThread (st_procs z n)))\<rparr>)"
    using thread_create_run [OF assms(2), of arg start] unfolding before_slot_def Let_def by metis
  have n: "i \<noteq> n" using assms(2) by (auto simp: creatable_def Let_def)
  note b = before_slot_simps [OF n, where s = s and p = "hd ps" and start = start and m = m and k = kk, folded h_def]
  let ?b = "before_slot s i n (hd ps) start m kk"
  have "sharedp ?b (Some n) = h\<lparr>sh_sz := sh_sz h + 8192\<rparr>" by (simp add: sharedp_def procp_def b)
  moreover have "find (\<lambda>k. sh_isThere h k = 0) [0..<NTHREAD] = None" using assms(3) by (simp add: find_upt_None)
  ultimately have "z = ?b" by (simp add: z slotted_def)
  then show ?thesis
    using run n by (simp add: b sharedp_def procp_def load32_store32_same)
qed

theorem thread_create_without_slot_witness:
  "\<exists>t. thread_create 0x800 0x40 7 (ex_creator (\<lambda>_. 1)) = Ret 0 t \<and> p_state (st_procs t 1) = RUNNABLE
    \<and> sh_numOfThread (sharedp t (Some 0)) = 1"
proof -
  have "\<forall>k<NTHREAD. sh_isThere (sharedp (ex_creator (\<lambda>_. 1)) (Some 0)) k \<noteq> 0"
    by (simp add: ex_creator_def sharedp_def procp_def)
  from thread_create_without_slot [OF ex_creatable this, of "0x40" 7] show ?thesis
    by (auto simp: ex_creator_def sharedp_def procp_def ex_shared_def)
qed

end
