(* ===== verification/Ulib.thy ===== *)
theory Ulib
  imports Syscall
begin

text \<open>
  The library of the user programs: \<^verbatim>\<open>src/ulib.c\<close>, \<^verbatim>\<open>src/printf.c\<close> and the system calls that
  \<^verbatim>\<open>src/user.h\<close> declares. The string routines work on the byte memory of the process. A user program
  runs in the sequencing of the prelude over a world \<open>'w\<close> that only the system calls read and change;
  the calls are the fields of a record that every program takes as its first argument. \<^verbatim>\<open>read\<close> gives
  the bytes that it stores at the start of the buffer along with its result, \<^verbatim>\<open>pipe\<close> the two
  descriptors, \<^verbatim>\<open>fstat\<close> the record it fills in. \<^verbatim>\<open>exit\<close> is \<open>Noreturn\<close>. Arguments of programs and
  string constants are their bytes without the final NUL.
\<close>

unbundle bit_operations_syntax

section \<open>System calls\<close>

record 'w usys =
  u_fork :: "('w, int) K"
  u_wait :: "('w, int) K"
  u_pipe :: "('w, int \<times> int \<times> int) K"
  u_write :: "int \<Rightarrow> uchar list \<Rightarrow> ('w, int) K"
  u_read :: "int \<Rightarrow> int \<Rightarrow> ('w, int \<times> uchar list) K"
  u_close :: "int \<Rightarrow> ('w, int) K"
  u_kill :: "int \<Rightarrow> ('w, int) K"
  u_exec :: "uchar list \<Rightarrow> uchar list list \<Rightarrow> ('w, int) K"
  u_open :: "uchar list \<Rightarrow> uint \<Rightarrow> ('w, int) K"
  u_mknod :: "uchar list \<Rightarrow> int \<Rightarrow> int \<Rightarrow> ('w, int) K"
  u_unlink :: "uchar list \<Rightarrow> ('w, int) K"
  u_fstat :: "int \<Rightarrow> ('w, int \<times> stat) K"
  u_link :: "uchar list \<Rightarrow> uchar list \<Rightarrow> ('w, int) K"
  u_mkdir :: "uchar list \<Rightarrow> ('w, int) K"
  u_chdir :: "uchar list \<Rightarrow> ('w, int) K"
  u_dup :: "int \<Rightarrow> ('w, int) K"
  u_getpid :: "('w, int) K"
  u_sbrk :: "uint \<Rightarrow> ('w, addr) K"
  u_sleep :: "int \<Rightarrow> ('w, int) K"
  u_uptime :: "('w, int) K"

definition u_exit :: "('w, 'a) K" where
  "u_exit = kstop Noreturn"

section \<open>Strings and memory\<close>

text \<open>Loops that only a NUL ends are partial: on memory without one they never return.\<close>

partial_function (option) strcpy :: "memory \<Rightarrow> addr \<Rightarrow> addr \<Rightarrow> memory option" where
  "strcpy m s t =
     (let m' = m(s := m t) in if m t \<noteq> 0 then strcpy m' (s + 1) (t + 1) else Some m')"

partial_function (option) strcmp :: "memory \<Rightarrow> addr \<Rightarrow> addr \<Rightarrow> int option" where
  "strcmp m p q =
     (if m p \<noteq> 0 \<and> m p = m q then strcmp m (p + 1) (q + 1)
      else Some (uint (m p) - uint (m q)))"

partial_function (option) u_strlen_from :: "memory \<Rightarrow> addr \<Rightarrow> nat \<Rightarrow> nat option" where
  "u_strlen_from m s n = (if m (s + of_nat n) \<noteq> 0 then u_strlen_from m s (Suc n) else Some n)"

definition u_strlen :: "memory \<Rightarrow> addr \<Rightarrow> nat option" where
  "u_strlen m s = u_strlen_from m s 0"

definition u_memset :: "memory \<Rightarrow> addr \<Rightarrow> uint \<Rightarrow> uint \<Rightarrow> memory" where
  "u_memset m dst c n = stosb m dst c (unat n)"

partial_function (option) strchr :: "memory \<Rightarrow> addr \<Rightarrow> uchar \<Rightarrow> addr option" where
  "strchr m s c =
     (if m s \<noteq> 0 then (if m s = c then Some s else strchr m (s + 1) c) else Some 0)"

definition u_memmove :: "memory \<Rightarrow> addr \<Rightarrow> addr \<Rightarrow> int \<Rightarrow> memory" where
  "u_memmove m vdst vsrc n = copy_up m vdst vsrc (nat n)"

text \<open>\<^verbatim>\<open>int n\<close> wraps around at its width.\<close>

fun atoi_loop :: "uint \<Rightarrow> uchar list \<Rightarrow> uint" where
  "atoi_loop n [] = n"
| "atoi_loop n (c # s) =
     (if 48 \<le> c \<and> c \<le> 57 then atoi_loop (n * 10 + ucast c - 48) s else n)"

definition atoi :: "uchar list \<Rightarrow> int" where
  "atoi s = sint (atoi_loop 0 s)"

text \<open>\<open>k\<close> is \<^verbatim>\<open>max - 1 - i\<close>, the room left for bytes; the result is the string that is stored.\<close>

fun gets_loop :: "'w usys \<Rightarrow> nat \<Rightarrow> uchar list \<Rightarrow> ('w, uchar list) K" where
  "gets_loop os 0 buf = ret buf"
| "gets_loop os (Suc k) buf =
     kbind (u_read os 0 1) (\<lambda>(cc, bs).
     if cc < 1 then ret buf
     else
       let c = hd (bs @ [0])
       in if c = 10 \<or> c = 13 then ret (buf @ [c]) else gets_loop os k (buf @ [c]))"

definition gets :: "'w usys \<Rightarrow> int \<Rightarrow> ('w, uchar list) K" where
  "gets os mx = gets_loop os (nat (mx - 1)) []"

definition u_stat :: "'w usys \<Rightarrow> uchar list \<Rightarrow> ('w, int \<times> stat option) K" where
  "u_stat os n =
     kbind (u_open os n O_RDONLY) (\<lambda>fd.
     if fd < 0 then ret (- 1, None)
     else
       kbind (u_fstat os fd) (\<lambda>(r, st).
       kseq (u_close os fd) (ret (r, Some st))))"

section \<open>Formatted output\<close>

definition putc :: "'w usys \<Rightarrow> int \<Rightarrow> uchar \<Rightarrow> ('w, unit) K" where
  "putc os fd c = kseq (u_write os fd [c]) (ret ())"

definition u_digits :: "uchar list" where
  "u_digits = str ''0123456789ABCDEF''"

text \<open>The digits of a number, least significant first, as the loop stores them.\<close>

lemma word_div_decreases:
  fixes x base :: uint
  assumes "\<not> base < 2" "x div base \<noteq> 0"
  shows "unat (x div base) < unat x"
proof -
  have "x \<noteq> 0" using assms(2) by auto
  then have "0 < unat x" by (simp add: unat_gt_0)
  moreover have "2 \<le> unat base" using assms(1) by (simp add: word_less_nat_alt)
  ultimately show ?thesis by (simp add: unat_div div_less_dividend)
qed

function u_digits_rev :: "uint \<Rightarrow> uint \<Rightarrow> uchar list" where
  "u_digits_rev x base =
     u_digits ! unat (x mod base) #
       (if base < 2 \<or> x div base = 0 then [] else u_digits_rev (x div base) base)"
  by auto
termination
  by (relation "measure (\<lambda>(x, base). unat x)") (auto intro: word_div_decreases)

declare u_digits_rev.simps [simp del]

definition u_int_chars :: "uint \<Rightarrow> uint \<Rightarrow> bool \<Rightarrow> uchar list" where
  "u_int_chars xx base sgnd =
     (let neg = (sgnd \<and> sint xx < 0); x = (if neg then - xx else xx)
      in rev (u_digits_rev x base @ (if neg then [45] else [])))"

definition u_printint :: "'w usys \<Rightarrow> int \<Rightarrow> uint \<Rightarrow> uint \<Rightarrow> bool \<Rightarrow> ('w, unit) K" where
  "u_printint os fd xx base sgnd = kfor (putc os fd) (u_int_chars xx base sgnd)"

text \<open>
  \<open>state\<close> is \<^verbatim>\<open>0\<close> or the percent sign. A missing argument reads whatever is above the call's
  frame; the model stops there.
\<close>

fun u_printf_loop :: "'w usys \<Rightarrow> int \<Rightarrow> uchar \<Rightarrow> uchar list \<Rightarrow> fmtarg list \<Rightarrow> ('w, unit) K" where
  "u_printf_loop os fd state [] ap = ret ()"
| "u_printf_loop os fd state (c # fmt) ap =
     (if state = 0 then
        (if c = 37 then u_printf_loop os fd 37 fmt ap
         else kseq (putc os fd c) (u_printf_loop os fd 0 fmt ap))
      else if state = 37 then
        (if c = 100 then
           (case ap of ArgInt v # as \<Rightarrow>
              kseq (u_printint os fd v 10 True) (u_printf_loop os fd 0 fmt as)
            | _ \<Rightarrow> kstop (Wild ''printf argument''))
         else if c = 120 \<or> c = 112 then
           (case ap of ArgInt v # as \<Rightarrow>
              kseq (u_printint os fd v 16 False) (u_printf_loop os fd 0 fmt as)
            | _ \<Rightarrow> kstop (Wild ''printf argument''))
         else if c = 115 then
           (case ap of ArgStr v # as \<Rightarrow>
              kseq (kfor (putc os fd) (case v of None \<Rightarrow> str ''(null)'' | Some s \<Rightarrow> s))
                   (u_printf_loop os fd 0 fmt as)
            | _ \<Rightarrow> kstop (Wild ''printf argument''))
         else if c = 99 then
           (case ap of ArgInt v # as \<Rightarrow>
              kseq (putc os fd (ucast v)) (u_printf_loop os fd 0 fmt as)
            | _ \<Rightarrow> kstop (Wild ''printf argument''))
         else if c = 37 then kseq (putc os fd c) (u_printf_loop os fd 0 fmt ap)
         else
           kseq (putc os fd 37) (kseq (putc os fd c) (u_printf_loop os fd 0 fmt ap)))
      else u_printf_loop os fd state fmt ap)"

definition u_printf :: "'w usys \<Rightarrow> int \<Rightarrow> string \<Rightarrow> fmtarg list \<Rightarrow> ('w, unit) K" where
  "u_printf os fd fmt ap = u_printf_loop os fd 0 (str fmt) ap"

abbreviation str_arg :: "uchar list \<Rightarrow> fmtarg" where
  "str_arg s \<equiv> ArgStr (Some s)"

section \<open>Numbers\<close>

lemma u_digits_decimal:
  assumes "k < 10"
  shows "u_digits ! k = 48 + of_nat k"
proof -
  have "k = 0 \<or> k = 1 \<or> k = 2 \<or> k = 3 \<or> k = 4 \<or> k = 5 \<or> k = 6 \<or> k = 7 \<or> k = 8 \<or> k = 9"
    using assms by arith
  then show ?thesis by (elim disjE) (simp_all add: u_digits_def str_def of_char_def)
qed

lemma atoi_digit:
  assumes "k < 10"
  shows "atoi_loop n ((48 + of_nat k) # s) = atoi_loop (n * 10 + of_nat k) s"
proof -
  have "k = 0 \<or> k = 1 \<or> k = 2 \<or> k = 3 \<or> k = 4 \<or> k = 5 \<or> k = 6 \<or> k = 7 \<or> k = 8 \<or> k = 9"
    using assms by arith
  then have "48 \<le> (48 + of_nat k :: uchar) \<and> (48 + of_nat k :: uchar) \<le> 57 \<and>
      ucast (48 + of_nat k :: uchar) = (of_nat k + 48 :: uint)"
    by (elim disjE) simp_all
  then show ?thesis by (simp add: add.assoc [symmetric])
qed

lemma unat_mod_10: "unat ((x :: uint) mod 10) < 10"
  by (simp add: unat_mod)

lemma atoi_u_digits_rev: "atoi_loop 0 (rev (u_digits_rev x 10) @ s) = atoi_loop x s"
proof (induction x "10 :: uint" arbitrary: s rule: u_digits_rev.induct)
  case (1 x)
  have d: "atoi_loop n (u_digits ! unat (x mod 10) # s) = atoi_loop (n * 10 + x mod 10) s" for n s
    using atoi_digit [OF unat_mod_10] by (simp add: u_digits_decimal [OF unat_mod_10])
  have x: "x div 10 * 10 + x mod 10 = x" by (rule div_mult_mod_eq)
  show ?case
  proof (cases "x div 10 = 0")
    case True
    then have "rev (u_digits_rev x 10) @ s = u_digits ! unat (x mod 10) # s"
      by (subst u_digits_rev.simps) simp
    moreover have "0 * 10 + x mod 10 = x" using x True by simp
    ultimately show ?thesis by (simp only: d)
  next
    case False
    then have ih: "atoi_loop 0 (rev (u_digits_rev (x div 10) 10) @ t) = atoi_loop (x div 10) t" for t
      by (intro 1) simp
    from False have "rev (u_digits_rev x 10) @ s =
        rev (u_digits_rev (x div 10) 10) @ u_digits ! unat (x mod 10) # s"
      by (subst u_digits_rev.simps) simp
    then show ?thesis by (simp only: ih d x)
  qed
qed



section \<open>The string routines on strings\<close>

lemma u_strlen_from_cstr:
  "cstr m s bs \<Longrightarrow> n \<le> length bs \<Longrightarrow> u_strlen_from m s n = Some (length bs)"
proof (induction "length bs - n" arbitrary: n)
  case 0
  then show ?case by (subst u_strlen_from.simps) (simp add: cstr_def)
next
  case (Suc k)
  then have "n < length bs" by simp
  then show ?case using Suc cstr_nth [OF Suc.prems(1), of n]
    by (subst u_strlen_from.simps) (simp add: Suc_leI)
qed

lemma u_strlen_cstr: "cstr m s bs \<Longrightarrow> u_strlen m s = Some (length bs)"
  by (simp add: u_strlen_def u_strlen_from_cstr)

lemma strchr_cstr:
  "cstr m s bs \<Longrightarrow> strchr m s c =
     Some (if c \<in> set bs then s + of_nat (length (takeWhile (\<lambda>b. b \<noteq> c) bs)) else 0)"
proof (induction bs arbitrary: s)
  case Nil
  then show ?case by (subst strchr.simps) (simp add: cstr_Nil)
next
  case (Cons b bs)
  then show ?case by (subst strchr.simps) (auto simp: cstr_Cons)
qed

text \<open>The value of \<^verbatim>\<open>strcmp\<close> on two strings: the difference of the first bytes that differ.\<close>

fun strcmp_l :: "uchar list \<Rightarrow> uchar list \<Rightarrow> int" where
  "strcmp_l (a # s) (b # t) = (if a = b then strcmp_l s t else uint a - uint b)"
| "strcmp_l s t = uint (hd (s @ [0])) - uint (hd (t @ [0]))"

lemma strcmp_cstr: "cstr m p s \<Longrightarrow> cstr m q t \<Longrightarrow> strcmp m p q = Some (strcmp_l s t)"
proof (induction s arbitrary: t p q)
  case Nil
  then show ?case by (subst strcmp.simps) (cases t; simp add: cstr_Nil cstr_Cons)
next
  case (Cons a s)
  then show ?case by (subst strcmp.simps) (cases t; auto simp: cstr_Nil cstr_Cons)
qed

lemma strcmp_l_zero: "0 \<notin> set s \<Longrightarrow> 0 \<notin> set t \<Longrightarrow> strcmp_l s t = 0 \<longleftrightarrow> s = t"
  by (induction s t rule: strcmp_l.induct) (auto simp: hd_append neq_Nil_conv word_uint_eq_iff split: list.splits)

text \<open>Where the kernel copies upwards, the user library's \<^verbatim>\<open>memmove\<close> does what the kernel's does.\<close>

lemma u_memmove_memmove:
  "\<not> (src < dst \<and> dst < src + n) \<Longrightarrow> u_memmove m dst src (uint n) = memmove m dst src n"
  by (auto simp: u_memmove_def memmove_def)

section \<open>What printf writes\<close>

text \<open>The text a format and its arguments stand for; \<open>None\<close> where an argument is missing.\<close>

fun expand :: "uchar list \<Rightarrow> fmtarg list \<Rightarrow> uchar list option" where
  "expand [] ap = Some []"
| "expand [c] ap = Some (if c = 37 then [] else [c])"
| "expand (c # e # fmt) ap =
     (if c \<noteq> 37 then map_option (\<lambda>t. c # t) (expand (e # fmt) ap)
      else if e \<in> {100, 120, 112, 115, 99} then
        (case ap of [] \<Rightarrow> None
         | a # as \<Rightarrow>
             (case a of
                ArgInt v \<Rightarrow>
                  if e = 115 then None
                  else map_option (\<lambda>t. (if e = 99 then [ucast v]
                    else if e = 100 then u_int_chars v 10 True else u_int_chars v 16 False) @ t)
                    (expand fmt as)
              | ArgStr v \<Rightarrow>
                  if e \<noteq> 115 then None
                  else map_option (\<lambda>t. (case v of None \<Rightarrow> str ''(null)'' | Some s \<Rightarrow> s) @ t)
                    (expand fmt as)))
      else map_option (\<lambda>t. (if e = 37 then [37] else [37, e]) @ t) (expand fmt ap))"

lemma u_printf_loop_expand:
  "expand fmt ap = Some t \<Longrightarrow> u_printf_loop os fd 0 fmt ap = kfor (putc os fd) t"
  by (induction fmt ap arbitrary: t rule: expand.induct)
     (auto simp: kfor_append u_printint_def split: if_splits list.splits fmtarg.splits option.splits)

end
