(* ===== verification/Grep.thy ===== *)
theory Grep
  imports Ulib
begin

text \<open>
  \<^verbatim>\<open>src/grep.c\<close>: the matcher of Kernighan and Pike and the program around it. Patterns and lines are
  their bytes without the final NUL, so \<^verbatim>\<open>re[0] == 0\<close> is the empty list. The buffer of the program is
  the list of its first \<^verbatim>\<open>m\<close> bytes. The loop over the input runs as long as \<^verbatim>\<open>read\<close> delivers; its
  fuel is the number of reads. The matcher is proved to decide the language of the pattern.
\<close>

section \<open>The matcher\<close>

function matchhere :: "uchar list \<Rightarrow> uchar list \<Rightarrow> bool"
  and matchstar :: "uchar \<Rightarrow> uchar list \<Rightarrow> uchar list \<Rightarrow> bool" where
  "matchhere re text =
     (case re of [] \<Rightarrow> True
      | r0 # re1 \<Rightarrow>
          if re1 \<noteq> [] \<and> hd re1 = 42 then matchstar r0 (tl re1) text
          else if r0 = 36 \<and> re1 = [] then text = []
          else if text \<noteq> [] \<and> (r0 = 46 \<or> r0 = hd text) then matchhere re1 (tl text)
          else False)"
| "matchstar c re text =
     (if matchhere re text then True
      else if text \<noteq> [] \<and> (hd text = c \<or> c = 46) then matchstar c re (tl text)
      else False)"
  by pat_completeness auto
termination
  by (relation "measures [case_sum (\<lambda>(re, text). length re) (\<lambda>(c, re, text). length re),
        case_sum (\<lambda>(re, text). length text) (\<lambda>(c, re, text). length text),
        case_sum (\<lambda>_. 0) (\<lambda>_. 1)]") auto

declare matchhere.simps [simp del] matchstar.simps [simp del]

text \<open>The unanchored search, which looks at the empty end of the text too.\<close>

fun match_any :: "uchar list \<Rightarrow> uchar list \<Rightarrow> bool" where
  "match_any re text =
     (if matchhere re text then True
      else case text of [] \<Rightarrow> False | c # text' \<Rightarrow> match_any re text')"

declare match_any.simps [simp del]

definition re_match :: "uchar list \<Rightarrow> uchar list \<Rightarrow> bool" where
  "re_match re text = (if re \<noteq> [] \<and> hd re = 94 then matchhere (tl re) text else match_any re text)"

section \<open>The program\<close>

text \<open>
  The lines of the buffer from \<open>p\<close> on: each one that a newline ends is matched and, when it
  matches, written with its newline; the rest is returned, with whether \<open>p\<close> moved. \<^verbatim>\<open>strchr\<close> stops at
  the first NUL of the buffer.
\<close>

function grep_lines :: "'w usys \<Rightarrow> uchar list \<Rightarrow> uchar list \<Rightarrow> ('w, uchar list) K" where
  "grep_lines os pattern p =
     (let z = takeWhile (\<lambda>c. c \<noteq> 0) p; line = takeWhile (\<lambda>c. c \<noteq> 10) z
      in if 10 \<in> set z
         then
           kseq (kwhen (re_match pattern line) (kseq (u_write os 1 (line @ [10])) (ret ()))) (
           grep_lines os pattern (drop (length line + 1) p))
         else ret p)"
  by pat_completeness auto
termination
  by (relation "measure (\<lambda>(os, pattern, p). length p)")
     (auto dest!: set_takeWhileD intro!: diff_less elim: list.set_cases)

declare grep_lines.simps [simp del]

fun grep_loop :: "'w usys \<Rightarrow> uchar list \<Rightarrow> int \<Rightarrow> nat \<Rightarrow> uchar list \<Rightarrow> ('w, unit) K" where
  "grep_loop os pattern fd 0 buf = kstop Diverge"
| "grep_loop os pattern fd (Suc k) buf =
     kbind (u_read os fd (1024 - int (length buf) - 1)) (\<lambda>(n, bs).
     if n \<le> 0 then ret ()
     else
       let buf = buf @ take (nat n) bs
       in kbind (grep_lines os pattern buf) (\<lambda>p.
          grep_loop os pattern fd k (if length p = length buf then [] else p)))"

definition grep :: "'w usys \<Rightarrow> nat \<Rightarrow> uchar list \<Rightarrow> int \<Rightarrow> ('w, unit) K" where
  "grep os k pattern fd = grep_loop os pattern fd k []"

fun grep_files :: "'w usys \<Rightarrow> nat \<Rightarrow> uchar list \<Rightarrow> uchar list list \<Rightarrow> ('w, unit) K" where
  "grep_files os k pattern [] = u_exit"
| "grep_files os k pattern (f # fs) =
     kbind (u_open os f 0) (\<lambda>fd.
     if fd < 0 then kseq (u_printf os 1 ''grep: cannot open %s\<newline>'' [str_arg f]) u_exit
     else kseq (grep os k pattern fd) (kseq (u_close os fd) (grep_files os k pattern fs)))"

definition grep_main :: "'w usys \<Rightarrow> nat \<Rightarrow> uchar list list \<Rightarrow> ('w, unit) K" where
  "grep_main os k argv =
     (if length argv \<le> 1 then kseq (u_printf os 2 ''usage: grep pattern [file ...]\<newline>'' []) u_exit
      else if length argv \<le> 2 then kseq (grep os k (argv ! 1) 0) u_exit
      else grep_files os k (argv ! 1) (drop 2 argv))"

section \<open>What a pattern means\<close>

text \<open>
  A pattern is a sequence of items, each a character that is starred or not, with an optional
  anchor at either end. Its language is defined without the matcher: an item stands for one character
  it accepts, a starred one for any number of them.
\<close>

fun items :: "uchar list \<Rightarrow> (uchar \<times> bool) list" where
  "items [] = []"
| "items [c] = (if c = 36 then [] else [(c, False)])"
| "items (c # d # re) = (if d = 42 then (c, True) # items re else (c, False) # items (d # re))"

text \<open>A dollar sign anchors when it is the last character and is not itself starred.\<close>

fun anchored_end :: "uchar list \<Rightarrow> bool" where
  "anchored_end [] = False"
| "anchored_end [c] = (c = 36)"
| "anchored_end (c # d # re) = (if d = 42 then anchored_end re else anchored_end (d # re))"

definition accepts :: "uchar \<Rightarrow> uchar \<Rightarrow> bool" where
  "accepts c x \<longleftrightarrow> c = 46 \<or> c = x"

primrec lang :: "(uchar \<times> bool) list \<Rightarrow> uchar list set" where
  "lang [] = {[]}"
| "lang (i # is) =
     (if snd i then {u @ w | u w. (\<forall>x\<in>set u. accepts (fst i) x) \<and> w \<in> lang is}
      else {x # w | x w. accepts (fst i) x \<and> w \<in> lang is})"

definition starts :: "uchar list \<Rightarrow> uchar list \<Rightarrow> bool" where
  "starts re tx \<longleftrightarrow> (\<exists>w v. tx = w @ v \<and> w \<in> lang (items re) \<and> (anchored_end re \<longrightarrow> v = []))"

section \<open>The matcher decides the language\<close>

lemma starts_Nil: "starts [] tx"
  by (simp add: starts_def)

lemma starts_dollar: "starts [36] tx \<longleftrightarrow> tx = []"
  by (simp add: starts_def)

lemma starts_star_iff:
  "starts (c # 42 # re) tx \<longleftrightarrow>
     (\<exists>u w v. tx = u @ w @ v \<and> (\<forall>x\<in>set u. accepts c x) \<and> w \<in> lang (items re) \<and>
        (anchored_end re \<longrightarrow> v = []))"
proof
  assume "starts (c # 42 # re) tx"
  then obtain w' v where "tx = w' @ v" "w' \<in> lang (items (c # 42 # re))" "anchored_end re \<longrightarrow> v = []"
    unfolding starts_def by auto
  moreover from this(2) obtain u w where
      "w' = u @ w" "\<forall>x\<in>set u. accepts c x" "w \<in> lang (items re)"
    by auto
  ultimately show "\<exists>u w v. tx = u @ w @ v \<and> (\<forall>x\<in>set u. accepts c x) \<and> w \<in> lang (items re) \<and>
      (anchored_end re \<longrightarrow> v = [])"
    by (metis append_assoc)
next
  assume "\<exists>u w v. tx = u @ w @ v \<and> (\<forall>x\<in>set u. accepts c x) \<and> w \<in> lang (items re) \<and>
      (anchored_end re \<longrightarrow> v = [])"
  then obtain u w v where "tx = (u @ w) @ v" "\<forall>x\<in>set u. accepts c x" "w \<in> lang (items re)"
      "anchored_end re \<longrightarrow> v = []"
    by auto
  moreover from this(2,3) have "u @ w \<in> lang (items (c # 42 # re))" by auto
  moreover have "anchored_end (c # 42 # re) = anchored_end re" by simp
  ultimately show "starts (c # 42 # re) tx" unfolding starts_def by blast
qed

lemma starts_star:
  "starts (c # 42 # re) tx \<longleftrightarrow>
     starts re tx \<or> (tx \<noteq> [] \<and> accepts c (hd tx) \<and> starts (c # 42 # re) (tl tx))"
proof
  assume "starts (c # 42 # re) tx"
  then obtain u w v where t: "tx = u @ w @ v" "\<forall>x\<in>set u. accepts c x" "w \<in> lang (items re)"
      "anchored_end re \<longrightarrow> v = []"
    unfolding starts_star_iff by blast
  show "starts re tx \<or> (tx \<noteq> [] \<and> accepts c (hd tx) \<and> starts (c # 42 # re) (tl tx))"
  proof (cases u)
    case Nil
    then show ?thesis using t by (auto simp: starts_def)
  next
    case (Cons a u')
    then have "tl tx = u' @ w @ v" "\<forall>x\<in>set u'. accepts c x" using t by auto
    then have "starts (c # 42 # re) (tl tx)" using t(3,4) unfolding starts_star_iff by blast
    then show ?thesis using t Cons by auto
  qed
next
  assume a: "starts re tx \<or> (tx \<noteq> [] \<and> accepts c (hd tx) \<and> starts (c # 42 # re) (tl tx))"
  show "starts (c # 42 # re) tx"
  proof (cases "starts re tx")
    case True
    then obtain w v where "tx = [] @ w @ v" "w \<in> lang (items re)" "anchored_end re \<longrightarrow> v = []"
      by (auto simp: starts_def)
    moreover have "\<forall>x\<in>set []. accepts c x" by simp
    ultimately show ?thesis unfolding starts_star_iff by blast
  next
    case False
    then obtain u w v where t: "tl tx = u @ w @ v" "\<forall>x\<in>set u. accepts c x" "w \<in> lang (items re)"
        "anchored_end re \<longrightarrow> v = []" "tx \<noteq> []" "accepts c (hd tx)"
      using a unfolding starts_star_iff by blast
    then have "tx = (hd tx # u) @ w @ v" by (cases tx) auto
    moreover have "\<forall>x\<in>set (hd tx # u). accepts c x" using t by simp
    ultimately show ?thesis using t(3,4) unfolding starts_star_iff by blast
  qed
qed

lemma starts_one:
  assumes "re = [] \<or> hd re \<noteq> 42" "\<not> (c = 36 \<and> re = [])"
  shows "starts (c # re) tx \<longleftrightarrow> tx \<noteq> [] \<and> accepts c (hd tx) \<and> starts re (tl tx)"
proof -
  have "lang (items (c # re)) = {x # w | x w. accepts c x \<and> w \<in> lang (items re)}"
    "anchored_end (c # re) = anchored_end re"
    using assms by (cases re; auto)+
  then show ?thesis by (cases tx) (auto simp: starts_def Cons_eq_append_conv)
qed

lemma matchhere_starts: "matchhere re tx \<longleftrightarrow> starts re tx"
  and matchstar_starts: "matchstar c re tx \<longleftrightarrow> starts (c # 42 # re) tx"
proof (induction re tx and c re tx rule: matchhere_matchstar.induct)
  case (1 re tx)
  show ?case
  proof (cases re)
    case Nil
    then show ?thesis by (simp add: matchhere.simps starts_Nil)
  next
    case (Cons r0 re1)
    note IH = 1 [OF Cons]
    consider (star) "re1 \<noteq> []" "hd re1 = 42" | (dollar) "re1 = []" "r0 = 36"
      | (one) "re1 = [] \<or> hd re1 \<noteq> 42" "\<not> (r0 = 36 \<and> re1 = [])"
      by blast
    then show ?thesis
    proof cases
      case star
      then have "r0 # re1 = r0 # 42 # tl re1" by (cases re1) auto
      then show ?thesis using IH(1) star Cons by (simp add: matchhere.simps)
    next
      case dollar
      then show ?thesis using Cons by (simp add: matchhere.simps starts_dollar)
    next
      case one
      then have "matchhere (r0 # re1) tx \<longleftrightarrow>
          tx \<noteq> [] \<and> accepts r0 (hd tx) \<and> matchhere re1 (tl tx)"
        by (subst matchhere.simps) (auto simp: accepts_def)
      moreover have "matchhere re1 (tl tx) \<longleftrightarrow> starts re1 (tl tx)"
        if "tx \<noteq> []" "accepts r0 (hd tx)"
        using one that by (intro IH(2)) (auto simp: accepts_def)
      ultimately show ?thesis unfolding Cons starts_one [OF one] by blast
    qed
  qed
next
  case (2 c re tx)
  have "matchstar c re tx \<longleftrightarrow>
      matchhere re tx \<or> (tx \<noteq> [] \<and> accepts c (hd tx) \<and> matchstar c re (tl tx))"
    by (subst matchstar.simps) (auto simp: accepts_def)
  moreover have "matchstar c re (tl tx) \<longleftrightarrow> starts (c # 42 # re) (tl tx)"
    if "\<not> matchhere re tx" "tx \<noteq> []" "accepts c (hd tx)"
    using that by (intro 2(2)) (auto simp: accepts_def)
  ultimately show ?case unfolding starts_star [of c re tx] using 2(1) by blast
qed
lemma match_any_search: "match_any re tx \<longleftrightarrow> (\<exists>u s. tx = u @ s \<and> starts re s)"
proof (induction tx)
  case Nil
  then show ?case by (simp add: match_any.simps matchhere_starts)
next
  case (Cons c tx)
  have "(\<exists>u s. c # tx = u @ s \<and> starts re s) \<longleftrightarrow>
      starts re (c # tx) \<or> (\<exists>u s. tx = u @ s \<and> starts re s)"
    by (metis append_Cons append_Nil list.exhaust_sel list.sel(3) tl_append2 hd_append2)
  then show ?case using Cons by (simp add: match_any.simps [of re "c # tx"] matchhere_starts)
qed

text \<open>
  C17. The matcher of \<^verbatim>\<open>grep\<close> decides the language of the pattern: it answers yes exactly when some part
  of the line is a word of the language of the pattern's items, a part that begins the line when the
  pattern begins with a caret and ends it when it ends with an unstarred dollar sign. The language is
  defined on its own, without the search order of the matcher.
\<close>

theorem re_match_language:
  "re_match re tx \<longleftrightarrow>
     (let caret = (re \<noteq> [] \<and> hd re = 94); body = (if caret then tl re else re)
      in \<exists>u w v. tx = u @ w @ v \<and> w \<in> lang (items body) \<and>
           (caret \<longrightarrow> u = []) \<and> (anchored_end body \<longrightarrow> v = []))"
proof (cases "re \<noteq> [] \<and> hd re = 94")
  case True
  then show ?thesis by (simp add: re_match_def matchhere_starts starts_def Let_def)
next
  case False
  then have "re_match re tx \<longleftrightarrow> (\<exists>u s. tx = u @ s \<and> starts re s)"
    unfolding re_match_def if_not_P [OF False] by (simp add: match_any_search)
  also have "\<dots> \<longleftrightarrow> (\<exists>u w v. tx = u @ w @ v \<and> w \<in> lang (items re) \<and> (anchored_end re \<longrightarrow> v = []))"
    unfolding starts_def by blast
  finally show ?thesis unfolding Let_def if_not_P [OF False] using False by blast
qed

section \<open>The lines that grep prints\<close>

text \<open>The lines that a newline ends, and what follows the last newline; \<open>l\<close> is the line so far.\<close>

fun full_lines :: "uchar list \<Rightarrow> uchar list \<Rightarrow> uchar list list" where
  "full_lines l [] = []"
| "full_lines l (c # s) = (if c = 10 then l # full_lines [] s else full_lines (l @ [c]) s)"

fun last_part :: "uchar list \<Rightarrow> uchar list \<Rightarrow> uchar list" where
  "last_part l [] = l"
| "last_part l (c # s) = (if c = 10 then last_part [] s else last_part (l @ [c]) s)"

lemma full_lines_append: "full_lines l (s @ t) = full_lines l s @ full_lines (last_part l s) t"
  by (induction l s rule: full_lines.induct) auto

lemma last_part_append: "last_part l (s @ t) = last_part (last_part l s) t"
  by (induction l s rule: full_lines.induct) auto

lemma full_lines_from: "10 \<notin> set l \<Longrightarrow> full_lines k (l @ s) = full_lines (k @ l) s"
  by (induction l arbitrary: k) auto

lemma last_part_from: "10 \<notin> set l \<Longrightarrow> last_part k (l @ s) = last_part (k @ l) s"
  by (induction l arbitrary: k) auto

lemma last_part_no_newline: "10 \<notin> set l \<Longrightarrow> 10 \<notin> set (last_part l s)"
  by (induction l s rule: last_part.induct) auto

lemma last_part_bytes: "set (last_part l s) \<subseteq> set l \<union> set s"
  by (induction l s rule: last_part.induct) auto

lemma last_part_length: "10 \<in> set s \<Longrightarrow> length (last_part l s) < length s"
proof (induction l s rule: last_part.induct)
  case (2 l c s)
  have "length (last_part [] t) \<le> length t" for t
  proof (cases "10 \<in> set t")
    case False
    then show ?thesis using last_part_from [of t "[]" "[]"] by simp
  next
    case True
    have "length (last_part k t) \<le> length k + length t" for k
      by (induction k t rule: last_part.induct) auto
    from this [of "[]"] show ?thesis by simp
  qed
  then show ?case using 2 by (auto simp: less_Suc_eq_le)
qed simp

text \<open>What is printed of some lines.\<close>

definition printed :: "uchar list \<Rightarrow> uchar list list \<Rightarrow> uchar list" where
  "printed pattern ls = concat (map (\<lambda>l. l @ [10]) (filter (re_match pattern) ls))"

text \<open>
  A world whose descriptor \<open>fd\<close> delivers the chunks \<open>inp\<close>, each to one \<^verbatim>\<open>read\<close> with room for it, and
  whose standard output collects what is written.
\<close>

definition streams ::
  "'w usys \<Rightarrow> int \<Rightarrow> ('w \<Rightarrow> uchar list list) \<Rightarrow> ('w \<Rightarrow> uchar list) \<Rightarrow> bool" where
  "streams os fd inp out \<longleftrightarrow>
     (\<forall>w n. inp w = [] \<longrightarrow> u_read os fd n w = Ret (0, []) w) \<and>
     (\<forall>w n c cs. inp w = c # cs \<longrightarrow> int (length c) \<le> n \<longrightarrow>
        (\<exists>w'. u_read os fd n w = Ret (int (length c), c) w' \<and> inp w' = cs \<and> out w' = out w)) \<and>
     (\<forall>w bs. \<exists>r w'. u_write os 1 bs w = Ret r w' \<and> inp w' = inp w \<and> out w' = out w @ bs)"

lemma streams_end: "streams os fd inp out \<Longrightarrow> inp w = [] \<Longrightarrow> u_read os fd n w = Ret (0, []) w"
  unfolding streams_def by blast

lemma streams_read:
  assumes "streams os fd inp out" "inp w = c # cs" "int (length c) \<le> n"
  obtains w' where "u_read os fd n w = Ret (int (length c), c) w'" "inp w' = cs" "out w' = out w"
  using assms unfolding streams_def by blast

lemma streams_write:
  assumes "streams os fd inp out"
  obtains r w' where "u_write os 1 bs w = Ret r w'" "inp w' = inp w" "out w' = out w @ bs"
  using assms unfolding streams_def by blast

lemma grep_lines_run:
  assumes "streams os fd inp out" "0 \<notin> set p"
  shows "\<exists>w'. grep_lines os pattern p w = Ret (last_part [] p) w' \<and> inp w' = inp w \<and>
     out w' = out w @ printed pattern (full_lines [] p)"
  using assms(2)
proof (induction "length p" arbitrary: p w rule: less_induct)
  case less
  have z: "takeWhile (\<lambda>c. c \<noteq> 0) p = p" using less.prems by (auto simp: takeWhile_eq_all_conv)
  show ?case
  proof (cases "10 \<in> set p")
    case False
    then show ?thesis
      using full_lines_from [of p "[]" "[]"] last_part_from [of p "[]" "[]"]
      by (subst grep_lines.simps) (simp add: z printed_def krun)
  next
    case True
    then obtain l q where q: "p = l @ 10 # q" and l: "10 \<notin> set l"
      using split_list_first by metis
    have tw: "takeWhile (\<lambda>c. c \<noteq> 10) p = l" unfolding q using l by (auto simp: takeWhile_tail)
    have step: "grep_lines os pattern p =
        kseq (kwhen (re_match pattern l) (kseq (u_write os 1 (l @ [10])) (ret ()))) (grep_lines os pattern q)"
      using True by (subst grep_lines.simps) (simp add: z tw, simp add: q)
    have f: "full_lines [] p = l # full_lines [] q" "last_part [] p = last_part [] q"
      using full_lines_from [OF l, of "[]"] last_part_from [OF l, of "[]"] by (simp_all add: q)
    obtain r w0 where "u_write os 1 (l @ [10]) w = Ret r w0" "inp w0 = inp w" "out w0 = out w @ l @ [10]"
      using streams_write [OF assms(1)] by blast
    then obtain w1 where w1: "kwhen (re_match pattern l) (kseq (u_write os 1 (l @ [10])) (ret ())) w = Ret () w1"
        "inp w1 = inp w" "out w1 = out w @ printed pattern [l]"
      by (cases "re_match pattern l") (auto simp: kwhen_run kseq_run ret_run printed_def)
    obtain w2 where w2: "grep_lines os pattern q w1 = Ret (last_part [] q) w2" "inp w2 = inp w1"
        "out w2 = out w1 @ printed pattern (full_lines [] q)"
      using less.hyps [of q w1] less.prems q by auto
    have "printed pattern [l] @ printed pattern ls = printed pattern (l # ls)" for ls
      by (simp add: printed_def)
    then show ?thesis using w1 w2 unfolding step f by (simp add: kseq_Ret)
  qed
qed

definition line_chunk :: "uchar list \<Rightarrow> bool" where
  "line_chunk c \<longleftrightarrow> 10 \<in> set c \<and> 0 \<notin> set c \<and> length c \<le> 512"

lemma grep_loop_run:
  assumes "streams os fd inp out"
  shows "inp w = cs \<Longrightarrow> \<forall>c\<in>set cs. line_chunk c \<Longrightarrow> length cs < k \<Longrightarrow>
     10 \<notin> set buf \<Longrightarrow> 0 \<notin> set buf \<Longrightarrow> length buf \<le> 511 \<Longrightarrow>
     \<exists>w'. grep_loop os pattern fd k buf w = Ret () w' \<and> inp w' = [] \<and>
       out w' = out w @ printed pattern (full_lines buf (concat cs))"
proof (induction cs arbitrary: k buf w)
  case Nil
  then obtain k' where "k = Suc k'" by (cases k) auto
  then show ?case using Nil streams_end [OF assms, of w] by (simp add: kbind_run ret_run printed_def)
next
  case (Cons c cs)
  then obtain k' where k: "k = Suc k'" by (cases k) auto
  have c: "10 \<in> set c" "0 \<notin> set c" "length c \<le> 512" using Cons.prems(2) by (auto simp: line_chunk_def)
  define b where "b = buf @ c"
  obtain w1 where w1: "u_read os fd (1024 - int (length buf) - 1) w = Ret (int (length c), c) w1"
      "inp w1 = cs" "out w1 = out w"
    using streams_read [OF assms Cons.prems(1), of "1024 - int (length buf) - 1"] c Cons.prems(6) by auto
  obtain w2 where w2: "grep_lines os pattern b w1 = Ret (last_part [] b) w2" "inp w2 = cs"
      "out w2 = out w @ printed pattern (full_lines [] b)"
    using grep_lines_run [OF assms, of b pattern w1] c Cons.prems(5) w1 by (auto simp: b_def)
  have f: "full_lines [] b = full_lines buf c" "last_part [] b = last_part buf c"
    using full_lines_from [OF Cons.prems(4), of "[]"] last_part_from [OF Cons.prems(4), of "[]"]
    by (simp_all add: b_def)
  have s: "length (last_part buf c) < length c" by (rule last_part_length [OF c(1)])
  obtain w3 where w3: "grep_loop os pattern fd k' (last_part buf c) w2 = Ret () w3" "inp w3 = []"
      "out w3 = out w2 @ printed pattern (full_lines (last_part buf c) (concat cs))"
    using Cons.IH [OF w2(2), of k' "last_part buf c"] Cons.prems k s c
      last_part_no_newline [OF Cons.prems(4)] last_part_bytes [of buf c] by auto
  have "grep_loop os pattern fd k buf w = grep_loop os pattern fd k' (last_part buf c) w2"
    using w1(1) w2(1) s c(1) unfolding k b_def [symmetric] f
    by (auto simp: kbind_run Let_def b_def [symmetric]) (simp add: b_def)
  then show ?case using w2 w3 f
    by (simp add: full_lines_append printed_def)
qed



section \<open>The hypotheses can hold\<close>

text \<open>A world of chunks to read and of bytes written.\<close>

definition chunk_os :: "(uchar list list \<times> uchar list) usys" where
  "chunk_os = \<lparr>u_fork = ret (- 1), u_wait = ret (- 1), u_pipe = ret (- 1, 0, 0),
     u_write = (\<lambda>fd bs (i, out). Ret (int (length bs)) (i, out @ bs)),
     u_read = (\<lambda>fd n (i, out). case i of [] \<Rightarrow> Ret (0, []) (i, out)
        | c # cs \<Rightarrow> Ret (int (length c), c) (cs, out)),
     u_close = (\<lambda>fd. ret 0), u_kill = (\<lambda>p. ret (- 1)), u_exec = (\<lambda>p a. ret (- 1)),
     u_open = (\<lambda>p m. ret 3), u_mknod = (\<lambda>p a b. ret (- 1)), u_unlink = (\<lambda>p. ret (- 1)),
     u_fstat = (\<lambda>fd. ret (- 1, \<lparr>stat_type = 0, stat_dev = 0, stat_ino = 0, stat_nlink = 0, stat_size = 0\<rparr>)),
     u_link = (\<lambda>a b. ret (- 1)), u_mkdir = (\<lambda>p. ret (- 1)), u_chdir = (\<lambda>p. ret (- 1)),
     u_dup = (\<lambda>fd. ret (- 1)), u_getpid = ret 1, u_sbrk = (\<lambda>n. ret (- 1)),
     u_sleep = (\<lambda>n. ret 0), u_uptime = ret 0\<rparr>"

lemma chunk_os_streams: "streams chunk_os fd fst snd"
  unfolding streams_def by (auto simp: chunk_os_def)

lemma match_ab: "re_match (str ''^ab*$'') (str ''abb'')" "\<not> re_match (str ''^ab*$'') (str ''xab'')"
  "\<not> re_match (str ''^ab*$'') (str ''c'')"
  by (simp_all add: re_match_def matchhere.simps matchstar.simps str_def of_char_def)



theorem re_match_language_witness:
  "re_match (str ''^ab*$'') (str ''abb'') \<and> str ''abb'' \<in> lang (items (str ''ab*$''))"
proof -
  have p: "tl (str ''^ab*$'') = str ''ab*$''" "hd (str ''^ab*$'') = 94" "str ''^ab*$'' \<noteq> []"
      "anchored_end (str ''ab*$'')"
    by (simp_all add: str_def of_char_def)
  have "\<exists>w. str ''abb'' = w \<and> w \<in> lang (items (str ''ab*$''))"
    using re_match_language [of "str ''^ab*$''" "str ''abb''"] match_ab(1) p by (auto simp: Let_def)
  then show ?thesis using match_ab(1) by blast
qed

end
