(* ===== verification/Ucmds.thy ===== *)
theory Ucmds
  imports Grep
begin

text \<open>
  The small user programs: \<^verbatim>\<open>src/cat.c\<close>, \<^verbatim>\<open>src/wc.c\<close>, \<^verbatim>\<open>src/ls.c\<close>, \<^verbatim>\<open>src/echo.c\<close>, \<^verbatim>\<open>src/kill.c\<close>, \<^verbatim>\<open>src/ln.c\<close>,
  \<^verbatim>\<open>src/mkdir.c\<close>, \<^verbatim>\<open>src/rm.c\<close>, \<^verbatim>\<open>src/zombie.c\<close>, \<^verbatim>\<open>src/forktest.c\<close>, \<^verbatim>\<open>src/stressfs.c\<close>,
  \<^verbatim>\<open>src/hello_thread.c\<close> and \<^verbatim>\<open>src/init.c\<close>. Loops that end with the input take fuel, the number of
  reads or rounds; the counted ones recurse on their counter. \<open>argv\<close> holds the program's name first.
\<close>

unbundle bit_operations_syntax

section \<open>cat\<close>

fun cat :: "'w usys \<Rightarrow> nat \<Rightarrow> int \<Rightarrow> ('w, unit) K" where
  "cat os 0 fd = kstop Diverge"
| "cat os (Suc k) fd =
     kbind (u_read os fd 512) (\<lambda>(n, bs).
     if n > 0 then
       kbind (u_write os 1 (take (nat n) bs)) (\<lambda>m.
       if m \<noteq> n then kseq (u_printf os 1 ''cat: write error\<newline>'' []) u_exit
       else cat os k fd)
     else if n < 0 then kseq (u_printf os 1 ''cat: read error\<newline>'' []) u_exit
     else ret ())"

fun cat_files :: "'w usys \<Rightarrow> nat \<Rightarrow> uchar list list \<Rightarrow> ('w, unit) K" where
  "cat_files os k [] = u_exit"
| "cat_files os k (f # fs) =
     kbind (u_open os f 0) (\<lambda>fd.
     if fd < 0 then kseq (u_printf os 1 ''cat: cannot open %s\<newline>'' [str_arg f]) u_exit
     else kseq (cat os k fd) (kseq (u_close os fd) (cat_files os k fs)))"

definition cat_main :: "'w usys \<Rightarrow> nat \<Rightarrow> uchar list list \<Rightarrow> ('w, unit) K" where
  "cat_main os k argv =
     (if length argv \<le> 1 then kseq (cat os k 0) u_exit else cat_files os k (drop 1 argv))"

section \<open>wc\<close>

record wc_state =
  wc_l :: nat
  wc_w :: nat
  wc_c :: nat
  wc_inword :: bool

definition wc_blanks :: "uchar list" where
  "wc_blanks = [32, 13, 9, 10, 11]"

definition wc_byte :: "wc_state \<Rightarrow> uchar \<Rightarrow> wc_state" where
  "wc_byte s b =
     (let s = s\<lparr>wc_c := wc_c s + 1\<rparr>;
          s = (if b = 10 then s\<lparr>wc_l := wc_l s + 1\<rparr> else s)
      in if b \<in> set wc_blanks then s\<lparr>wc_inword := False\<rparr>
         else if \<not> wc_inword s then s\<lparr>wc_w := wc_w s + 1, wc_inword := True\<rparr>
         else s)"

fun wc_loop :: "'w usys \<Rightarrow> nat \<Rightarrow> int \<Rightarrow> wc_state \<Rightarrow> ('w, int \<times> wc_state) K" where
  "wc_loop os 0 fd s = kstop Diverge"
| "wc_loop os (Suc k) fd s =
     kbind (u_read os fd 512) (\<lambda>(n, bs).
     if n > 0 then wc_loop os k fd (foldl wc_byte s (take (nat n) bs)) else ret (n, s))"

definition wc :: "'w usys \<Rightarrow> nat \<Rightarrow> int \<Rightarrow> uchar list \<Rightarrow> ('w, unit) K" where
  "wc os k fd name =
     kbind (wc_loop os k fd \<lparr>wc_l = 0, wc_w = 0, wc_c = 0, wc_inword = False\<rparr>) (\<lambda>(n, s).
     if n < 0 then kseq (u_printf os 1 ''wc: read error\<newline>'' []) u_exit
     else u_printf os 1 ''%d %d %d %s\<newline>''
       [ArgInt (of_nat (wc_l s)), ArgInt (of_nat (wc_w s)), ArgInt (of_nat (wc_c s)), str_arg name])"

fun wc_files :: "'w usys \<Rightarrow> nat \<Rightarrow> uchar list list \<Rightarrow> ('w, unit) K" where
  "wc_files os k [] = u_exit"
| "wc_files os k (f # fs) =
     kbind (u_open os f 0) (\<lambda>fd.
     if fd < 0 then kseq (u_printf os 1 ''wc: cannot open %s\<newline>'' [str_arg f]) u_exit
     else kseq (wc os k fd f) (kseq (u_close os fd) (wc_files os k fs)))"

definition wc_main :: "'w usys \<Rightarrow> nat \<Rightarrow> uchar list list \<Rightarrow> ('w, unit) K" where
  "wc_main os k argv =
     (if length argv \<le> 1 then kseq (wc os k 0 []) u_exit else wc_files os k (drop 1 argv))"

section \<open>ls\<close>

text \<open>The name after the last slash, padded with blanks.\<close>

definition fmtname :: "uchar list \<Rightarrow> uchar list" where
  "fmtname path =
     (let p = rev (takeWhile (\<lambda>c. c \<noteq> 47) (rev path))
      in if length p \<ge> DIRSIZ then p else p @ replicate (DIRSIZ - length p) 32)"

definition ls_line :: "'w usys \<Rightarrow> uchar list \<Rightarrow> stat \<Rightarrow> ('w, unit) K" where
  "ls_line os path st =
     u_printf os 1 ''%s %d %d %d\<newline>''
       [str_arg (fmtname path), ArgInt (scast (stat_type st)), ArgInt (of_nat (stat_ino st)),
        ArgInt (stat_size st)]"

fun ls_dir :: "'w usys \<Rightarrow> nat \<Rightarrow> int \<Rightarrow> uchar list \<Rightarrow> ('w, unit) K" where
  "ls_dir os 0 fd path = kstop Diverge"
| "ls_dir os (Suc k) fd path =
     kbind (u_read os fd (int DIRENT_SIZE)) (\<lambda>(n, bs).
     if n = int DIRENT_SIZE then
       let de = decode_dirent bs; buf = path @ [47] @ takeWhile (\<lambda>c. c \<noteq> 0) (de_name de)
       in if de_inum de = 0 then ls_dir os k fd path
          else
            kbind (u_stat os buf) (\<lambda>(r, st).
            case st of
              Some st \<Rightarrow>
                if r < 0 then kseq (u_printf os 1 ''ls: cannot stat %s\<newline>'' [str_arg buf]) (ls_dir os k fd path)
                else kseq (ls_line os buf st) (ls_dir os k fd path)
            | None \<Rightarrow> kseq (u_printf os 1 ''ls: cannot stat %s\<newline>'' [str_arg buf]) (ls_dir os k fd path))
     else ret ())"

definition ls :: "'w usys \<Rightarrow> nat \<Rightarrow> uchar list \<Rightarrow> ('w, unit) K" where
  "ls os k path =
     kbind (u_open os path 0) (\<lambda>fd.
     if fd < 0 then u_printf os 2 ''ls: cannot open %s\<newline>'' [str_arg path]
     else
       kbind (u_fstat os fd) (\<lambda>(r, st).
       if r < 0 then
         kseq (u_printf os 2 ''ls: cannot stat %s\<newline>'' [str_arg path]) (
         kseq (u_close os fd) (ret ()))
       else
         kseq (if stat_type st = T_FILE then ls_line os path st
               else if stat_type st = T_DIR then
                 (if length path + 1 + DIRSIZ + 1 > 512 then u_printf os 1 ''ls: path too long\<newline>'' []
                  else ls_dir os k fd path)
               else ret ()) (
         kseq (u_close os fd) (ret ()))))"

definition ls_main :: "'w usys \<Rightarrow> nat \<Rightarrow> uchar list list \<Rightarrow> ('w, unit) K" where
  "ls_main os k argv =
     (if length argv < 2 then kseq (ls os k (str ''.'')) u_exit
      else kseq (kfor (ls os k) (drop 1 argv)) u_exit)"

section \<open>echo, kill, ln, mkdir and rm\<close>

fun echo_args :: "'w usys \<Rightarrow> uchar list list \<Rightarrow> ('w, unit) K" where
  "echo_args os [] = ret ()"
| "echo_args os (a # as) =
     kseq (u_printf os 1 ''%s%s'' [str_arg a, str_arg (if as \<noteq> [] then [32] else [10])]) (echo_args os as)"

definition echo_main :: "'w usys \<Rightarrow> uchar list list \<Rightarrow> ('w, unit) K" where
  "echo_main os argv = kseq (echo_args os (drop 1 argv)) u_exit"

definition kill_main :: "'w usys \<Rightarrow> uchar list list \<Rightarrow> ('w, unit) K" where
  "kill_main os argv =
     (if length argv < 2 then kseq (u_printf os 2 ''usage: kill pid...\<newline>'' []) u_exit
      else kseq (kfor (\<lambda>a. kseq (u_kill os (atoi a)) (ret ())) (drop 1 argv)) u_exit)"

definition ln_main :: "'w usys \<Rightarrow> uchar list list \<Rightarrow> ('w, unit) K" where
  "ln_main os argv =
     (if length argv \<noteq> 3 then kseq (u_printf os 2 ''Usage: ln old new\<newline>'' []) u_exit
      else
        kbind (u_link os (argv ! 1) (argv ! 2)) (\<lambda>r.
        kseq (kwhen (r < 0)
                (u_printf os 2 ''link %s %s: failed\<newline>'' [str_arg (argv ! 1), str_arg (argv ! 2)])) u_exit))"

fun mkdir_args :: "'w usys \<Rightarrow> uchar list list \<Rightarrow> ('w, unit) K" where
  "mkdir_args os [] = ret ()"
| "mkdir_args os (a # as) =
     kbind (u_mkdir os a) (\<lambda>r.
     if r < 0 then u_printf os 2 ''mkdir: %s failed to create\<newline>'' [str_arg a]
     else mkdir_args os as)"

definition mkdir_main :: "'w usys \<Rightarrow> uchar list list \<Rightarrow> ('w, unit) K" where
  "mkdir_main os argv =
     (if length argv < 2 then kseq (u_printf os 2 ''Usage: mkdir files...\<newline>'' []) u_exit
      else kseq (mkdir_args os (drop 1 argv)) u_exit)"

fun rm_args :: "'w usys \<Rightarrow> uchar list list \<Rightarrow> ('w, unit) K" where
  "rm_args os [] = ret ()"
| "rm_args os (a # as) =
     kbind (u_unlink os a) (\<lambda>r.
     if r < 0 then u_printf os 2 ''rm: %s failed to delete\<newline>'' [str_arg a]
     else rm_args os as)"

definition rm_main :: "'w usys \<Rightarrow> uchar list list \<Rightarrow> ('w, unit) K" where
  "rm_main os argv =
     (if length argv < 2 then kseq (u_printf os 2 ''Usage: rm files...\<newline>'' []) u_exit
      else kseq (rm_args os (drop 1 argv)) u_exit)"

section \<open>init\<close>

text \<open>Waiting for the shell among the orphans that init inherits.\<close>

fun init_wait :: "'w usys \<Rightarrow> nat \<Rightarrow> int \<Rightarrow> ('w, unit) K" where
  "init_wait os 0 pid = kstop Diverge"
| "init_wait os (Suc k) pid =
     kbind (u_wait os) (\<lambda>wpid.
     if wpid \<ge> 0 \<and> wpid \<noteq> pid then kseq (u_printf os 1 ''zombie!\<newline>'' []) (init_wait os k pid)
     else ret ())"

fun init_loop :: "'w usys \<Rightarrow> nat \<Rightarrow> ('w, unit) K" where
  "init_loop os 0 = kstop Diverge"
| "init_loop os (Suc k) =
     kseq (u_printf os 1 ''init: starting sh\<newline>'' []) (
     kbind (u_fork os) (\<lambda>pid.
     if pid < 0 then kseq (u_printf os 1 ''init: fork failed\<newline>'' []) u_exit
     else if pid = 0 then
       kseq (u_exec os (str ''sh'') [str ''sh'']) (
       kseq (u_printf os 1 ''init: exec sh failed\<newline>'' []) u_exit)
     else kseq (init_wait os k pid) (init_loop os k)))"

definition init_main :: "'w usys \<Rightarrow> nat \<Rightarrow> ('w, unit) K" where
  "init_main os k =
     kbind (u_open os (str ''console'') O_RDWR) (\<lambda>fd.
     kseq (kwhen (fd < 0)
             (kseq (u_mknod os (str ''console'') 1 1) (
              kseq (u_open os (str ''console'') O_RDWR) (ret ())))) (
     kseq (u_dup os 0) (kseq (u_dup os 0) (init_loop os k))))"

section \<open>Test programs\<close>

definition zombie_main :: "'w usys \<Rightarrow> ('w, unit) K" where
  "zombie_main os =
     kbind (u_fork os) (\<lambda>pid.
     kseq (kwhen (pid > 0) (kseq (u_sleep os 5) (ret ()))) u_exit)"

definition hello_main :: "'w usys \<Rightarrow> ('w, unit) K" where
  "hello_main os = kseq (u_printf os 1 ''Hello, thread!\<newline>'' []) u_exit"

definition ft_printf :: "'w usys \<Rightarrow> int \<Rightarrow> string \<Rightarrow> ('w, unit) K" where
  "ft_printf os fd s = kseq (u_write os fd (str s)) (ret ())"

text \<open>\<open>ft_forks os j n\<close>: \<open>j\<close> forks left, \<open>n\<close> done; the result is \<^verbatim>\<open>n\<close> after the loop.\<close>

fun ft_forks :: "'w usys \<Rightarrow> nat \<Rightarrow> nat \<Rightarrow> ('w, nat) K" where
  "ft_forks os 0 n = ret n"
| "ft_forks os (Suc j) n =
     kbind (u_fork os) (\<lambda>pid.
     if pid < 0 then ret n
     else if pid = 0 then u_exit
     else ft_forks os j (n + 1))"

fun ft_waits :: "'w usys \<Rightarrow> nat \<Rightarrow> ('w, unit) K" where
  "ft_waits os 0 = ret ()"
| "ft_waits os (Suc n) =
     kbind (u_wait os) (\<lambda>r.
     if r < 0 then kseq (ft_printf os 1 ''wait stopped early\<newline>'') u_exit else ft_waits os n)"

definition forktest :: "'w usys \<Rightarrow> ('w, unit) K" where
  "forktest os =
     kseq (ft_printf os 1 ''fork test\<newline>'') (
     kbind (ft_forks os 1000 0) (\<lambda>n.
     if n = 1000 then kseq (ft_printf os 1 ''fork claimed to work N times!\<newline>'') u_exit
     else
       kseq (ft_waits os n) (
       kbind (u_wait os) (\<lambda>r.
       if r \<noteq> - 1 then kseq (ft_printf os 1 ''wait got too many\<newline>'') u_exit
       else ft_printf os 1 ''fork test OK\<newline>''))))"

definition forktest_main :: "'w usys \<Rightarrow> ('w, unit) K" where
  "forktest_main os = kseq (forktest os) u_exit"

fun stress_forks :: "'w usys \<Rightarrow> nat \<Rightarrow> nat \<Rightarrow> ('w, nat) K" where
  "stress_forks os 0 i = ret i"
| "stress_forks os (Suc j) i =
     kbind (u_fork os) (\<lambda>pid. if pid > 0 then ret i else stress_forks os j (i + 1))"

definition stressfs_main :: "'w usys \<Rightarrow> ('w, unit) K" where
  "stressfs_main os =
     (let data = replicate 512 (97 :: uchar) in
     kseq (u_printf os 1 ''stressfs starting\<newline>'' []) (
     kbind (stress_forks os 4 0) (\<lambda>i.
     kseq (u_printf os 1 ''write %d\<newline>'' [ArgInt (of_nat i)]) (
     let path = str ''stressfs'' @ [48 + of_nat i] in
     kbind (u_open os path (O_CREATE OR O_RDWR)) (\<lambda>fd.
     kseq (kfor (\<lambda>_. kseq (u_write os fd data) (ret ())) [0..<20]) (
     kseq (u_close os fd) (
     kseq (u_printf os 1 ''read\<newline>'' []) (
     kbind (u_open os path O_RDONLY) (\<lambda>fd.
     kseq (kfor (\<lambda>_. kseq (u_read os fd 512) (ret ())) [0..<20]) (
     kseq (u_close os fd) (
     kseq (u_wait os) u_exit)))))))))))"

section \<open>cat and wc on a stream\<close>

text \<open>A stream whose reads fit the buffers of the programs.\<close>

definition short_chunks :: "uchar list list \<Rightarrow> bool" where
  "short_chunks cs \<longleftrightarrow> (\<forall>c\<in>set cs. c \<noteq> [] \<and> length c \<le> 512)"

text \<open>\<^verbatim>\<open>write\<close> to standard output takes everything it is given.\<close>

definition full_writes :: "'w usys \<Rightarrow> bool" where
  "full_writes os \<longleftrightarrow> (\<forall>w bs. \<exists>w'. u_write os 1 bs w = Ret (int (length bs)) w')"

lemma cat_run:
  assumes "streams os fd inp out" "full_writes os"
  shows "inp w = cs \<Longrightarrow> short_chunks cs \<Longrightarrow> length cs < k \<Longrightarrow>
     \<exists>w'. cat os k fd w = Ret () w' \<and> inp w' = [] \<and> out w' = out w @ concat cs"
proof (induction cs arbitrary: k w)
  case Nil
  then obtain k' where "k = Suc k'" by (cases k) auto
  then show ?case using Nil streams_end [OF assms(1), of w] by (simp add: kbind_run ret_run)
next
  case (Cons c cs)
  then obtain k' where k: "k = Suc k'" by (cases k) auto
  have c: "c \<noteq> []" "length c \<le> 512" "short_chunks cs" using Cons.prems(2) by (auto simp: short_chunks_def)
  obtain w1 where w1: "u_read os fd 512 w = Ret (int (length c), c) w1" "inp w1 = cs" "out w1 = out w"
    using streams_read [OF assms(1) Cons.prems(1), of 512] c by auto
  obtain r w2 where w2: "u_write os 1 c w1 = Ret r w2" "inp w2 = inp w1" "out w2 = out w1 @ c"
    using streams_write [OF assms(1)] by blast
  then have r: "r = int (length c)" using assms(2) unfolding full_writes_def by (metis outcome.inject(1))
  obtain w3 where "cat os k' fd w2 = Ret () w3" "inp w3 = []" "out w3 = out w2 @ concat cs"
    using Cons.IH [of w2 k'] w1 w2 c k Cons.prems(3) by auto
  then show ?case using w1 w2 r c k by (simp add: kbind_run)
qed

text \<open>The beginnings of words: a byte that is no blank, first or after a blank.\<close>

fun word_starts :: "bool \<Rightarrow> uchar list \<Rightarrow> nat" where
  "word_starts inword [] = 0"
| "word_starts inword (b # s) =
     (if b \<in> set wc_blanks then word_starts False s
      else (if inword then 0 else 1) + word_starts True s)"

lemma wc_bytes:
  "wc_l (foldl wc_byte s bs) = wc_l s + count_list bs 10"
  "wc_c (foldl wc_byte s bs) = wc_c s + length bs"
  "wc_w (foldl wc_byte s bs) = wc_w s + word_starts (wc_inword s) bs"
proof -
  show "wc_l (foldl wc_byte s bs) = wc_l s + count_list bs 10"
    by (induction bs arbitrary: s) (simp_all add: wc_byte_def Let_def)
  show "wc_c (foldl wc_byte s bs) = wc_c s + length bs"
    by (induction bs arbitrary: s) (simp_all add: wc_byte_def Let_def)
  show "wc_w (foldl wc_byte s bs) = wc_w s + word_starts (wc_inword s) bs"
    by (induction bs arbitrary: s) (simp_all add: wc_byte_def Let_def)
qed

lemma wc_loop_run:
  assumes "streams os fd inp out"
  shows "inp w = cs \<Longrightarrow> short_chunks cs \<Longrightarrow> length cs < k \<Longrightarrow>
     \<exists>w'. wc_loop os k fd s w = Ret (0, foldl wc_byte s (concat cs)) w' \<and> inp w' = [] \<and> out w' = out w"
proof (induction cs arbitrary: k w s)
  case Nil
  then obtain k' where "k = Suc k'" by (cases k) auto
  then show ?case using Nil streams_end [OF assms(1), of w] by (simp add: kbind_run ret_run)
next
  case (Cons c cs)
  then obtain k' where k: "k = Suc k'" by (cases k) auto
  have c: "c \<noteq> []" "length c \<le> 512" "short_chunks cs" using Cons.prems(2) by (auto simp: short_chunks_def)
  obtain w1 where w1: "u_read os fd 512 w = Ret (int (length c), c) w1" "inp w1 = cs" "out w1 = out w"
    using streams_read [OF assms(1) Cons.prems(1), of 512] c by auto
  obtain w2 where "wc_loop os k' fd (foldl wc_byte s c) w1 =
      Ret (0, foldl wc_byte (foldl wc_byte s c) (concat cs)) w2" "inp w2 = []" "out w2 = out w1"
    using Cons.IH [of w1 k'] w1 c k Cons.prems(3) by auto
  then show ?case using w1 c k by (simp add: kbind_run)
qed

lemma kfor_putc_run:
  assumes "streams os fd inp out"
  shows "\<exists>w'. kfor (putc os 1) bs w = Ret () w' \<and> inp w' = inp w \<and> out w' = out w @ bs"
proof (induction bs arbitrary: w)
  case (Cons b bs)
  obtain r w1 where w1: "u_write os 1 [b] w = Ret r w1" "inp w1 = inp w" "out w1 = out w @ [b]"
    using streams_write [OF assms] by blast
  obtain w2 where "kfor (putc os 1) bs w1 = Ret () w2" "inp w2 = inp w1" "out w2 = out w1 @ bs"
    using Cons by blast
  moreover have "putc os 1 b w = Ret () w1" using w1 by (simp add: putc_def kseq_run ret_run)
  ultimately show ?case using w1 by (simp add: kseq_Ret)
qed (simp add: ret_run)

text \<open>The decimal text of a count.\<close>

abbreviation decimal :: "nat \<Rightarrow> uchar list" where
  "decimal n \<equiv> u_int_chars (of_nat n) 10 True"

text \<open>
  \<^verbatim>\<open>wc\<close> prints the number of newlines, of words and of bytes of the whole input, however the
  input is divided into reads: a word that two reads share counts once, a word being a run of bytes
  that are no blanks.
\<close>

lemma wc_counts:
  assumes "streams os fd inp out" "short_chunks (inp w)" "length (inp w) < k"
  shows "\<exists>w'. wc os k fd name w = Ret () w' \<and> inp w' = [] \<and>
     out w' = out w @ decimal (count_list (concat (inp w)) 10) @ [32] @
       decimal (word_starts False (concat (inp w))) @ [32] @
       decimal (length (concat (inp w))) @ [32] @ name @ [10]"
proof -
  define s0 :: wc_state where "s0 = \<lparr>wc_l = 0, wc_w = 0, wc_c = 0, wc_inword = False\<rparr>"
  define s where "s = foldl wc_byte s0 (concat (inp w))"
  obtain w1 where w1: "wc_loop os k fd s0 w = Ret (0, s) w1" "inp w1 = []" "out w1 = out w"
    using wc_loop_run [OF assms(1) refl assms(2,3), of s0] unfolding s_def by blast
  define t where "t = decimal (wc_l s) @ [32] @ decimal (wc_w s) @ [32] @ decimal (wc_c s) @ [32] @ name @ [10]"
  have "expand (str ''%d %d %d %s\<newline>'') [ArgInt (of_nat (wc_l s)), ArgInt (of_nat (wc_w s)),
      ArgInt (of_nat (wc_c s)), str_arg name] = Some t"
    by (simp add: str_def of_char_def t_def)
  then have p: "u_printf os 1 ''%d %d %d %s\<newline>'' [ArgInt (of_nat (wc_l s)), ArgInt (of_nat (wc_w s)),
      ArgInt (of_nat (wc_c s)), str_arg name] = kfor (putc os 1) t"
    unfolding u_printf_def by (rule u_printf_loop_expand)
  obtain w2 where "kfor (putc os 1) t w1 = Ret () w2" "inp w2 = inp w1" "out w2 = out w1 @ t"
    using kfor_putc_run [OF assms(1)] by blast
  moreover have "wc os k fd name w = kfor (putc os 1) t w1"
    using w1(1) p by (simp add: wc_def s0_def [symmetric] kbind_run)
  moreover have "wc_l s = count_list (concat (inp w)) 10" "wc_w s = word_starts False (concat (inp w))"
      "wc_c s = length (concat (inp w))"
    by (simp_all add: s_def wc_bytes) (simp_all add: s0_def)
  ultimately show ?thesis using w1 by (simp add: t_def)
qed

end
