(* ===== verification/Sh.thy ===== *)
theory Sh
  imports Grep
begin

text \<open>
  The shell, \<^verbatim>\<open>src/sh.c\<close>. A command line is a list of bytes without a NUL and a pointer into it an
  index; the end of the line reads as the NUL that follows it. The parser runs in the sequencing of
  the prelude with the scan pointer as its state, a syntax error being a panic. Its mutually recursive
  routines take fuel that is proved to suffice; the loops inside them take one more than the length of
  the line. Commands are a datatype with the source's five kinds; the words of a command are pairs of
  pointers, as in \<^verbatim>\<open>argv\<close> and \<^verbatim>\<open>eargv\<close>. \<^verbatim>\<open>malloc\<close> is taken to succeed, as the source takes it.
\<close>

unbundle bit_operations_syntax

section \<open>Commands\<close>

datatype cmd =
    EXEC "(nat \<times> nat) list"
  | REDIR cmd nat nat uint int
  | PIPE cmd cmd
  | LIST cmd cmd
  | BACK cmd

definition MAXARGS :: nat where "MAXARGS = 10"

definition execcmd :: cmd where
  "execcmd = EXEC []"

definition redircmd :: "cmd \<Rightarrow> nat \<Rightarrow> nat \<Rightarrow> uint \<Rightarrow> int \<Rightarrow> cmd" where
  "redircmd subcmd file efile mode fd = REDIR subcmd file efile mode fd"

definition pipecmd :: "cmd \<Rightarrow> cmd \<Rightarrow> cmd" where
  "pipecmd left right = PIPE left right"

definition listcmd :: "cmd \<Rightarrow> cmd \<Rightarrow> cmd" where
  "listcmd left right = LIST left right"

definition backcmd :: "cmd \<Rightarrow> cmd" where
  "backcmd subcmd = BACK subcmd"

section \<open>Tokens\<close>

definition whitespace :: "uchar list" where
  "whitespace = [32, 9, 13, 10, 11]"

definition symbols :: "uchar list" where
  "symbols = str ''<|>&;()''"

definition at :: "uchar list \<Rightarrow> nat \<Rightarrow> uchar" where
  "at s p = (if p < length s then s ! p else 0)"

definition skip_while :: "(uchar \<Rightarrow> bool) \<Rightarrow> uchar list \<Rightarrow> nat \<Rightarrow> nat" where
  "skip_while P s p = p + length (takeWhile P (drop p s))"

definition skip_ws :: "uchar list \<Rightarrow> nat \<Rightarrow> nat" where
  "skip_ws = skip_while (\<lambda>c. c \<in> set whitespace)"

definition wordchar :: "uchar \<Rightarrow> bool" where
  "wordchar c \<longleftrightarrow> c \<notin> set whitespace \<and> c \<notin> set symbols"

text \<open>The token, where it begins and where it ends.\<close>

definition gettoken :: "uchar list \<Rightarrow> (nat, uchar \<times> nat \<times> nat) K" where
  "gettoken s ps =
     (let q = skip_ws s ps; c = at s q;
          (r, eq) =
            (if c = 0 then (c, q)
             else if c \<in> set (str ''|();&<'') then (c, q + 1)
             else if c = 62 then (if at s (q + 1) = 62 then (43, q + 2) else (c, q + 1))
             else (97, skip_while wordchar s q))
      in Ret (r, q, eq) (skip_ws s eq))"

definition peek :: "uchar list \<Rightarrow> string \<Rightarrow> (nat, bool) K" where
  "peek s toks ps =
     (let p = skip_ws s ps in Ret (at s p \<noteq> 0 \<and> at s p \<in> set (str toks)) p)"

section \<open>The parser\<close>

fun parseredirs_loop :: "nat \<Rightarrow> uchar list \<Rightarrow> cmd \<Rightarrow> (nat, cmd) K" where
  "parseredirs_loop 0 s c = kstop Diverge"
| "parseredirs_loop (Suc k) s c =
     kbind (peek s ''<>'') (\<lambda>b.
     if \<not> b then ret c
     else
       kbind (gettoken s) (\<lambda>(tok, _, _).
       kbind (gettoken s) (\<lambda>(r, q, eq).
       if r \<noteq> 97 then panic ''missing file for redirection''
       else
         parseredirs_loop k s
           (if tok = 60 then redircmd c q eq O_RDONLY 0
            else if tok = 62 then redircmd c q eq (O_WRONLY OR O_CREATE) 1
            else if tok = 43 then redircmd c q eq (O_WRONLY OR O_CREATE) 1
            else c))))"

definition parseredirs :: "uchar list \<Rightarrow> cmd \<Rightarrow> (nat, cmd) K" where
  "parseredirs s c = parseredirs_loop (length s + 1) s c"

text \<open>
  \<^verbatim>\<open>parseexec\<close> fills \<^verbatim>\<open>cmd->argv\<close> while the redirections it has read are already wrapped around
  \<^verbatim>\<open>cmd\<close>: the node is found again below them.
\<close>

fun add_arg :: "nat \<Rightarrow> nat \<Rightarrow> cmd \<Rightarrow> cmd" where
  "add_arg q eq (EXEC args) = EXEC (args @ [(q, eq)])"
| "add_arg q eq (REDIR c f ef mode fd) = REDIR (add_arg q eq c) f ef mode fd"
| "add_arg q eq c = c"

fun parseexec_loop :: "nat \<Rightarrow> uchar list \<Rightarrow> nat \<Rightarrow> cmd \<Rightarrow> (nat, cmd) K" where
  "parseexec_loop 0 s argc c = kstop Diverge"
| "parseexec_loop (Suc k) s argc c =
     kbind (peek s ''|)&;'') (\<lambda>b.
     if b then ret c
     else
       kbind (gettoken s) (\<lambda>(tok, q, eq).
       if tok = 0 then ret c
       else if tok \<noteq> 97 then panic ''syntax''
       else
         let c = add_arg q eq c; argc = argc + 1
         in if argc \<ge> MAXARGS then panic ''too many args''
            else kbind (parseredirs s c) (\<lambda>c. parseexec_loop k s argc c)))"

fun parseline_back :: "nat \<Rightarrow> uchar list \<Rightarrow> cmd \<Rightarrow> (nat, cmd) K" where
  "parseline_back 0 s c = kstop Diverge"
| "parseline_back (Suc k) s c =
     kbind (peek s ''&'') (\<lambda>b.
     if b then kbind (gettoken s) (\<lambda>_. parseline_back k s (backcmd c)) else ret c)"

fun parseline :: "nat \<Rightarrow> uchar list \<Rightarrow> (nat, cmd) K"
  and parsepipe :: "nat \<Rightarrow> uchar list \<Rightarrow> (nat, cmd) K"
  and parseblock :: "nat \<Rightarrow> uchar list \<Rightarrow> (nat, cmd) K"
  and parseexec :: "nat \<Rightarrow> uchar list \<Rightarrow> (nat, cmd) K" where
  "parseline 0 s = kstop Diverge"
| "parseline (Suc k) s =
     kbind (parsepipe k s) (\<lambda>c.
     kbind (parseline_back (length s + 1) s c) (\<lambda>c.
     kbind (peek s '';'') (\<lambda>b.
     if b then
       kbind (gettoken s) (\<lambda>_.
       kbind (parseline k s) (\<lambda>d. ret (listcmd c d)))
     else ret c)))"
| "parsepipe 0 s = kstop Diverge"
| "parsepipe (Suc k) s =
     kbind (parseexec k s) (\<lambda>c.
     kbind (peek s ''|'') (\<lambda>b.
     if b then
       kbind (gettoken s) (\<lambda>_.
       kbind (parsepipe k s) (\<lambda>d. ret (pipecmd c d)))
     else ret c))"
| "parseblock 0 s = kstop Diverge"
| "parseblock (Suc k) s =
     kbind (peek s ''('') (\<lambda>b.
     if \<not> b then panic ''parseblock''
     else
       kbind (gettoken s) (\<lambda>_.
       kbind (parseline k s) (\<lambda>c.
       kbind (peek s '')'') (\<lambda>b.
       if \<not> b then panic ''syntax - missing )''
       else kbind (gettoken s) (\<lambda>_. parseredirs s c)))))"
| "parseexec 0 s = kstop Diverge"
| "parseexec (Suc k) s =
     kbind (peek s ''('') (\<lambda>b.
     if b then parseblock k s
     else kbind (parseredirs s execcmd) (\<lambda>c. parseexec_loop (length s + 1) s 0 c))"

text \<open>\<^verbatim>\<open>nulterminate\<close> ends every word of the command with a NUL in the buffer.\<close>

fun nulterminate :: "cmd \<Rightarrow> uchar list \<Rightarrow> uchar list" where
  "nulterminate (EXEC args) buf = foldl (\<lambda>b (q, eq). b[eq := 0]) buf args"
| "nulterminate (REDIR c file efile mode fd) buf = (nulterminate c buf)[efile := 0]"
| "nulterminate (PIPE left right) buf = nulterminate right (nulterminate left buf)"
| "nulterminate (LIST left right) buf = nulterminate right (nulterminate left buf)"
| "nulterminate (BACK c) buf = nulterminate c buf"

definition sh_panic :: "'w usys \<Rightarrow> string \<Rightarrow> ('w, 'a) K" where
  "sh_panic os msg = kseq (u_printf os 2 ''%s\<newline>'' [str_arg (str msg)]) u_exit"

text \<open>The parser's routines on a whole line; enough fuel is four steps a byte.\<close>

definition parse_line :: "uchar list \<Rightarrow> (nat, cmd) outcome" where
  "parse_line s =
     kbind (parseline (4 * length s + 4) s) (\<lambda>c. kseq (peek s '''') (ret c)) 0"

text \<open>The command and the buffer with the words ended, the line's own NUL included.\<close>

definition parsecmd :: "'w usys \<Rightarrow> uchar list \<Rightarrow> ('w, cmd \<times> uchar list) K" where
  "parsecmd os s =
     (case parse_line s of
        Ret c p \<Rightarrow>
          if p \<noteq> length s
          then kseq (u_printf os 2 ''leftovers: %s\<newline>'' [str_arg (drop p s)]) (sh_panic os ''syntax'')
          else ret (c, nulterminate c (s @ [0]))
      | Stop (Panic msg) p \<Rightarrow> sh_panic os msg
      | Stop e p \<Rightarrow> kstop e)"

section \<open>Running commands\<close>

text \<open>The string at a pointer into the buffer.\<close>

definition bufstr :: "uchar list \<Rightarrow> nat \<Rightarrow> uchar list" where
  "bufstr buf q = takeWhile (\<lambda>c. c \<noteq> 0) (drop q buf)"

definition fork1 :: "'w usys \<Rightarrow> ('w, int) K" where
  "fork1 os = kbind (u_fork os) (\<lambda>pid. if pid = - 1 then sh_panic os ''fork'' else ret pid)"

fun runcmd :: "'w usys \<Rightarrow> uchar list \<Rightarrow> cmd \<Rightarrow> ('w, unit) K" where
  "runcmd os buf (EXEC args) =
     (if args = [] then u_exit
      else
        let argv = map (\<lambda>(q, eq). bufstr buf q) args
        in kseq (u_exec os (hd argv) argv) (
           kseq (u_printf os 2 ''exec %s failed\<newline>'' [str_arg (hd argv)]) u_exit))"
| "runcmd os buf (REDIR c file efile mode fd) =
     kseq (u_close os fd) (
     kbind (u_open os (bufstr buf file) mode) (\<lambda>r.
     if r < 0 then kseq (u_printf os 2 ''open %s failed\<newline>'' [str_arg (bufstr buf file)]) u_exit
     else kseq (runcmd os buf c) u_exit))"
| "runcmd os buf (LIST left right) =
     kbind (fork1 os) (\<lambda>pid.
     kseq (kwhen (pid = 0) (runcmd os buf left)) (
     kseq (u_wait os) (kseq (runcmd os buf right) u_exit)))"
| "runcmd os buf (PIPE left right) =
     kbind (u_pipe os) (\<lambda>(r, p0, p1).
     kseq (kwhen (r < 0) (sh_panic os ''pipe'')) (
     kbind (fork1 os) (\<lambda>pid.
     kseq (kwhen (pid = 0) (
       kseq (u_close os 1) (kseq (u_dup os p1) (kseq (u_close os p0) (kseq (u_close os p1) (
       runcmd os buf left)))))) (
     kbind (fork1 os) (\<lambda>pid.
     kseq (kwhen (pid = 0) (
       kseq (u_close os 0) (kseq (u_dup os p0) (kseq (u_close os p0) (kseq (u_close os p1) (
       runcmd os buf right)))))) (
     kseq (u_close os p0) (kseq (u_close os p1) (
     kseq (u_wait os) (kseq (u_wait os) u_exit)))))))))"
| "runcmd os buf (BACK c) =
     kbind (fork1 os) (\<lambda>pid. kseq (kwhen (pid = 0) (runcmd os buf c)) u_exit)"

section \<open>The command loop\<close>

definition getcmd :: "'w usys \<Rightarrow> int \<Rightarrow> ('w, int \<times> uchar list) K" where
  "getcmd os nbuf =
     kseq (u_printf os 2 ''$ '' []) (
     kbind (gets os nbuf) (\<lambda>l.
     let buf = takeWhile (\<lambda>c. c \<noteq> 0) l in ret (if buf = [] then - 1 else 0, buf)))"

fun sh_consoles :: "'w usys \<Rightarrow> nat \<Rightarrow> ('w, unit) K" where
  "sh_consoles os 0 = kstop Diverge"
| "sh_consoles os (Suc k) =
     kbind (u_open os (str ''console'') O_RDWR) (\<lambda>fd.
     if fd \<ge> 0 then
       (if fd \<ge> 3 then kseq (u_close os fd) (ret ()) else sh_consoles os k)
     else ret ())"

fun sh_loop :: "'w usys \<Rightarrow> nat \<Rightarrow> ('w, unit) K" where
  "sh_loop os 0 = kstop Diverge"
| "sh_loop os (Suc k) =
     kbind (getcmd os 100) (\<lambda>(r, buf).
     if r \<ge> 0 then
       (if at buf 0 = 99 \<and> at buf 1 = 100 \<and> at buf 2 = 32 then
          let dir = drop 3 (butlast buf)
          in kbind (u_chdir os dir) (\<lambda>r.
             kseq (kwhen (r < 0) (u_printf os 2 ''cannot cd %s\<newline>'' [str_arg dir])) (sh_loop os k))
        else
          kbind (fork1 os) (\<lambda>pid.
          kseq (kwhen (pid = 0) (kbind (parsecmd os buf) (\<lambda>(c, b). runcmd os b c))) (
          kseq (u_wait os) (sh_loop os k))))
     else u_exit)"

definition sh_main :: "'w usys \<Rightarrow> nat \<Rightarrow> ('w, unit) K" where
  "sh_main os k = kseq (sh_consoles os k) (sh_loop os k)"

section \<open>Scanning\<close>

lemma skip_while_ge: "p \<le> skip_while P s p"
  by (simp add: skip_while_def)

lemma skip_while_le: "p \<le> length s \<Longrightarrow> skip_while P s p \<le> length s"
  using length_takeWhile_le [of P "drop p s"] by (simp add: skip_while_def)

lemma skip_while_all:
  assumes "p \<le> i" "i < skip_while P s p"
  shows "P (s ! i)"
proof -
  have "i - p < length (takeWhile P (drop p s))" using assms by (simp add: skip_while_def)
  moreover from this have "i - p < length (drop p s)" by (rule less_le_trans) (rule length_takeWhile_le)
  ultimately have "P (drop p s ! (i - p))" by (metis nth_mem set_takeWhileD takeWhile_nth)
  then show ?thesis using assms(1) \<open>i - p < length (drop p s)\<close> by simp
qed

lemma skip_while_stops:
  assumes "skip_while P s p < length s"
  shows "\<not> P (s ! skip_while P s p)"
proof -
  have n: "length (takeWhile P (drop p s)) < length (drop p s)"
    using assms by (simp add: skip_while_def)
  have "\<not> P (drop p s ! length (takeWhile P (drop p s)))" using n by (rule nth_length_takeWhile)
  then show ?thesis using n by (simp add: skip_while_def)
qed

lemma skip_while_idem: "skip_while P s (skip_while P s p) = skip_while P s p"
proof (cases "skip_while P s p < length s")
  case True
  then have "drop (skip_while P s p) s = s ! skip_while P s p # drop (Suc (skip_while P s p)) s"
    by (simp add: Cons_nth_drop_Suc)
  then show ?thesis using skip_while_stops [OF True] by (simp add: skip_while_def [of P s "skip_while P s p"])
qed (simp add: skip_while_def [of P s "skip_while P s p"])

lemma at_nonzero: "at s p \<noteq> 0 \<Longrightarrow> p < length s"
  by (simp add: at_def split: if_splits)

lemma skip_ws_not_blank: "at s (skip_ws s p) \<notin> set whitespace"
  using skip_while_stops [of "\<lambda>c. c \<in> set whitespace" s p]
  by (auto simp: at_def skip_ws_def whitespace_def)

text \<open>A word: its two pointers enclose word characters only, and no word character follows.\<close>

definition word_at :: "uchar list \<Rightarrow> nat \<times> nat \<Rightarrow> bool" where
  "word_at s = (\<lambda>(q, e). q < e \<and> e \<le> length s \<and> (\<forall>i. q \<le> i \<longrightarrow> i < e \<longrightarrow> wordchar (s ! i)) \<and>
     (e < length s \<longrightarrow> \<not> wordchar (s ! e)))"

lemma word_atI:
  assumes "q < length s" "wordchar (s ! q)"
  shows "word_at s (q, skip_while wordchar s q)"
proof -
  have "q \<noteq> skip_while wordchar s q" using skip_while_stops [of wordchar s q] assms by auto
  then have "q < skip_while wordchar s q" using skip_while_ge [of q wordchar s] by simp
  then show ?thesis
    using skip_while_le [of q s wordchar] skip_while_all [of q _ wordchar s]
      skip_while_stops [of wordchar s q] assms
    by (simp add: word_at_def)
qed

lemma wordchar_rest:
  "c \<notin> set whitespace \<Longrightarrow> c \<notin> set (str ''|();&<'') \<Longrightarrow> c \<noteq> 62 \<Longrightarrow> wordchar c"
  by (simp add: wordchar_def symbols_def str_def of_char_def)

text \<open>The raw token at a position: its kind and its end.\<close>

definition token_end :: "uchar list \<Rightarrow> nat \<Rightarrow> uchar \<times> nat" where
  "token_end s q =
     (let c = at s q
      in if c = 0 then (c, q)
         else if c \<in> set (str ''|();&<'') then (c, q + 1)
         else if c = 62 then (if at s (q + 1) = 62 then (43, q + 2) else (c, q + 1))
         else (97, skip_while wordchar s q))"

lemma gettoken_run:
  "gettoken s p = (case token_end s (skip_ws s p) of (r, e) \<Rightarrow> Ret (r, skip_ws s p, e) (skip_ws s e))"
  by (simp add: gettoken_def token_end_def Let_def split: prod.splits)

lemma token_end_ok:
  assumes "q \<le> length s" "at s q \<notin> set whitespace" "token_end s q = (r, e)"
  shows "q \<le> e" "e \<le> length s" "at s q \<noteq> 0 \<Longrightarrow> q < e" "r \<noteq> 0 \<Longrightarrow> at s q \<noteq> 0" "r = 97 \<Longrightarrow> word_at s (q, e)"
proof -
  consider (nul) "at s q = 0" "r = 0" "e = q"
    | (sym) "at s q \<noteq> 0" "r = at s q" "r \<in> set (str ''|();&<>'')" "e = q + 1"
    | (app) "at s q \<noteq> 0" "r = 43" "e = q + 2" "at s (q + 1) \<noteq> 0"
    | (word) "at s q \<noteq> 0" "wordchar (at s q)" "r = 97" "e = skip_while wordchar s q"
    using assms(2,3) wordchar_rest [of "at s q"]
    by (auto simp: token_end_def Let_def str_def of_char_def split: if_splits)
  then have "q \<le> e \<and> e \<le> length s \<and> (at s q \<noteq> 0 \<longrightarrow> q < e) \<and> (r \<noteq> 0 \<longrightarrow> at s q \<noteq> 0) \<and>
      (r = 97 \<longrightarrow> word_at s (q, e))"
  proof cases
    case nul
    then show ?thesis using assms(1) by simp
  next
    case sym
    then show ?thesis using at_nonzero [OF sym(1)] by (auto simp: str_def of_char_def)
  next
    case app
    then show ?thesis using at_nonzero [OF app(4)] by simp
  next
    case word
    have q: "q < length s" by (rule at_nonzero [OF word(1)])
    then have "word_at s (q, e)" using word_atI [OF q] word(2,4) by (simp add: at_def)
    then show ?thesis using word(1) by (simp add: word_at_def)
  qed
  then show "q \<le> e" "e \<le> length s" "at s q \<noteq> 0 \<Longrightarrow> q < e" "r \<noteq> 0 \<Longrightarrow> at s q \<noteq> 0"
      "r = 97 \<Longrightarrow> word_at s (q, e)"
    by simp_all
qed

lemma skip_ws_ge: "p \<le> skip_ws s p"
  and skip_ws_le: "p \<le> length s \<Longrightarrow> skip_ws s p \<le> length s"
  and skip_ws_idem: "skip_ws s (skip_ws s p) = skip_ws s p"
  unfolding skip_ws_def by (rule skip_while_ge skip_while_le skip_while_idem; assumption?)+

lemma gettoken_ok:
  assumes "p \<le> length s"
  obtains r q e p' where "gettoken s p = Ret (r, q, e) p'" "p \<le> p'" "p' \<le> length s"
    "at s (skip_ws s p) \<noteq> 0 \<Longrightarrow> p < p'" "r \<noteq> 0 \<Longrightarrow> p < p'" "r = 97 \<Longrightarrow> word_at s (q, e)"
proof -
  obtain r e where t: "token_end s (skip_ws s p) = (r, e)" by fastforce
  note ok = token_end_ok [OF skip_ws_le [OF assms] skip_ws_not_blank t]
  have "p \<le> skip_ws s e" "skip_ws s e \<le> length s" "at s (skip_ws s p) \<noteq> 0 \<Longrightarrow> p < skip_ws s e"
      "r \<noteq> 0 \<Longrightarrow> p < skip_ws s e"
    using ok skip_ws_ge [of p s] skip_ws_ge [of e s] skip_ws_le [of e s] by fastforce+
  moreover have "gettoken s p = Ret (r, skip_ws s p, e) (skip_ws s e)" by (simp add: gettoken_run t)
  ultimately show ?thesis using that ok(5) by blast
qed

section \<open>The parser ends, and what it returns is well formed\<close>

fun cmd_ok :: "uchar list \<Rightarrow> cmd \<Rightarrow> bool" where
  "cmd_ok s (EXEC args) \<longleftrightarrow> length args < MAXARGS \<and> (\<forall>a\<in>set args. word_at s a)"
| "cmd_ok s (REDIR c file efile mode fd) \<longleftrightarrow>
     cmd_ok s c \<and> word_at s (file, efile) \<and>
     ((mode = O_RDONLY \<and> fd = 0) \<or> (mode = O_WRONLY OR O_CREATE \<and> fd = 1))"
| "cmd_ok s (PIPE left right) \<longleftrightarrow> cmd_ok s left \<and> cmd_ok s right"
| "cmd_ok s (LIST left right) \<longleftrightarrow> cmd_ok s left \<and> cmd_ok s right"
| "cmd_ok s (BACK c) \<longleftrightarrow> cmd_ok s c"

text \<open>The number of words of the command below the redirections.\<close>

fun nargs :: "cmd \<Rightarrow> nat" where
  "nargs (EXEC args) = length args"
| "nargs (REDIR c file efile mode fd) = nargs c"
| "nargs c = 0"

lemma add_arg_ok:
  assumes "word_at s (q, e)" "n + 1 < MAXARGS"
  shows "cmd_ok s c \<Longrightarrow> nargs c \<le> n \<Longrightarrow> cmd_ok s (add_arg q e c) \<and> nargs (add_arg q e c) \<le> n + 1"
  using assms by (induction c) auto

text \<open>
  A run of a parser routine that returns leaves the scan pointer between a lower bound and the end of
  the line; one that does not return has met a syntax error.
\<close>

definition parses :: "uchar list \<Rightarrow> ('a \<Rightarrow> bool) \<Rightarrow> nat \<Rightarrow> (nat, 'a) outcome \<Rightarrow> bool" where
  "parses s P lo r = (case r of Ret a p \<Rightarrow> lo \<le> p \<and> p \<le> length s \<and> P a | Stop e p \<Rightarrow> \<exists>msg. e = Panic msg)"

lemma parses_Ret [simp]: "parses s P lo (Ret a p) \<longleftrightarrow> lo \<le> p \<and> p \<le> length s \<and> P a"
  by (simp add: parses_def)

lemma parses_Stop [simp]: "parses s P lo (Stop e p) \<longleftrightarrow> (\<exists>msg. e = Panic msg)"
  by (simp add: parses_def)

lemma parses_bind:
  assumes "parses s Q lo (m p)"
    "\<And>a p'. lo \<le> p' \<Longrightarrow> p' \<le> length s \<Longrightarrow> Q a \<Longrightarrow> parses s P lo (f a p')"
  shows "parses s P lo (kbind m f p)"
proof (cases "m p")
  case (Ret a p')
  then show ?thesis using assms(1) assms(2) [of p' a] by (simp add: parses_def kbind_run)
next
  case (Stop e p')
  then show ?thesis using assms(1) by (simp add: parses_def kbind_run)
qed

lemma parses_weaken:
  assumes "parses s Q lo r" "lo' \<le> lo" "\<And>a. Q a \<Longrightarrow> P a"
  shows "parses s P lo' r"
  using assms by (auto simp: parses_def split: outcome.splits)

lemma peek_run: "peek s toks p = Ret (at s (skip_ws s p) \<noteq> 0 \<and> at s (skip_ws s p) \<in> set (str toks)) (skip_ws s p)"
  by (simp add: peek_def Let_def)

lemma peeked:
  assumes "p \<le> length s"
  obtains p1 b where "peek s toks p = Ret b p1" "p \<le> p1" "p1 \<le> length s" "b \<Longrightarrow> at s (skip_ws s p1) \<noteq> 0"
  using that [OF peek_run] assms by (simp add: skip_ws_ge skip_ws_le skip_ws_idem)

lemma parseredirs_loop_ok:
  "p \<le> length s \<Longrightarrow> length s - p < k \<Longrightarrow> cmd_ok s c \<Longrightarrow>
     parses s (\<lambda>d. cmd_ok s d \<and> nargs d = nargs c) p (parseredirs_loop k s c p)"
proof (induction k arbitrary: p c)
  case (Suc k)
  obtain p1 b where p1: "peek s ''<>'' p = Ret b p1" "p \<le> p1" "p1 \<le> length s"
      "b \<Longrightarrow> at s (skip_ws s p1) \<noteq> 0"
    using peeked [OF Suc.prems(1)] by blast
  show ?case
  proof (cases b)
    case False
    then show ?thesis using p1 Suc.prems by (simp add: kbind_run)
  next
    case True
    obtain tok q0 e0 p2 where p2: "gettoken s p1 = Ret (tok, q0, e0) p2" "p1 < p2" "p2 \<le> length s"
      using gettoken_ok [OF p1(3)] p1(4) [OF True] by metis
    obtain r q e p3 where p3: "gettoken s p2 = Ret (r, q, e) p3" "p2 \<le> p3" "p3 \<le> length s"
        "r = 97 \<Longrightarrow> word_at s (q, e)"
      using gettoken_ok [OF p2(3)] by metis
    define d where "d = (if tok = 60 then redircmd c q e O_RDONLY 0
            else if tok = 62 then redircmd c q e (O_WRONLY OR O_CREATE) 1
            else if tok = 43 then redircmd c q e (O_WRONLY OR O_CREATE) 1
            else c)"
    have run: "parseredirs_loop (Suc k) s c p =
        (if r \<noteq> 97 then panic ''missing file for redirection'' p3 else parseredirs_loop k s d p3)"
      using p1(1) True p2(1) p3(1) by (simp add: kbind_run d_def)
    have "parses s (\<lambda>d. cmd_ok s d \<and> nargs d = nargs c) p (parseredirs_loop k s d p3)" if "r = 97"
    proof (rule parses_weaken [OF Suc.IH])
      show "p3 \<le> length s" "length s - p3 < k" "p \<le> p3" using p1 p2 p3 Suc.prems by simp_all
      show "cmd_ok s d" using p3(4) [OF that] Suc.prems(3) by (simp add: d_def redircmd_def)
      show "cmd_ok s x \<and> nargs x = nargs d \<Longrightarrow> cmd_ok s x \<and> nargs x = nargs c" for x
        by (simp add: d_def redircmd_def split: if_splits)
    qed
    then show ?thesis unfolding run by simp
  qed
qed simp

lemma parseredirs_ok:
  "p \<le> length s \<Longrightarrow> cmd_ok s c \<Longrightarrow>
     parses s (\<lambda>d. cmd_ok s d \<and> nargs d = nargs c) p (parseredirs s c p)"
  unfolding parseredirs_def by (rule parseredirs_loop_ok) simp_all

lemma parseexec_loop_ok:
  "p \<le> length s \<Longrightarrow> length s - p < k \<Longrightarrow> cmd_ok s c \<Longrightarrow> nargs c \<le> argc \<Longrightarrow>
     parses s (cmd_ok s) p (parseexec_loop k s argc c p)"
proof (induction k arbitrary: p c argc)
  case (Suc k)
  obtain p1 b where p1: "peek s ''|)&;'' p = Ret b p1" "p \<le> p1" "p1 \<le> length s"
    using peeked [OF Suc.prems(1)] by metis
  obtain r q e p2 where p2: "gettoken s p1 = Ret (r, q, e) p2" "p1 \<le> p2" "p2 \<le> length s"
      "r \<noteq> 0 \<Longrightarrow> p1 < p2" "r = 97 \<Longrightarrow> word_at s (q, e)"
    using gettoken_ok [OF p1(3)] by metis
  define d where "d = add_arg q e c"
  have run: "parseexec_loop (Suc k) s argc c p =
      (if b then ret c p1 else if r = 0 then ret c p2 else if r \<noteq> 97 then panic ''syntax'' p2
       else if argc + 1 \<ge> MAXARGS then panic ''too many args'' p2
       else kbind (parseredirs s d) (\<lambda>c. parseexec_loop k s (argc + 1) c) p2)"
    using p1(1) p2(1) by (simp add: kbind_run d_def)
  have "parses s (cmd_ok s) p (kbind (parseredirs s d) (\<lambda>c. parseexec_loop k s (argc + 1) c) p2)"
    if r: "r = 97" and n: "argc + 1 < MAXARGS"
  proof (rule parses_weaken [OF parses_bind])
    have d: "cmd_ok s d" "nargs d \<le> argc + 1"
      using add_arg_ok [OF p2(5) [OF r] n Suc.prems(3,4)] by (simp_all add: d_def)
    show "parses s (\<lambda>x. cmd_ok s x \<and> nargs x = nargs d) p2 (parseredirs s d p2)"
      by (rule parseredirs_ok [OF p2(3) d(1)])
    show "parses s (cmd_ok s) p2 (parseexec_loop k s (argc + 1) a p')"
      if "p2 \<le> p'" "p' \<le> length s" "cmd_ok s a \<and> nargs a = nargs d" for a p'
      using that p1 p2 r d Suc.prems by (intro parses_weaken [OF Suc.IH]) simp_all
    show "p \<le> p2" using p1 p2 by simp
  qed
  then show ?case unfolding run using p1 p2 Suc.prems by simp
qed simp

lemma parseline_back_ok:
  "p \<le> length s \<Longrightarrow> length s - p < k \<Longrightarrow> cmd_ok s c \<Longrightarrow>
     parses s (cmd_ok s) p (parseline_back k s c p)"
proof (induction k arbitrary: p c)
  case (Suc k)
  obtain p1 b where p1: "peek s ''&'' p = Ret b p1" "p \<le> p1" "p1 \<le> length s"
      "b \<Longrightarrow> at s (skip_ws s p1) \<noteq> 0"
    using peeked [OF Suc.prems(1)] by blast
  obtain r q e p2 where p2: "gettoken s p1 = Ret (r, q, e) p2" "p1 \<le> p2" "p2 \<le> length s"
      "at s (skip_ws s p1) \<noteq> 0 \<Longrightarrow> p1 < p2"
    using gettoken_ok [OF p1(3)] by metis
  have "parses s (cmd_ok s) p (parseline_back k s (backcmd c) p2)" if b
    using p1 p2 that Suc.prems by (intro parses_weaken [OF Suc.IH]) (simp_all add: backcmd_def)
  then show ?case using p1 p2(1) Suc.prems by (simp add: kbind_run)
qed simp

lemma parses_after:
  assumes "b \<Longrightarrow> parses s (cmd_ok s) p (m p2)" "p \<le> p1" "p1 \<le> length s" "cmd_ok s c"
    "\<And>d. cmd_ok s d \<Longrightarrow> cmd_ok s (f d)"
  shows "parses s (cmd_ok s) p (if b then kbind m (\<lambda>d. ret (f d)) p2 else Ret c p1)"
  using assms by (auto intro!: parses_bind [where Q = "cmd_ok s"])

text \<open>A separator and what follows it, the common end of \<^verbatim>\<open>parseline\<close> and \<^verbatim>\<open>parsepipe\<close>.\<close>

lemma separated_ok:
  assumes "p \<le> length s" "cmd_ok s c" "\<And>d. cmd_ok s d \<Longrightarrow> cmd_ok s (f d)"
    "\<And>p'. p < p' \<Longrightarrow> p' \<le> length s \<Longrightarrow> parses s (cmd_ok s) p' (m p')"
  shows "parses s (cmd_ok s) p
     (kbind (peek s toks) (\<lambda>b. if b then kbind (gettoken s) (\<lambda>_. kbind m (\<lambda>d. ret (f d))) else ret c) p)"
proof -
  obtain p1 b where p1: "peek s toks p = Ret b p1" "p \<le> p1" "p1 \<le> length s"
      "b \<Longrightarrow> at s (skip_ws s p1) \<noteq> 0"
    using peeked [OF assms(1)] by blast
  obtain r q e p2 where p2: "gettoken s p1 = Ret (r, q, e) p2" "p1 \<le> p2" "p2 \<le> length s"
      "at s (skip_ws s p1) \<noteq> 0 \<Longrightarrow> p1 < p2"
    using gettoken_ok [OF p1(3)] by metis
  have "parses s (cmd_ok s) p (m p2)" if b
    using parses_weaken [OF assms(4) [of p2]] p1 p2 that by simp
  then have "parses s (cmd_ok s) p (if b then kbind m (\<lambda>d. ret (f d)) p2 else Ret c p1)"
    using assms p1 by (intro parses_after)
  then show ?thesis by (cases b) (simp_all add: kbind_Ret p1(1) p2(1))
qed

lemma parser_ok:
  "p \<le> length s \<Longrightarrow> 4 * (length s - p) + 4 \<le> k \<Longrightarrow> parses s (cmd_ok s) p (parseline k s p)"
  "p \<le> length s \<Longrightarrow> 4 * (length s - p) + 3 \<le> k \<Longrightarrow> parses s (cmd_ok s) p (parsepipe k s p)"
  "p \<le> length s \<Longrightarrow> 4 * (length s - p) + 1 \<le> k \<Longrightarrow> parses s (cmd_ok s) p (parseblock k s p)"
  "p \<le> length s \<Longrightarrow> 4 * (length s - p) + 2 \<le> k \<Longrightarrow> parses s (cmd_ok s) p (parseexec k s p)"
proof (induction k arbitrary: p)
  case 0
  {
    case 1
    then show ?case by simp
  next
    case 2
    then show ?case by simp
  next
    case 3
    then show ?case by simp
  next
    case 4
    then show ?case by simp
  }
next
  case (Suc k)
  {
    case 1
    show ?case unfolding parseline.simps
    proof (rule parses_bind [where Q = "cmd_ok s"])
      show "parses s (cmd_ok s) p (parsepipe k s p)" using Suc.IH(2) 1 by simp
    next
      fix c p1 assume c: "p \<le> p1" "p1 \<le> length s" "cmd_ok s c"
      show "parses s (cmd_ok s) p
         (kbind (parseline_back (length s + 1) s c)
           (\<lambda>c. kbind (peek s '';'')
             (\<lambda>b. if b then kbind (gettoken s) (\<lambda>_. kbind (parseline k s) (\<lambda>d. ret (listcmd c d)))
                  else ret c)) p1)"
      proof (rule parses_bind [where Q = "cmd_ok s"])
        show "parses s (cmd_ok s) p (parseline_back (length s + 1) s c p1)"
          by (rule parses_weaken [OF parseline_back_ok]) (use c in simp_all)
      next
        fix d p2 assume d: "p \<le> p2" "p2 \<le> length s" "cmd_ok s d"
        show "parses s (cmd_ok s) p
           (kbind (peek s '';'')
             (\<lambda>b. if b then kbind (gettoken s) (\<lambda>_. kbind (parseline k s) (\<lambda>e. ret (listcmd d e)))
                  else ret d) p2)"
          using d 1 by (intro parses_weaken [OF separated_ok] Suc.IH(1)) (simp_all add: listcmd_def)
      qed
    qed
  next
    case 2
    show ?case unfolding parsepipe.simps
    proof (rule parses_bind [where Q = "cmd_ok s"])
      show "parses s (cmd_ok s) p (parseexec k s p)" using Suc.IH(4) 2 by simp
    next
      fix c p1 assume c: "p \<le> p1" "p1 \<le> length s" "cmd_ok s c"
      show "parses s (cmd_ok s) p
         (kbind (peek s ''|'')
           (\<lambda>b. if b then kbind (gettoken s) (\<lambda>_. kbind (parsepipe k s) (\<lambda>d. ret (pipecmd c d)))
                else ret c) p1)"
        using c 2 by (intro parses_weaken [OF separated_ok] Suc.IH(2)) (simp_all add: pipecmd_def)
    qed
  next
    case 3
    obtain p1 b where p1: "peek s ''('' p = Ret b p1" "p \<le> p1" "p1 \<le> length s"
        "b \<Longrightarrow> at s (skip_ws s p1) \<noteq> 0"
      using peeked [OF 3(1)] by blast
    obtain r q e p2 where p2: "gettoken s p1 = Ret (r, q, e) p2" "p1 \<le> p2" "p2 \<le> length s"
        "at s (skip_ws s p1) \<noteq> 0 \<Longrightarrow> p1 < p2"
      using gettoken_ok [OF p1(3)] by metis
    have "parses s (cmd_ok s) p (kbind (parseline k s) (\<lambda>c.
       kbind (peek s '')'') (\<lambda>b.
       if \<not> b then panic ''syntax - missing )''
       else kbind (gettoken s) (\<lambda>_. parseredirs s c))) p2)" if b
    proof (rule parses_bind [where Q = "cmd_ok s"])
      show "parses s (cmd_ok s) p (parseline k s p2)"
        using 3 p1 p2 that by (intro parses_weaken [OF Suc.IH(1) [of p2]]) simp_all
    next
      fix c p3 assume c: "p \<le> p3" "p3 \<le> length s" "cmd_ok s c"
      obtain p4 b' where p4: "peek s '')'' p3 = Ret b' p4" "p3 \<le> p4" "p4 \<le> length s"
        using peeked [OF c(2)] by metis
      obtain r' q' e' p5 where p5: "gettoken s p4 = Ret (r', q', e') p5" "p4 \<le> p5" "p5 \<le> length s"
        using gettoken_ok [OF p4(3)] by metis
      have "parses s (cmd_ok s) p (parseredirs s c p5)"
        using parses_weaken [OF parseredirs_ok [OF p5(3) c(3)]] c p4 p5 by simp
      then show "parses s (cmd_ok s) p
         (kbind (peek s '')'')
           (\<lambda>b. if \<not> b then panic ''syntax - missing )'' else kbind (gettoken s) (\<lambda>_. parseredirs s c)) p3)"
        by (cases b') (simp_all add: kbind_Ret p4(1) p5(1))
    qed
    then show ?case by (cases b) (simp_all add: kbind_Ret p1(1) p2(1))
  next
    case 4
    obtain p1 b where p1: "peek s ''('' p = Ret b p1" "p \<le> p1" "p1 \<le> length s"
      using peeked [OF 4(1)] by metis
    have "parses s (cmd_ok s) p (kbind (parseredirs s execcmd) (parseexec_loop (length s + 1) s 0) p1)"
    proof (rule parses_bind)
      show "parses s (\<lambda>d. cmd_ok s d \<and> nargs d = nargs execcmd) p (parseredirs s execcmd p1)"
        using parses_weaken [OF parseredirs_ok [OF p1(3), of execcmd]] p1(2)
        by (simp add: execcmd_def MAXARGS_def)
      show "parses s (cmd_ok s) p (parseexec_loop (length s + 1) s 0 d p2)"
        if "p \<le> p2" "p2 \<le> length s" "cmd_ok s d \<and> nargs d = nargs execcmd" for d p2
        by (rule parses_weaken [OF parseexec_loop_ok]) (use that in \<open>simp_all add: execcmd_def\<close>)
    qed
    moreover have "parses s (cmd_ok s) p (parseblock k s p1)"
      using p1 4 by (intro parses_weaken [OF Suc.IH(3)]) simp_all
    ultimately show ?case by (cases b) (simp_all add: kbind_Ret p1(1))
  }
qed

lemma parse_line_ok: "parses s (cmd_ok s) 0 (parse_line s)"
  unfolding parse_line_def
proof (rule parses_bind [where Q = "cmd_ok s"])
  show "parses s (cmd_ok s) 0 (parseline (4 * length s + 4) s 0)"
    using parser_ok(1) [of 0 s] by simp
  show "parses s (cmd_ok s) 0 (kseq (peek s '''') (ret c) p)"
    if "0 \<le> p" "p \<le> length s" "cmd_ok s c" for c p
    using that by (simp add: kseq_run peek_run skip_ws_le)
qed

text \<open>
  C16. The shell's parser ends on every line, and gives a syntax error or a well-formed command: every
  simple command has fewer than \<^verbatim>\<open>MAXARGS\<close> words, so that the NULL after them fits the array; every word
  and every file name is a run of word characters inside the line that no word character follows; and
  every redirection has the mode and the descriptor of its symbol. The fuel of the model never runs out.
\<close>

theorem parse_line_well_formed:
  "(\<exists>c p. parse_line s = Ret c p \<and> p \<le> length s \<and> cmd_ok s c) \<or>
   (\<exists>msg p. parse_line s = Stop (Panic msg) p)"
  using parse_line_ok [of s] by (cases "parse_line s") auto

section \<open>The words survive\<close>

fun cmd_words :: "cmd \<Rightarrow> (nat \<times> nat) list" where
  "cmd_words (EXEC args) = args"
| "cmd_words (REDIR c file efile mode fd) = cmd_words c @ [(file, efile)]"
| "cmd_words (PIPE left right) = cmd_words left @ cmd_words right"
| "cmd_words (LIST left right) = cmd_words left @ cmd_words right"
| "cmd_words (BACK c) = cmd_words c"

lemma nulterminate_words: "nulterminate c buf = foldl (\<lambda>b (q, e). b[e := 0]) buf (cmd_words c)"
  by (induction c arbitrary: buf) simp_all

lemma cmd_ok_words: "cmd_ok s c \<Longrightarrow> \<forall>w\<in>set (cmd_words c). word_at s w"
  by (induction c) auto

lemma foldl_ends:
  "length (foldl (\<lambda>b (q, e). b[e := 0]) buf ws) = length buf"
  "i < length buf \<Longrightarrow> foldl (\<lambda>b (q, e). b[e := 0]) buf ws ! i = (if i \<in> snd ` set ws then 0 else buf ! i)"
  by (induction ws arbitrary: buf) (auto simp: nth_list_update, force)

text \<open>An end of a word is never inside a word.\<close>

lemma word_at_apart: "word_at s (q, e) \<Longrightarrow> word_at s (q', e') \<Longrightarrow> q \<le> i \<Longrightarrow> i < e \<Longrightarrow> i \<noteq> e'"
  by (auto simp: word_at_def)

lemma bufstr_eq:
  assumes "q \<le> e" "e < length buf" "buf ! e = 0" "\<And>i. q \<le> i \<Longrightarrow> i < e \<Longrightarrow> buf ! i \<noteq> 0"
  shows "bufstr buf q = take (e - q) (drop q buf)"
  unfolding bufstr_def
proof (rule takeWhile_eq_take_P_nth)
  show "drop q buf ! i \<noteq> 0" if "i < e - q" "i < length (drop q buf)" for i
    using that assms(4) [of "q + i"] by simp
  show "\<not> drop q buf ! (e - q) \<noteq> 0" if "e - q < length (drop q buf)"
    using assms(1,3) that by simp
qed

lemma nulterminate_bufstr:
  assumes "cmd_ok s c" "0 \<notin> set s" "(q, e) \<in> set (cmd_words c)"
  shows "bufstr (nulterminate c (s @ [0])) q = take (e - q) (drop q s)"
proof -
  define b where "b = nulterminate c (s @ [0])"
  have w: "word_at s (q, e)" using cmd_ok_words [OF assms(1)] assms(3) by blast
  then have q: "q < e" "e \<le> length s" by (simp_all add: word_at_def)
  have len: "length b = length s + 1" by (simp add: b_def nulterminate_words foldl_ends(1))
  have b: "b ! i = (if i \<in> snd ` set (cmd_words c) then 0 else (s @ [0]) ! i)" if "i \<le> length s" for i
    using that by (simp add: b_def nulterminate_words foldl_ends(2))
  have "e \<in> snd ` set (cmd_words c)" using assms(3) by force
  then have z: "b ! e = 0" using b q by simp
  have k: "b ! i = s ! i" if "q \<le> i" "i < e" for i
  proof -
    have "i \<notin> snd ` set (cmd_words c)"
      using word_at_apart [OF w _ that] cmd_ok_words [OF assms(1)] by fastforce
    then show ?thesis using b [of i] that q by (simp add: nth_append)
  qed
  have "bufstr b q = take (e - q) (drop q b)"
  proof (rule bufstr_eq)
    show "b ! i \<noteq> 0" if "q \<le> i" "i < e" for i
      using k [OF that] assms(2) that q by (metis less_le_trans nth_mem)
  qed (use q len z in simp_all)
  also have "\<dots> = take (e - q) (drop q s)"
    by (rule nth_equalityI) (use q len k in simp_all)
  finally show ?thesis by (simp add: b_def)
qed

lemma sh_panic_not_Ret [simp]: "sh_panic os msg w \<noteq> Ret a w'"
  by (cases "u_printf os 2 ''%s\<newline>'' [str_arg (str msg)] w") (simp_all add: sh_panic_def kseq_run u_exit_def)

lemma parsecmd_Ret:
  assumes "parsecmd os s w = Ret (c, buf) w'"
  shows "\<exists>p. parse_line s = Ret c p \<and> buf = nulterminate c (s @ [0])"
proof (cases "parse_line s")
  case (Ret d p)
  then show ?thesis
    using assms by (cases "p = length s") (auto simp: parsecmd_def kseq_run split: outcome.splits)
next
  case (Stop e p)
  then show ?thesis using assms by (cases e) (simp_all add: parsecmd_def)
qed


text \<open>\<open>runcmd\<close> never returns.\<close>

lemma runcmd_never_returns: "returns (runcmd os buf c w) = None"
proof -
  have e: "returns (kseq m u_exit w) = None" for m :: "('w, 'b) K" and w
    by (simp add: kseq_run u_exit_def split: outcome.splits)
  have b: "(\<And>a w. returns (f a w) = None) \<Longrightarrow> returns (kbind m f w) = None"
    for m :: "('w, 'b) K" and f :: "'b \<Rightarrow> ('w, unit) K" and w
    by (simp add: kbind_run split: outcome.splits)
  have s: "(\<And>w. returns (n w) = None) \<Longrightarrow> returns (kseq m n w) = None"
    for m :: "('w, 'b) K" and n :: "('w, unit) K" and w
    by (simp add: kseq_run split: outcome.splits)
  have u: "returns (u_exit w :: ('w, unit) outcome) = None" for w by (simp add: u_exit_def)
  show ?thesis
    by (cases c) (auto intro!: e b s u simp: Let_def split: prod.splits)
qed

section \<open>A line with every construct\<close>

lemma parse_example:
  "parse_line (str ''(a|b>f);c d&'') =
     Ret (LIST (PIPE (EXEC [(1, 2)]) (REDIR (EXEC [(3, 4)]) 5 6 (O_WRONLY OR O_CREATE) 1))
            (BACK (EXEC [(8, 9), (10, 11)]))) 12"
  by code_simp


end
