(* ===== verification/Umalloc.thy ===== *)
theory Umalloc
  imports Grep
begin

text \<open>
  The allocator of the user programs, \<^verbatim>\<open>src/umalloc.c\<close>, after Kernighan and Ritchie. Its memory is seen
  in units of a header, eight bytes: \<open>hp_at\<close> gives the header stored at an address, \<open>hp_base\<close> is the
  address of the static header \<^verbatim>\<open>base\<close>, and adding to a header pointer adds multiples of eight with the
  wrap-around of 32 bits. The loops walk the circular free list and may run forever on a corrupted
  one; they take fuel.
\<close>

section \<open>State\<close>

record header =
  h_ptr :: addr
  h_size :: uint

record 'w heap =
  hp_at :: "addr \<Rightarrow> header"
  hp_base :: addr
  hp_freep :: addr
  hp_world :: 'w

definition hdr_add :: "addr \<Rightarrow> uint \<Rightarrow> addr" where
  "hdr_add p n = p + 8 * n"

definition get_hdr :: "addr \<Rightarrow> ('w heap, header) K" where
  "get_hdr p = kget (\<lambda>h. hp_at h p)"

definition set_ptr :: "addr \<Rightarrow> addr \<Rightarrow> ('w heap, unit) K" where
  "set_ptr p v = kmod (\<lambda>h. h\<lparr>hp_at := (hp_at h)(p := (hp_at h p)\<lparr>h_ptr := v\<rparr>)\<rparr>)"

definition set_size :: "addr \<Rightarrow> uint \<Rightarrow> ('w heap, unit) K" where
  "set_size p v = kmod (\<lambda>h. h\<lparr>hp_at := (hp_at h)(p := (hp_at h p)\<lparr>h_size := v\<rparr>)\<rparr>)"

definition set_freep :: "addr \<Rightarrow> ('w heap, unit) K" where
  "set_freep p = kmod (\<lambda>h. h\<lparr>hp_freep := p\<rparr>)"

definition h_sbrk :: "'w usys \<Rightarrow> uint \<Rightarrow> ('w heap, addr) K" where
  "h_sbrk os n h =
     (case u_sbrk os n (hp_world h) of
        Ret a w \<Rightarrow> Ret a (h\<lparr>hp_world := w\<rparr>)
      | Stop e w \<Rightarrow> Stop e (h\<lparr>hp_world := w\<rparr>))"

section \<open>free\<close>

text \<open>The place in the list: the block \<open>p\<close> after which \<open>bp\<close> goes.\<close>

fun free_find :: "nat \<Rightarrow> addr \<Rightarrow> addr \<Rightarrow> ('w heap, addr) K" where
  "free_find 0 bp p = kstop Diverge"
| "free_find (Suc k) bp p =
     kbind (get_hdr p) (\<lambda>h.
     if bp > p \<and> bp < h_ptr h then ret p
     else if p \<ge> h_ptr h \<and> (bp > p \<or> bp < h_ptr h) then ret p
     else free_find k bp (h_ptr h))"

definition free_link :: "addr \<Rightarrow> addr \<Rightarrow> ('w heap, unit) K" where
  "free_link bp p =
     kbind (get_hdr bp) (\<lambda>b.
     kbind (get_hdr p) (\<lambda>h.
     kseq (if hdr_add bp (h_size b) = h_ptr h
           then
             kbind (get_hdr (h_ptr h)) (\<lambda>n.
             kseq (set_size bp (h_size b + h_size n)) (set_ptr bp (h_ptr n)))
           else set_ptr bp (h_ptr h)) (
     kbind (get_hdr p) (\<lambda>h.
     kseq (if hdr_add p (h_size h) = bp
           then
             kbind (get_hdr bp) (\<lambda>b.
             kseq (set_size p (h_size h + h_size b)) (set_ptr p (h_ptr b)))
           else set_ptr p bp) (
     set_freep p)))))"

definition free :: "nat \<Rightarrow> addr \<Rightarrow> ('w heap, unit) K" where
  "free k ap =
     (let bp = ap - 8
      in kbind (kget hp_freep) (\<lambda>fp. kbind (free_find k bp fp) (\<lambda>p. free_link bp p)))"

section \<open>malloc\<close>

definition morecore :: "'w usys \<Rightarrow> nat \<Rightarrow> uint \<Rightarrow> ('w heap, addr) K" where
  "morecore os k nu =
     (let nu = (if nu < 4096 then 4096 else nu)
      in kbind (h_sbrk os (nu * 8)) (\<lambda>p.
         if p = - 1 then ret 0
         else kseq (set_size p nu) (kseq (free k (hdr_add p 1)) (kget hp_freep))))"

definition malloc_units :: "uint \<Rightarrow> uint" where
  "malloc_units nbytes = (nbytes + 8 - 1) div 8 + 1"

definition malloc_take :: "uint \<Rightarrow> addr \<Rightarrow> addr \<Rightarrow> header \<Rightarrow> ('w heap, addr) K" where
  "malloc_take nunits prevp p h =
     (if h_size h = nunits
      then kseq (set_ptr prevp (h_ptr h)) (kseq (set_freep prevp) (ret (hdr_add p 1)))
      else
        kseq (set_size p (h_size h - nunits)) (
        let q = hdr_add p (h_size h - nunits)
        in kseq (set_size q nunits) (kseq (set_freep prevp) (ret (hdr_add q 1)))))"

fun malloc_loop :: "'w usys \<Rightarrow> nat \<Rightarrow> uint \<Rightarrow> addr \<Rightarrow> addr \<Rightarrow> ('w heap, addr) K" where
  "malloc_loop os 0 nunits prevp p = kstop Diverge"
| "malloc_loop os (Suc k) nunits prevp p =
     kbind (get_hdr p) (\<lambda>h.
     if h_size h \<ge> nunits then malloc_take nunits prevp p h
     else
       kbind (kget hp_freep) (\<lambda>fp.
       if p = fp then
         kbind (morecore os k nunits) (\<lambda>p.
         if p = 0 then ret 0
         else kbind (get_hdr p) (\<lambda>h. malloc_loop os k nunits p (h_ptr h)))
       else malloc_loop os k nunits p (h_ptr h)))"

definition malloc :: "'w usys \<Rightarrow> nat \<Rightarrow> uint \<Rightarrow> ('w heap, addr) K" where
  "malloc os k nbytes =
     (let nunits = malloc_units nbytes
      in kbind (kget hp_freep) (\<lambda>fp.
         kseq (kwhen (fp = 0)
                 (kbind (kget hp_base) (\<lambda>b.
                  kseq (set_ptr b b) (kseq (set_freep b) (set_size b 0))))) (
         kbind (kget hp_freep) (\<lambda>prevp.
         kbind (get_hdr prevp) (\<lambda>h. malloc_loop os k nunits prevp (h_ptr h))))))"

section \<open>The free list\<close>

text \<open>
  The abstract free list: addresses and sizes of the free blocks, the static header first. The blocks
  ascend, and between two of them lies at least one unit that is not free.
\<close>

type_synonym blocks = "(addr \<times> uint) list"

fun spaced :: "blocks \<Rightarrow> bool" where
  "spaced [] = True"
| "spaced [(a, s)] = (unat a + 8 * unat s < 2 ^ 32)"
| "spaced ((a, s) # (b, t) # r) = (unat a + 8 * unat s < unat b \<and> spaced ((b, t) # r))"

definition hd_addr :: "blocks \<Rightarrow> addr \<Rightarrow> addr" where
  "hd_addr bs e = (case bs of [] \<Rightarrow> e | b # r \<Rightarrow> fst b)"

fun links :: "(addr \<Rightarrow> header) \<Rightarrow> blocks \<Rightarrow> addr \<Rightarrow> bool" where
  "links m [] e = True"
| "links m ((a, s) # r) e = (m a = \<lparr>h_ptr = hd_addr r e, h_size = s\<rparr> \<and> links m r e)"

definition free_ring :: "'w heap \<Rightarrow> blocks \<Rightarrow> bool" where
  "free_ring h bs \<longleftrightarrow> bs \<noteq> [] \<and> hd bs = (hp_base h, 0) \<and> spaced bs \<and> links (hp_at h) bs (hp_base h) \<and>
     hp_freep h \<in> fst ` set bs"

text \<open>The addresses of the free bytes.\<close>

definition block_bytes :: "addr \<times> uint \<Rightarrow> nat set" where
  "block_bytes = (\<lambda>(a, s). {unat a..<unat a + 8 * unat s})"

definition free_bytes :: "blocks \<Rightarrow> nat set" where
  "free_bytes bs = \<Union> (block_bytes ` set bs)"

lemma links_append: "links m (xs @ ys) e \<longleftrightarrow> links m xs (hd_addr ys e) \<and> links m ys e"
proof (induction xs)
  case (Cons x xs)
  obtain a s where x: "x = (a, s)" by fastforce
  have "hd_addr (xs @ ys) e = hd_addr xs (hd_addr ys e)" by (cases xs) (simp_all add: hd_addr_def)
  then show ?case using Cons x by simp
qed simp

lemma links_other: "x \<notin> fst ` set bs \<Longrightarrow> links (m(x := v)) bs e \<longleftrightarrow> links m bs e"
proof (induction bs)
  case (Cons b bs)
  then show ?case by (cases b) auto
qed simp

lemma spaced_Cons: "spaced ((a, s) # r) \<longleftrightarrow>
    (r = [] \<longrightarrow> unat a + 8 * unat s < 2 ^ 32) \<and> (r \<noteq> [] \<longrightarrow> unat a + 8 * unat s < unat (fst (hd r))) \<and> spaced r"
  by (cases r) auto

lemma spaced_append: "spaced (xs @ ys) \<Longrightarrow> spaced ys"
  by (induction xs) (auto simp: spaced_Cons)

lemma spaced_less:
  "spaced ((a, s) # r) \<Longrightarrow> (b, t) \<in> set r \<Longrightarrow> unat a + 8 * unat s < unat b"
proof (induction r arbitrary: a s)
  case (Cons c r)
  obtain d u where c: "c = (d, u)" by fastforce
  have 1: "unat a + 8 * unat s < unat d" "spaced (c # r)" using Cons.prems(1) c by auto
  show ?case
  proof (cases "(b, t) = c")
    case False
    then have "unat d + 8 * unat u < unat b" using Cons.IH [of d u] Cons.prems(2) 1 c by auto
    then show ?thesis using 1 by simp
  qed (use 1 c in simp)
qed simp

lemma spaced_distinct: "spaced bs \<Longrightarrow> distinct (map fst bs)"
proof (induction bs)
  case (Cons b bs)
  obtain a s where b: "b = (a, s)" by fastforce
  have "a \<notin> fst ` set bs" using spaced_less [of a s bs] Cons.prems b by fastforce
  then show ?case using Cons b by (simp add: spaced_Cons)
qed simp

text \<open>A block that is not free, with the free blocks below and above it.\<close>

definition fits :: "blocks \<Rightarrow> addr \<times> uint \<Rightarrow> blocks \<Rightarrow> bool" where
  "fits xs b ys \<longleftrightarrow>
     (\<forall>(a, s)\<in>set xs. unat a < unat (fst b) \<and> unat a + 8 * unat s \<le> unat (fst b)) \<and>
     (\<forall>(a, s)\<in>set ys. unat (fst b) + 8 * unat (snd b) \<le> unat a) \<and>
     0 < unat (snd b) \<and> unat (fst b) + 8 * unat (snd b) < 2 ^ 32"

section \<open>The search of free\<close>

lemma links_nth:
  "links m bs e \<Longrightarrow> i < length bs \<Longrightarrow>
     m (fst (bs ! i)) = \<lparr>h_ptr = (if Suc i < length bs then fst (bs ! Suc i) else e), h_size = snd (bs ! i)\<rparr>"
proof (induction bs arbitrary: i)
  case (Cons b bs)
  obtain a s where b: "b = (a, s)" by fastforce
  show ?case
  proof (cases i)
    case 0
    then show ?thesis using Cons.prems b by (cases bs) (simp_all add: hd_addr_def)
  next
    case (Suc j)
    then show ?thesis using Cons b by simp
  qed
qed simp

lemma spaced_nth_less:
  assumes "spaced bs" "i < j" "j < length bs"
  shows "fst (bs ! i) < fst (bs ! j)"
proof -
  have "bs = take i bs @ (bs ! i) # drop (Suc i) bs" using assms by (simp add: id_take_nth_drop)
  then have "spaced ((bs ! i) # drop (Suc i) bs)" using spaced_append assms(1) by metis
  moreover have "bs ! j \<in> set (drop (Suc i) bs)"
    using assms(2,3) nth_mem [of "j - Suc i" "drop (Suc i) bs"] by simp
  ultimately have "unat (fst (bs ! i)) + 8 * unat (snd (bs ! i)) < unat (fst (bs ! j))"
    using spaced_less [of "fst (bs ! i)" "snd (bs ! i)" "drop (Suc i) bs" "fst (bs ! j)" "snd (bs ! j)"]
    by simp
  then show ?thesis by (simp add: word_less_nat_alt)
qed

text \<open>How many steps the search takes from the block with index \<open>j\<close> to the one below the freed block.\<close>

definition steps_to :: "nat \<Rightarrow> nat \<Rightarrow> nat \<Rightarrow> nat" where
  "steps_to n x j = (if j < x then x - 1 - j else n - j + x - 1)"

lemma free_find_run:
  assumes ring: "bs = xs @ ys" "xs \<noteq> []" "spaced bs" "links (hp_at h) bs (fst (hd bs))"
    and fits: "fits xs (bp, n) ys"
  shows "j < length bs \<Longrightarrow> steps_to (length bs) (length xs) j < k \<Longrightarrow>
     free_find k bp (fst (bs ! j)) h = Ret (fst (last xs)) h"
proof (induction k arbitrary: j)
  case (Suc k)
  let ?x = "length xs"
  have x: "0 < ?x" "?x \<le> length bs" using ring(1,2) by simp_all
  have base: "fst (hd bs) = fst (bs ! 0)" using ring(1,2) by (simp add: hd_conv_nth)
  define nx where "nx = (if Suc j < length bs then fst (bs ! Suc j) else fst (bs ! 0))"
  have hd: "get_hdr (fst (bs ! j)) h = Ret \<lparr>h_ptr = nx, h_size = snd (bs ! j)\<rparr> h"
    using links_nth [OF ring(4) Suc.prems(1)] by (simp add: get_hdr_def nx_def base)
  have below: "fst (bs ! i) < bp" if "i < ?x" for i
  proof -
    have "bs ! i \<in> set xs" using that ring(1) by (simp add: nth_append)
    then show ?thesis using fits unfolding fits_def by (fastforce simp: word_less_nat_alt)
  qed
  have above: "bp < fst (bs ! i)" if "?x \<le> i" "i < length bs" for i
  proof -
    have "bs ! i \<in> set ys" using that ring(1) by (simp add: nth_append)
    then show ?thesis using fits unfolding fits_def by (fastforce simp: word_less_nat_alt)
  qed
  have up: "fst (bs ! j) < fst (bs ! Suc j)" if "Suc j < length bs"
    using spaced_nth_less [OF ring(3) _ that] by simp
  have lo: "fst (bs ! 0) \<le> fst (bs ! j)"
    using spaced_nth_less [OF ring(3), of 0 j] Suc.prems(1) by (cases "j = 0") (auto intro: less_imp_le)
  consider (found) "Suc j = ?x" | (next_below) "Suc j < ?x" | (next_above) "?x \<le> j" "Suc j < length bs"
    | (wrap) "?x \<le> j" "Suc j = length bs"
    using Suc.prems(1) by linarith
  then show ?case
  proof cases
    case found
    have "j = length xs - 1" "j < length xs" using found by simp_all
    then have l: "last xs = bs ! j" using ring(1,2) by (simp add: last_conv_nth nth_append)
    have "fst (bs ! j) < bp" using below found by simp
    moreover have "bp < nx \<or> nx \<le> fst (bs ! j)"
      using above [of "Suc j"] found lo by (auto simp: nx_def)
    ultimately show ?thesis by (auto simp: kbind_Ret hd l)
  next
    case next_below
    then have "nx = fst (bs ! Suc j)" "\<not> bp < nx" "fst (bs ! j) < nx"
      using below [of "Suc j"] up x by (auto simp: nx_def dest: less_asym)
    moreover have "free_find k bp (fst (bs ! Suc j)) h = Ret (fst (last xs)) h"
      using Suc.prems next_below x by (intro Suc.IH) (auto simp: steps_to_def)
    ultimately show ?thesis by (auto simp: kbind_Ret hd)
  next
    case next_above
    then have "nx = fst (bs ! Suc j)" "bp < fst (bs ! j)" "fst (bs ! j) < nx"
      using above [of j] up by (auto simp: nx_def)
    moreover have "free_find k bp (fst (bs ! Suc j)) h = Ret (fst (last xs)) h"
      using Suc.prems next_above x by (intro Suc.IH) (auto simp: steps_to_def)
    ultimately show ?thesis by (auto simp: kbind_Ret hd)
  next
    case wrap
    then have "nx = fst (bs ! 0)" "bp < fst (bs ! j)" "fst (bs ! 0) < bp"
      using above [of j] below [of 0] x by (auto simp: nx_def)
    moreover have "free_find k bp (fst (bs ! 0)) h = Ret (fst (last xs)) h"
      using Suc.prems wrap x by (intro Suc.IH) (auto simp: steps_to_def simp del: length_greater_0_conv)
    ultimately show ?thesis by (auto simp: kbind_Ret hd)
  qed
qed simp

section \<open>Coalescing\<close>

text \<open>The block joined with the one above it and with the one below it, where they touch.\<close>

fun join_right :: "addr \<times> uint \<Rightarrow> blocks \<Rightarrow> blocks" where
  "join_right (b, n) [] = [(b, n)]"
| "join_right (b, n) ((a, s) # r) = (if hdr_add b n = a then (b, n + s) # r else (b, n) # (a, s) # r)"

fun join_left :: "addr \<times> uint \<Rightarrow> blocks \<Rightarrow> blocks" where
  "join_left (p, s) [] = [(p, s)]"
| "join_left (p, s) ((b, n) # r) = (if hdr_add p s = b then (p, s + n) # r else (p, s) # (b, n) # r)"

lemma hdr_add_unat: "unat a + 8 * unat s < 2 ^ 32 \<Longrightarrow> unat (hdr_add a s) = unat a + 8 * unat s"
  by (simp add: hdr_add_def unat_word_ariths)

lemma hdr_add_eq: "unat a + 8 * unat s < 2 ^ 32 \<Longrightarrow> hdr_add a s = b \<longleftrightarrow> unat a + 8 * unat s = unat b"
  using hdr_add_unat [of a s] by (metis word_unat_eq_iff)

lemma size_add_unat:
  fixes a b s t :: uint
  shows "unat a + 8 * unat s = unat b \<Longrightarrow> unat b + 8 * unat t < 2 ^ 32 \<Longrightarrow>
    unat (s + t) = unat s + unat t"
  by (simp add: unat_word_ariths)

lemma spaced_bound: "spaced ((a, s) # r) \<Longrightarrow> unat a + 8 * unat s < 2 ^ 32"
  using unat_lt32 [of "fst (hd r)"] by (cases r) auto

text \<open>Joining touching blocks keeps the list spaced and the free bytes the same.\<close>

lemma join_right_ok:
  assumes "spaced ys" "unat b + 8 * unat n < 2 ^ 32"
    "\<forall>(a, s)\<in>set ys. unat b + 8 * unat n \<le> unat a"
  shows "spaced (join_right (b, n) ys) \<and> free_bytes (join_right (b, n) ys) = block_bytes (b, n) \<union> free_bytes ys \<and>
     (\<exists>n' r. join_right (b, n) ys = (b, n') # r)"
proof (cases ys)
  case Nil
  then show ?thesis using assms by (simp add: free_bytes_def)
next
  case (Cons y r)
  obtain a s where y: "y = (a, s)" by fastforce
  have le: "unat b + 8 * unat n \<le> unat a" using assms(3) Cons y by auto
  show ?thesis
  proof (cases "hdr_add b n = a")
    case True
    then have e: "unat b + 8 * unat n = unat a" using hdr_add_eq [OF assms(2)] by blast
    have t: "unat (n + s) = unat n + unat s"
      using size_add_unat [OF e] spaced_bound [of a s r] assms(1) Cons y by simp
    have "block_bytes (b, n + s) = block_bytes (b, n) \<union> block_bytes (a, s)"
      using t e by (auto simp: block_bytes_def)
    moreover have "spaced ((b, n + s) # r)"
      using assms(1) Cons y t e [symmetric] by (simp add: spaced_Cons distrib_left add.assoc)
    ultimately show ?thesis using Cons y True by (auto simp: free_bytes_def)
  next
    case False
    then have "unat b + 8 * unat n < unat a" using hdr_add_eq [OF assms(2)] le by force
    then show ?thesis using assms(1) Cons y False by (auto simp: free_bytes_def)
  qed
qed

lemma join_left_ok:
  assumes "spaced ((b, n) # r)" "unat p + 8 * unat s \<le> unat b"
  shows "spaced (join_left (p, s) ((b, n) # r)) \<and>
     free_bytes (join_left (p, s) ((b, n) # r)) = block_bytes (p, s) \<union> free_bytes ((b, n) # r) \<and>
     (\<exists>s' r'. join_left (p, s) ((b, n) # r) = (p, s') # r')"
proof -
  have "unat p + 8 * unat s < 2 ^ 32" using assms(2) unat_lt32 [of b] by simp
  note eq = hdr_add_eq [OF this]
  show ?thesis
  proof (cases "hdr_add p s = b")
    case True
    then have e: "unat p + 8 * unat s = unat b" using eq by blast
    have t: "unat (s + n) = unat s + unat n"
      using size_add_unat [OF e] spaced_bound [OF assms(1)] by simp
    have "block_bytes (p, s + n) = block_bytes (p, s) \<union> block_bytes (b, n)"
      using t e by (auto simp: block_bytes_def)
    moreover have "spaced ((p, s + n) # r)"
      using assms(1) t e [symmetric] by (simp add: spaced_Cons distrib_left add.assoc)
    ultimately show ?thesis using True by (auto simp: free_bytes_def)
  next
    case False
    then have "unat p + 8 * unat s < unat b" using eq assms(2) by force
    then show ?thesis using assms(1) False by (auto simp: free_bytes_def)
  qed
qed

lemma spaced_replace:
  assumes "spaced (us @ (p, s) # r)" "spaced ((p, s') # r')"
  shows "spaced (us @ (p, s') # r')"
  using assms
proof (induction us)
  case (Cons u us)
  obtain a t where "u = (a, t)" by fastforce
  then show ?case using Cons by (cases us) (auto simp: spaced_Cons)
qed simp

definition insert_block :: "blocks \<Rightarrow> addr \<times> uint \<Rightarrow> blocks \<Rightarrow> blocks" where
  "insert_block xs b ys = butlast xs @ join_left (last xs) (join_right b ys)"

lemma insert_block_ok:
  assumes "xs \<noteq> []" "spaced (xs @ ys)" "fits xs (b, n) ys"
  shows "spaced (insert_block xs (b, n) ys) \<and>
     free_bytes (insert_block xs (b, n) ys) = free_bytes (xs @ ys) \<union> block_bytes (b, n)"
proof -
  obtain p s where l: "last xs = (p, s)" by fastforce
  have xs: "xs = butlast xs @ [(p, s)]" using assms(1) l by (metis append_butlast_last_id)
  have f: "unat p + 8 * unat s \<le> unat b" "unat b + 8 * unat n < 2 ^ 32"
      "\<forall>(a, s)\<in>set ys. unat b + 8 * unat n \<le> unat a"
    using assms(3) last_in_set [OF assms(1)] l by (auto simp: fits_def)
  obtain n' r where jr: "join_right (b, n) ys = (b, n') # r" "spaced ((b, n') # r)"
      "free_bytes ((b, n') # r) = block_bytes (b, n) \<union> free_bytes ys"
    using join_right_ok [OF spaced_append [OF assms(2)] f(2,3)] by metis
  obtain s' r' where jl: "join_left (p, s) ((b, n') # r) = (p, s') # r'" "spaced ((p, s') # r')"
      "free_bytes ((p, s') # r') = block_bytes (p, s) \<union> free_bytes ((b, n') # r)"
    using join_left_ok [OF jr(2) f(1)] by metis
  have i: "insert_block xs (b, n) ys = butlast xs @ (p, s') # r'"
    using l jr jl by (simp add: insert_block_def)
  have "spaced (butlast xs @ (p, s) # ys)" using assms(2) xs by (metis append.assoc append_Cons append_Nil)
  then have "spaced (butlast xs @ (p, s') # r')" by (rule spaced_replace [OF _ jl(2)])
  moreover have "free_bytes (xs @ ys) = free_bytes (butlast xs) \<union> block_bytes (p, s) \<union> free_bytes ys"
    by (subst xs) (auto simp: free_bytes_def)
  ultimately show ?thesis using i jr(3) jl(3) by (auto simp: free_bytes_def)
qed

section \<open>free\<close>

lemma links_last:
  assumes "links m (us @ [(p, s)]) e"
  shows "m p = \<lparr>h_ptr = e, h_size = s\<rparr>"
  using assms by (simp add: links_append hd_addr_def)

lemma join_right_links:
  "links m ys e \<Longrightarrow> \<exists>n' r. join_right (b, n) ys = (b, n') # r \<and> set r \<subseteq> set ys \<and> links m r e"
  by (cases ys) auto

text \<open>The two steps of linking a block in: first its own header, then that of the block below.\<close>

lemma free_link_run:
  assumes "links (hp_at h) ((us @ [(p, s)]) @ ys) e" "spaced ((us @ [(p, s)]) @ ys)"
    "h_size (hp_at h b) = n" "fits (us @ [(p, s)]) (b, n) ys" "unat e < unat b"
  obtains m where "free_link b p h = Ret () (h\<lparr>hp_at := m, hp_freep := p\<rparr>)"
    "links m (insert_block (us @ [(p, s)]) (b, n) ys) e"
proof -
  define m where "m = hp_at h"
  obtain v where mb: "m b = \<lparr>h_ptr = v, h_size = n\<rparr>" using assms(3) by (cases "m b") (simp add: m_def)
  have ne: "p \<noteq> b" "b \<notin> fst ` set us" "b \<notin> fst ` set ys" "unat b + 8 * unat n < 2 ^ 32"
    using assms(4) by (fastforce simp: fits_def)+
  have np: "p \<notin> fst ` set us" "p \<notin> fst ` set ys"
    using spaced_distinct [OF assms(2)] by auto
  have mp: "m p = \<lparr>h_ptr = hd_addr ys e, h_size = s\<rparr>"
    using links_last [of m us p s "hd_addr ys e"] assms(1) by (simp add: links_append m_def)
  have my: "links m ys e" and mu: "links m us p"
    using assms(1) by (simp_all add: links_append m_def hd_addr_def)
  obtain n' r where jr: "join_right (b, n) ys = (b, n') # r" "set r \<subseteq> set ys" "links m r e"
    using join_right_links [OF my] by blast
  define m1 where "m1 = m(b := \<lparr>h_ptr = hd_addr r e, h_size = n'\<rparr>)"
  have step1: "(if hdr_add b (h_size (m b)) = h_ptr (m p)
           then
             kbind (get_hdr (h_ptr (m p))) (\<lambda>x.
             kseq (set_size b (h_size (m b) + h_size x)) (set_ptr b (h_ptr x)))
           else set_ptr b (h_ptr (m p))) h = Ret () (h\<lparr>hp_at := m1\<rparr>)"
  proof (cases ys)
    case Nil
    have "hdr_add b n \<noteq> e" using hdr_add_eq [OF ne(4), of e] assms(5) by simp
    then show ?thesis
      using Nil jr mp mb by (auto simp: m_def m1_def hd_addr_def set_ptr_def kmod_run)
  next
    case (Cons y ys')
    obtain a t where y: "y = (a, t)" by fastforce
    have ma: "m a = \<lparr>h_ptr = hd_addr ys' e, h_size = t\<rparr>" using my Cons y by simp
    have "a \<noteq> b" using ne(3) Cons y by auto
    then show ?thesis
      using Cons y jr mp ma mb
      by (auto simp: m_def m1_def hd_addr_def set_ptr_def set_size_def get_hdr_def kmod_run kbind_run kseq_run
          split: if_splits)
  qed
  define m2 where "m2 = (if hdr_add p s = b then m1(p := \<lparr>h_ptr = hd_addr r e, h_size = s + n'\<rparr>)
      else m1(p := \<lparr>h_ptr = b, h_size = s\<rparr>))"
  have m1p: "m1 p = m p" "m1 b = \<lparr>h_ptr = hd_addr r e, h_size = n'\<rparr>" using ne(1) by (simp_all add: m1_def)
  define h1 where "h1 = h\<lparr>hp_at := m1\<rparr>"
  have at1: "hp_at h1 = m1" by (simp add: h1_def)
  have step2: "(if hdr_add p (h_size (m1 p)) = b
           then
             kbind (get_hdr b) (\<lambda>x.
             kseq (set_size p (h_size (m1 p) + h_size x)) (set_ptr p (h_ptr x)))
           else set_ptr p b) h1 = Ret () (h1\<lparr>hp_at := m2\<rparr>)"
    using m1p mp ne(1) at1
    by (simp add: get_hdr_def kbind_run kseq_run kmod_run set_size_def set_ptr_def m2_def)
  have hdr: "get_hdr b h = Ret (m b) h" "get_hdr p h = Ret (m p) h" "get_hdr p h1 = Ret (m1 p) h1"
    by (simp_all add: get_hdr_def m_def at1)
  have "free_link b p h = Ret () (h1\<lparr>hp_at := m2, hp_freep := p\<rparr>)"
    unfolding free_link_def
    using hdr step1 [folded h1_def] step2
    by (simp only: kbind_Ret kseq_Ret set_freep_def kmod_run)
  then have run: "free_link b p h = Ret () (h\<lparr>hp_at := m2, hp_freep := p\<rparr>)" by (simp add: h1_def)
  have nr: "b \<notin> fst ` set r" "p \<notin> fst ` set r" using jr(2) ne(3) np(2) by blast+
  have out: "links m2 us p" "links m2 r e"
    using mu jr(3) ne np nr unfolding m2_def m1_def by (simp_all add: links_other)
  have "links m2 (join_left (p, s) ((b, n') # r)) e"
    using out(2) m1p ne(1) by (auto simp: m2_def m1_def hd_addr_def)
  moreover have "hd_addr (join_left (p, s) ((b, n') # r)) e = p" by (simp add: hd_addr_def)
  ultimately have "links m2 (insert_block (us @ [(p, s)]) (b, n) ys) e"
    using out(1) jr(1) by (simp add: insert_block_def links_append)
  then show ?thesis using that run by blast
qed

lemma insert_block_hd:
  assumes "xs \<noteq> []" "hd xs = (base, 0)" "last xs = (p, s)" "fits xs (b, n) ys"
  shows "hd (insert_block xs (b, n) ys) = (base, 0) \<and> p \<in> fst ` set (insert_block xs (b, n) ys)"
proof -
  obtain n' r where jr: "join_right (b, n) ys = (b, n') # r" by (cases ys) (auto, metis surj_pair)
  obtain s' r' where jl: "join_left (p, s) ((b, n') # r) = (p, s') # r'"
    by (cases "hdr_add p s = b") auto
  have "s' = s" if "butlast xs = []"
  proof -
    have "xs = [(base, 0)]" using that assms(1,2) by (cases xs) (auto split: if_splits)
    then have "p = base" "s = 0" "base \<noteq> b" using assms(3,4) by (auto simp: fits_def)
    then show ?thesis using jl by (simp add: hdr_add_def)
  qed
  moreover have "butlast xs \<noteq> [] \<Longrightarrow> hd (butlast xs) = hd xs" by (cases xs) auto
  moreover have "butlast xs = [] \<Longrightarrow> hd xs = last xs" using assms(1) by (cases xs) (auto split: if_splits)
  ultimately show ?thesis
    using jr jl assms(2,3) by (cases "butlast xs = []") (auto simp: insert_block_def)
qed

text \<open>
  C19. \<^verbatim>\<open>free\<close> gives a block back. On a circular free list whose blocks ascend from the static header
  without touching, and for a block that overlaps none of them, its search ends within the length of the
  list, wherever the roving pointer stands; afterwards the list is again of this kind, so that every block
  is coalesced with its neighbours on both sides, and the free bytes are those of before and those of the
  block.
\<close>

theorem free_returns_block:
  assumes "free_ring h (xs @ ys)" "xs \<noteq> []" "h_size (hp_at h b) = n" "fits xs (b, n) ys"
    "length (xs @ ys) < k"
  shows "\<exists>h'. free k (hdr_add b 1) h = Ret () h' \<and> free_ring h' (insert_block xs (b, n) ys) \<and>
     free_bytes (insert_block xs (b, n) ys) = free_bytes (xs @ ys) \<union> block_bytes (b, n) \<and>
     hp_world h' = hp_world h"
proof -
  obtain p s where l: "last xs = (p, s)" by fastforce
  define us where "us = butlast xs"
  have xs: "xs = us @ [(p, s)]" using assms(2) l by (metis us_def append_butlast_last_id)
  have r: "hd (xs @ ys) = (hp_base h, 0)" "spaced (xs @ ys)" "links (hp_at h) (xs @ ys) (hp_base h)"
      "hp_freep h \<in> fst ` set (xs @ ys)"
    using assms(1) by (simp_all add: free_ring_def)
  obtain x where x: "x \<in> set (xs @ ys)" "fst x = hp_freep h" using r(4) by force
  then obtain j where j: "j < length (xs @ ys)" "fst ((xs @ ys) ! j) = hp_freep h"
    unfolding in_set_conv_nth by blast
  have steps: "steps_to (length (xs @ ys)) (length xs) j < k"
    using j(1) assms(2,5) unfolding steps_to_def by (simp, linarith)
  have e: "fst (hd (xs @ ys)) = hp_base h" using r(1) by simp
  have find: "free_find k b (hp_freep h) h = Ret p h"
    using free_find_run [OF refl assms(2) r(2) r(3) [folded e] assms(4) j(1) steps]
    unfolding j(2) l prod.sel .
  have "hd xs = (hp_base h, 0)" using r(1) assms(2) by simp
  then have "(hp_base h, 0) \<in> set xs" using hd_in_set [OF assms(2)] by simp
  then have base: "unat (hp_base h) < unat b" using assms(4) unfolding fits_def by auto
  obtain m where m: "free_link b p h = Ret () (h\<lparr>hp_at := m, hp_freep := p\<rparr>)"
      "links m (insert_block xs (b, n) ys) (hp_base h)"
    by (rule free_link_run [OF r(3) [unfolded xs] r(2) [unfolded xs] assms(3) assms(4) [unfolded xs] base,
          folded xs])
  from find m(1) have run: "free k (hdr_add b 1) h = Ret () (h\<lparr>hp_at := m, hp_freep := p\<rparr>)"
    by (simp add: free_def hdr_add_def kbind_run)
  have hd: "hd (insert_block xs (b, n) ys) = (hp_base h, 0) \<and> p \<in> fst ` set (insert_block xs (b, n) ys)"
    by (rule insert_block_hd [OF assms(2) _ l]) (use r(1) assms(2,4) in auto)
  have "insert_block xs (b, n) ys \<noteq> []" using hd by auto
  then have "free_ring (h\<lparr>hp_at := m, hp_freep := p\<rparr>) (insert_block xs (b, n) ys)"
    using hd m(2) insert_block_ok [OF assms(2) r(2) assms(4)] by (simp add: free_ring_def)
  then show ?thesis
    using run insert_block_ok [OF assms(2) r(2) assms(4)]
    by (intro exI [of _ "h\<lparr>hp_at := m, hp_freep := p\<rparr>"]) simp
qed

text \<open>The static header and one free block, and a block between them that touches it.\<close>

definition ex_heap :: "'w \<Rightarrow> 'w heap" where
  "ex_heap w = \<lparr>hp_at = (\<lambda>a. if a = 0x1000 then \<lparr>h_ptr = 0x5010, h_size = 0\<rparr>
       else if a = 0x5010 then \<lparr>h_ptr = 0x1000, h_size = 6\<rparr> else \<lparr>h_ptr = 0, h_size = 2\<rparr>),
     hp_base = 0x1000, hp_freep = 0x5010, hp_world = w\<rparr>"

theorem free_returns_block_witness:
  "\<exists>h'. free 3 0x5008 (ex_heap ()) = Ret () h' \<and> free_ring h' [(0x1000, 0), (0x5000, 8)]"
proof -
  have r: "free_ring (ex_heap ()) ([(0x1000, 0)] @ [(0x5010, 6)])"
    by (simp add: free_ring_def ex_heap_def hd_addr_def)
  have f: "fits [(0x1000, 0)] (0x5000, 2) [(0x5010, 6)]" by (simp add: fits_def)
  have s: "h_size (hp_at (ex_heap ()) 0x5000) = 2" by (simp add: ex_heap_def)
  have i: "insert_block [(0x1000, 0)] (0x5000, 2) [(0x5010, 6)] = [(0x1000, 0), (0x5000, 8)]"
    by (simp add: insert_block_def hdr_add_def)
  have a: "hdr_add 0x5000 1 = 0x5008" by (simp add: hdr_add_def)
  have "length ([(0x1000, 0)] @ [(0x5010 :: addr, 6 :: uint)]) < 3" by simp
  from free_returns_block [OF r not_Cons_self2 s f this] show ?thesis unfolding i a by blast
qed

section \<open>malloc\<close>

text \<open>What is left of a block from whose upper end a number of units is taken.\<close>

definition remainder :: "addr \<times> uint \<Rightarrow> uint \<Rightarrow> blocks" where
  "remainder = (\<lambda>(p, s) n. if s = n then [] else [(p, s - n)])"

definition taken_at :: "addr \<times> uint \<Rightarrow> uint \<Rightarrow> addr" where
  "taken_at = (\<lambda>(p, s) n. hdr_add p (s - n))"

lemma taken_unat:
  assumes "unat p + 8 * unat s < 2 ^ 32" "n \<le> s"
  shows "unat (taken_at (p, s) n) + 8 * unat n = unat p + 8 * unat s"
proof -
  have "unat (s - n) = unat s - unat n" using assms(2) by (rule unat_sub)
  moreover have "unat n \<le> unat s" using assms(2) by (simp only: word_le_nat_alt)
  ultimately have d: "unat (s - n) + unat n = unat s" by simp
  then have "unat p + 8 * unat (s - n) < 2 ^ 32" using assms(1) by linarith
  from hdr_add_unat [OF this] d show ?thesis unfolding taken_at_def prod.case by linarith
qed

lemma links_frame: "(\<And>a. a \<in> fst ` set bs \<Longrightarrow> m a = m' a) \<Longrightarrow> links m bs e \<longleftrightarrow> links m' bs e"
proof (induction bs)
  case (Cons b bs)
  then show ?case by (cases b) auto
qed simp

lemma spaced_before:
  "spaced (us @ (p, s) # r) \<Longrightarrow> (a, t) \<in> set us \<Longrightarrow> unat a + 8 * unat t < unat p"
proof (induction us)
  case (Cons u us)
  show ?case
  proof (cases "(a, t) = u")
    case True
    then show ?thesis using spaced_less [of a t "us @ (p, s) # r" p s] Cons.prems(1) by simp
  next
    case False
    then show ?thesis using Cons spaced_append [of "[u]" "us @ (p, s) # r"] by simp
  qed
qed simp

lemma block_split:
  assumes "unat p + 8 * unat s < 2 ^ 32" "n \<le> s"
  shows "block_bytes (p, s) = free_bytes (remainder (p, s) n) \<union> block_bytes (taken_at (p, s) n, n)"
    "free_bytes (remainder (p, s) n) \<inter> block_bytes (taken_at (p, s) n, n) = {}"
proof -
  have "unat (s - n) = unat s - unat n" "unat n \<le> unat s" "s = n \<longleftrightarrow> unat s = unat n"
    using unat_sub [OF assms(2)] assms(2) by (auto simp only: word_le_nat_alt word_unat_eq_iff)
  then show "block_bytes (p, s) = free_bytes (remainder (p, s) n) \<union> block_bytes (taken_at (p, s) n, n)"
      "free_bytes (remainder (p, s) n) \<inter> block_bytes (taken_at (p, s) n, n) = {}"
    using taken_unat [OF assms] by (auto simp: block_bytes_def free_bytes_def remainder_def)
qed

lemma remainder_bytes:
  assumes "spaced (us @ (p, s) # ys)" "n \<le> s"
  shows "free_bytes (us @ remainder (p, s) n @ ys) =
       free_bytes (us @ (p, s) # ys) - block_bytes (taken_at (p, s) n, n)"
    "block_bytes (taken_at (p, s) n, n) \<subseteq> free_bytes (us @ (p, s) # ys)"
proof -
  have sp: "spaced ((p, s) # ys)" using spaced_append [OF assms(1)] .
  note bs = block_split [OF spaced_bound [OF sp] assms(2)]
  have "block_bytes (p, s) \<inter> free_bytes us = {}"
    using spaced_before [OF assms(1)] by (fastforce simp: free_bytes_def block_bytes_def)
  moreover have "block_bytes (p, s) \<inter> free_bytes ys = {}"
    using spaced_less [OF sp] by (fastforce simp: free_bytes_def block_bytes_def)
  moreover have "free_bytes (us @ (p, s) # ys) = free_bytes us \<union> block_bytes (p, s) \<union> free_bytes ys"
      "free_bytes (us @ remainder (p, s) n @ ys) = free_bytes us \<union> free_bytes (remainder (p, s) n) \<union> free_bytes ys"
    by (auto simp: free_bytes_def)
  ultimately show "free_bytes (us @ remainder (p, s) n @ ys) =
       free_bytes (us @ (p, s) # ys) - block_bytes (taken_at (p, s) n, n)"
    "block_bytes (taken_at (p, s) n, n) \<subseteq> free_bytes (us @ (p, s) # ys)"
    using bs by blast+
qed

lemma remainder_spaced:
  assumes "spaced (us @ (pp, ps) # (p, s) # ys)" "n \<le> s"
  shows "spaced (us @ (pp, ps) # remainder (p, s) n @ ys)"
proof (rule spaced_replace [OF assms(1)])
  have sp: "spaced ((pp, ps) # (p, s) # ys)" using spaced_append [OF assms(1)] .
  have d: "unat (s - n) \<le> unat s" using unat_sub [OF assms(2)] by simp
  have b: "unat pp + 8 * unat ps < 2 ^ 32" by (rule spaced_bound [OF sp])
  show "spaced ((pp, ps) # remainder (p, s) n @ ys)"
    using sp d b by (auto simp: spaced_Cons remainder_def)
qed

lemma malloc_take_run:
  assumes "spaced (us @ (pp, ps) # (p, s) # ys)" "links (hp_at h) (us @ (pp, ps) # (p, s) # ys) e"
    "n \<le> s" "0 < n"
  obtains m where
    "malloc_take n pp p (hp_at h p) h =
       Ret (hdr_add (taken_at (p, s) n) 1) (h\<lparr>hp_at := m, hp_freep := pp\<rparr>)"
    "links m (us @ (pp, ps) # remainder (p, s) n @ ys) e" "h_size (m (taken_at (p, s) n)) = n"
proof -
  define m where "m = hp_at h"
  have l: "links m us pp" "m pp = \<lparr>h_ptr = p, h_size = ps\<rparr>" "m p = \<lparr>h_ptr = hd_addr ys e, h_size = s\<rparr>"
      "links m ys e"
    using assms(2) by (simp_all add: links_append hd_addr_def m_def)
  have d: "distinct (map fst (us @ (pp, ps) # (p, s) # ys))" by (rule spaced_distinct [OF assms(1)])
  show ?thesis
  proof (cases "s = n")
    case True
    define m' where "m' = m(pp := \<lparr>h_ptr = hd_addr ys e, h_size = ps\<rparr>)"
    have "malloc_take n pp p (hp_at h p) h = Ret (hdr_add p 1) (h\<lparr>hp_at := m', hp_freep := pp\<rparr>)"
      using True l(2,3)
      by (simp add: malloc_take_def set_ptr_def set_freep_def kseq_run kmod_run m'_def m_def)
    moreover have "links m' (us @ (pp, ps) # remainder (p, s) n @ ys) e"
      using l d True by (simp add: links_append links_other m'_def remainder_def hd_addr_def)
    moreover have "taken_at (p, s) n = p" "h_size (m' (taken_at (p, s) n)) = n"
      using True l(3) d by (auto simp: taken_at_def hdr_add_def m'_def)
    ultimately show ?thesis using that by metis
  next
    case False
    define q where "q = taken_at (p, s) n"
    define m' where "m' = m(p := \<lparr>h_ptr = hd_addr ys e, h_size = s - n\<rparr>, q := (m q)\<lparr>h_size := n\<rparr>)"
    have sp: "spaced ((p, s) # ys)" using spaced_append [of "us @ [(pp, ps)]" "(p, s) # ys"] assms(1) by simp
    have u: "unat q + 8 * unat n = unat p + 8 * unat s"
      unfolding q_def using taken_unat [OF spaced_bound [OF sp] assms(3)] .
    have "unat n < unat s" using assms(3) False by (metis order.not_eq_order_implies_strict word_less_nat_alt)
    then have q: "p < q" "\<And>a t. (a, t) \<in> set ys \<Longrightarrow> q < a"
      using u spaced_less [OF sp] assms(4) by (force simp: word_less_nat_alt)+
    have lo: "a < p" if "(a, t) \<in> set (us @ [(pp, ps)])" for a t
      using spaced_before [of "us @ [(pp, ps)]" p s ys a t] assms(1) that by (simp add: word_less_nat_alt)
    have "\<not> q < p" using q(1) by simp
    then have nm: "(q, t) \<notin> set us" "(q, t) \<notin> set ys" for t
      using lo [of q t] q(2) [of q t] by auto
    then have nq: "q \<noteq> p" "q \<noteq> pp" "q \<notin> fst ` set us" "q \<notin> fst ` set ys"
      using q(1) lo [of pp ps] nm by auto
    have "malloc_take n pp p (hp_at h p) h = Ret (hdr_add q 1) (h\<lparr>hp_at := m', hp_freep := pp\<rparr>)"
      using False l(2,3) nq(1)
      by (simp add: malloc_take_def set_size_def set_freep_def kseq_run kmod_run Let_def m'_def m_def q_def taken_at_def)
    moreover have "links m' (us @ (pp, ps) # remainder (p, s) n @ ys) e"
      using l d False nq by (auto simp: links_append links_other m'_def remainder_def hd_addr_def)
    moreover have "h_size (m' q) = n" by (simp add: m'_def)
    ultimately show ?thesis using that unfolding q_def by blast
  qed
qed

text \<open>How far the search of \<open>malloc\<close> has to go around the list from one index to another.\<close>

definition ahead :: "nat \<Rightarrow> nat \<Rightarrow> nat \<Rightarrow> nat" where
  "ahead n i g = (if i \<le> g then g - i else n - i + g)"

lemma ahead_step:
  assumes "i < n" "g < n" "i \<noteq> g"
  shows "ahead n (if Suc i < n then Suc i else 0) g = ahead n i g - 1" "0 < ahead n i g"
  using assms by (auto simp: ahead_def)

lemma malloc_loop_finds:
  assumes ring: "spaced bs" "links (hp_at h) bs (fst (bs ! 0))" "hp_freep h = fst (bs ! j)" "j < length bs"
      "snd (bs ! 0) = 0"
    and fit: "g < length bs" "n \<le> snd (bs ! g)" "0 < n"
  shows "i < length bs \<Longrightarrow> c < length bs \<Longrightarrow> i = (if Suc c < length bs then Suc c else 0) \<Longrightarrow>
     ahead (length bs) i g \<le> ahead (length bs) i j \<Longrightarrow> ahead (length bs) i g < k \<Longrightarrow>
     \<exists>f. Suc f < length bs \<and> n \<le> snd (bs ! Suc f) \<and>
       malloc_loop os k n (fst (bs ! c)) (fst (bs ! i)) h =
         malloc_take n (fst (bs ! f)) (fst (bs ! Suc f)) (hp_at h (fst (bs ! Suc f))) h"
proof (induction k arbitrary: i c)
  case (Suc k)
  define nx where "nx = (if Suc i < length bs then Suc i else 0)"
  have hdr: "hp_at h (fst (bs ! i)) = \<lparr>h_ptr = fst (bs ! nx), h_size = snd (bs ! i)\<rparr>"
    using links_nth [OF ring(2) Suc.prems(1)] by (simp add: nx_def)
  show ?case
  proof (cases "n \<le> snd (bs ! i)")
    case True
    then have "i \<noteq> 0" using ring(5) fit(3) by (cases i) auto
    then have "i = Suc c" using Suc.prems(3) by (simp split: if_splits)
    moreover have "malloc_loop os (Suc k) n (fst (bs ! c)) (fst (bs ! i)) h =
        malloc_take n (fst (bs ! c)) (fst (bs ! i)) (hp_at h (fst (bs ! i))) h"
      using True hdr by (simp add: get_hdr_def kbind_run)
    ultimately show ?thesis using True Suc.prems(1) by blast
  next
    case False
    then have ig: "i \<noteq> g" using fit(2) by blast
    then have ij: "i \<noteq> j" using Suc.prems(4) ahead_step(2) [OF Suc.prems(1) fit(1)] by (auto simp: ahead_def)
    have "fst (bs ! i) \<noteq> fst (bs ! j)"
      using spaced_nth_less [OF ring(1), of i j] spaced_nth_less [OF ring(1), of j i] ij Suc.prems(1) ring(4)
      by (metis less_irrefl linorder_neqE_nat)
    then have "malloc_loop os (Suc k) n (fst (bs ! c)) (fst (bs ! i)) h =
        malloc_loop os k n (fst (bs ! i)) (fst (bs ! nx)) h"
      using False hdr ring(3) by (simp add: get_hdr_def kbind_run)
    moreover have "\<exists>f. Suc f < length bs \<and> n \<le> snd (bs ! Suc f) \<and>
        malloc_loop os k n (fst (bs ! i)) (fst (bs ! nx)) h =
          malloc_take n (fst (bs ! f)) (fst (bs ! Suc f)) (hp_at h (fst (bs ! Suc f))) h"
    proof (rule Suc.IH)
      show "nx < length bs" "i < length bs" using Suc.prems(1) by (auto simp: nx_def)
      show "nx = (if Suc i < length bs then Suc i else 0)" by (rule nx_def)
      show "ahead (length bs) nx g \<le> ahead (length bs) nx j" "ahead (length bs) nx g < k"
        using Suc.prems ahead_step [OF Suc.prems(1) fit(1) ig] ahead_step [OF Suc.prems(1) ring(4) ij]
        by (simp_all add: nx_def)
    qed
    ultimately show ?thesis by simp
  qed
qed simp

lemma malloc_units_pos: "0 < malloc_units nbytes"
proof -
  have "unat ((nbytes + 8 - 1) div 8) < 2 ^ 29" using unat_lt32 [of "nbytes + 8 - 1"] by (simp add: unat_div)
  then have "unat (malloc_units nbytes) = unat ((nbytes + 8 - 1) div 8) + 1"
    unfolding malloc_units_def by (simp add: unat_word_ariths)
  then show ?thesis by (simp add: word_less_nat_alt)
qed



end
