(* ===== verification/Mkfs.thy ===== *)
theory Mkfs
  imports Fs
begin

text \<open>
  The builder of the initial file system, \<^verbatim>\<open>src/mkfs.c\<close>, a program of the host. The image file is a
  function from sectors to their bytes; the host's \<^verbatim>\<open>lseek\<close>, \<^verbatim>\<open>read\<close> and \<^verbatim>\<open>write\<close> on it are taken to succeed,
  and an image name to be given. The files to put into the image are arguments: a name, and the chunks that reading the file gives,
  or \<open>None\<close> where it cannot be opened. On-disk structures are the bytes that the kernel's \<open>encode_dinode\<close> and
  \<open>decode_dinode\<close> relate to records, so that the byte order conversions of \<^verbatim>\<open>xint\<close> and \<^verbatim>\<open>xshort\<close> are in
  the encoding. A failed \<^verbatim>\<open>assert\<close> is a panic.

  Lemmas: the super block, the inodes and the bit map are what the kernel's routines read.
\<close>

unbundle bit_operations_syntax

section \<open>State\<close>

record mkfs =
  mk_img :: "nat \<Rightarrow> uchar list"
  mk_freeinode :: nat
  mk_freeblock :: nat

definition NINODES :: nat where "NINODES = 200"
definition mk_nbitmap :: nat where "mk_nbitmap = FSSIZE div (BSIZE * 8) + 1"
definition mk_ninodeblocks :: nat where "mk_ninodeblocks = NINODES div IPB + 1"
definition mk_nlog :: nat where "mk_nlog = LOGSIZE"
definition mk_nmeta :: nat where "mk_nmeta = 2 + mk_nlog + mk_ninodeblocks + mk_nbitmap"

definition mk_sb :: superblock where
  "mk_sb = \<lparr>sb_size = FSSIZE, sb_nblocks = FSSIZE - mk_nmeta, sb_ninodes = NINODES, sb_nlog = mk_nlog,
     sb_logstart = 2, sb_inodestart = 2 + mk_nlog, sb_bmapstart = 2 + mk_nlog + mk_ninodeblocks\<rparr>"

section \<open>Sectors and inodes\<close>

definition wsect :: "nat \<Rightarrow> uchar list \<Rightarrow> (mkfs, unit) K" where
  "wsect sec buf = kmod (\<lambda>s. s\<lparr>mk_img := (mk_img s)(sec := buf)\<rparr>)"

definition rsect :: "nat \<Rightarrow> (mkfs, uchar list) K" where
  "rsect sec = kget (\<lambda>s. mk_img s sec)"

definition winode :: "nat \<Rightarrow> dinode \<Rightarrow> (mkfs, unit) K" where
  "winode inum ip =
     (let bn = IBLOCK inum mk_sb
      in kbind (rsect bn) (\<lambda>buf. wsect bn (splice buf (64 * (inum mod IPB)) (encode_dinode ip))))"

definition rinode :: "nat \<Rightarrow> (mkfs, dinode) K" where
  "rinode inum =
     (let bn = IBLOCK inum mk_sb
      in kbind (rsect bn) (\<lambda>buf. ret (decode_dinode buf (64 * (inum mod IPB)))))"

definition mk_ialloc :: "ushort \<Rightarrow> (mkfs, nat) K" where
  "mk_ialloc type =
     kbind (kget mk_freeinode) (\<lambda>inum.
     kseq (kmod (\<lambda>s. s\<lparr>mk_freeinode := inum + 1\<rparr>)) (
     kseq (winode inum \<lparr>d_type = type, d_major = 0, d_minor = 0, d_nlink = 1, d_size = 0, d_addrs = (\<lambda>k. 0)\<rparr>) (
     ret inum)))"

text \<open>The first \<open>used\<close> bits of a block.\<close>

definition mk_bitmap :: "nat \<Rightarrow> uchar list" where
  "mk_bitmap used =
     foldl (\<lambda>buf i. buf[i div 8 := buf ! (i div 8) OR push_bit (i mod 8) 1]) (replicate BSIZE 0) [0..<used]"

definition mk_balloc :: "nat \<Rightarrow> (mkfs, unit) K" where
  "mk_balloc used =
     (if used < BSIZE * 8 then wsect (sb_bmapstart mk_sb) (mk_bitmap used) else panic ''assert'')"

section \<open>Appending to a file\<close>

definition mk_newblock :: "(mkfs, nat) K" where
  "mk_newblock = kbind (kget mk_freeblock) (\<lambda>b. kseq (kmod (\<lambda>s. s\<lparr>mk_freeblock := b + 1\<rparr>)) (ret b))"

text \<open>The block of the image that holds block \<open>fbn\<close> of the file, allocated when there is none.\<close>

definition mk_bmap :: "nat \<Rightarrow> dinode \<Rightarrow> (mkfs, dinode \<times> nat) K" where
  "mk_bmap fbn din =
     (if fbn < NDIRECT then
        kbind (if d_addrs din fbn = 0
               then kbind mk_newblock (\<lambda>b. ret (din\<lparr>d_addrs := (d_addrs din)(fbn := b)\<rparr>))
               else ret din) (\<lambda>din.
        ret (din, d_addrs din fbn))
      else
        kbind (if d_addrs din NDIRECT = 0
               then kbind mk_newblock (\<lambda>b. ret (din\<lparr>d_addrs := (d_addrs din)(NDIRECT := b)\<rparr>))
               else ret din) (\<lambda>din.
        kbind (rsect (d_addrs din NDIRECT)) (\<lambda>indirect.
        kbind (if get32 indirect (4 * (fbn - NDIRECT)) = 0
               then
                 kbind mk_newblock (\<lambda>b.
                 let indirect = put32 indirect (4 * (fbn - NDIRECT)) (of_nat b)
                 in kseq (wsect (d_addrs din NDIRECT) indirect) (ret indirect))
               else ret indirect) (\<lambda>indirect.
        ret (din, unat (get32 indirect (4 * (fbn - NDIRECT))))))))"

lemma block_rest_pos: "0 < (off div BSIZE + 1) * BSIZE - off"
proof -
  have "off mod BSIZE < BSIZE" by (simp add: BSIZE_def)
  then have "off < off div BSIZE * BSIZE + BSIZE" using div_mult_mod_eq [of off BSIZE] by linarith
  then show ?thesis by simp
qed

function iappend_loop :: "dinode \<Rightarrow> nat \<Rightarrow> uchar list \<Rightarrow> (mkfs, dinode \<times> nat) K" where
  "iappend_loop din off p =
     (if p = [] then ret (din, off)
      else
        let fbn = off div BSIZE; n1 = min (length p) ((fbn + 1) * BSIZE - off)
        in if fbn \<ge> MAXFILE then panic ''assert''
           else
             kbind (mk_bmap fbn din) (\<lambda>(din, x).
             kbind (rsect x) (\<lambda>buf.
             kseq (wsect x (splice buf (off - fbn * BSIZE) (take n1 p))) (
             iappend_loop din (off + n1) (drop n1 p)))))"
  by pat_completeness auto

termination
  by (relation "measure (\<lambda>(din, off, p). length p)") (use block_rest_pos in auto)

definition iappend :: "nat \<Rightarrow> uchar list \<Rightarrow> (mkfs, unit) K" where
  "iappend inum p =
     kbind (rinode inum) (\<lambda>din.
     kbind (iappend_loop din (unat (d_size din)) p) (\<lambda>(din, off).
     winode inum (din\<lparr>d_size := of_nat off\<rparr>)))"

section \<open>The program\<close>

definition mk_dirent :: "nat \<Rightarrow> uchar list \<Rightarrow> uchar list" where
  "mk_dirent inum name =
     encode_dirent \<lparr>de_inum = of_nat inum, de_name = take DIRSIZ (name @ replicate DIRSIZ 0)\<rparr>"

fun mk_files :: "nat \<Rightarrow> (uchar list \<times> uchar list list option) list \<Rightarrow> (mkfs, unit) K" where
  "mk_files rootino [] = ret ()"
| "mk_files rootino ((name, chunks) # fs) =
     (if 47 \<in> set name then panic ''assert''
      else
        case chunks of
          None \<Rightarrow> kstop Noreturn
        | Some cs \<Rightarrow>
            let name = (if name \<noteq> [] \<and> hd name = 95 then tl name else name)
            in kbind (mk_ialloc T_FILE) (\<lambda>inum.
               kseq (iappend rootino (mk_dirent inum name)) (
               kseq (kfor (iappend inum) cs) (
               mk_files rootino fs))))"

definition mk_sb_block :: "uchar list" where
  "mk_sb_block =
     splice (replicate BSIZE 0) 0
       (concat (map (\<lambda>f. le_bytes (of_nat (f mk_sb)))
          [sb_size, sb_nblocks, sb_ninodes, sb_nlog, sb_logstart, sb_inodestart, sb_bmapstart]))"

definition mkfs_main :: "(uchar list \<times> uchar list list option) list \<Rightarrow> (mkfs, unit) K" where
  "mkfs_main files =
     kseq (kmod (\<lambda>s. s\<lparr>mk_freeinode := 1, mk_freeblock := mk_nmeta\<rparr>)) (
     kseq (kfor (\<lambda>i. wsect i (replicate BSIZE 0)) [0..<FSSIZE]) (
     kseq (wsect 1 mk_sb_block) (
     kbind (mk_ialloc T_DIR) (\<lambda>rootino.
     kseq (kwhen (rootino \<noteq> ROOTINO) (panic ''assert'')) (
     kseq (iappend rootino (mk_dirent rootino (str ''.''))) (
     kseq (iappend rootino (mk_dirent rootino (str ''..''))) (
     kseq (mk_files rootino files) (
     kbind (rinode rootino) (\<lambda>din.
     let off = (unat (d_size din) div BSIZE + 1) * BSIZE
     in kseq (winode rootino (din\<lparr>d_size := of_nat off\<rparr>)) (
        kbind (kget mk_freeblock) (\<lambda>b. mk_balloc b)))))))))))"

section \<open>The image is what the kernel reads\<close>

lemma mkfs_superblock: "decode_sb mk_sb_block = mk_sb"
  by code_simp

lemma winode_rinode:
  assumes "\<And>k. k \<le> NDIRECT \<Longrightarrow> d_addrs x k < 2 ^ 32" "\<And>k. NDIRECT < k \<Longrightarrow> d_addrs x k = 0"
    "length (mk_img s (IBLOCK i mk_sb)) = BSIZE"
  shows "kseq (winode i x) (rinode i) s = Ret x (final (winode i x s))"
proof -
  let ?d = "mk_img s (IBLOCK i mk_sb)" and ?o = "64 * (i mod IPB)"
  have le: "?o + length (encode_dinode x) \<le> length ?d"
    using assms(3) mod_less_divisor [of IPB i] by (simp add: length_encode fs_consts)
  have "decode_dinode (splice ?d ?o (encode_dinode x)) ?o = x"
    using dinode_at [OF drop_splice [OF le] assms(1)] assms(2) by (auto simp: fun_eq_iff)
  then show ?thesis
    by (simp add: winode_def rinode_def wsect_def rsect_def kbind_run kseq_run kmod_run Let_def)
qed

lemma winode_other:
  assumes "i \<noteq> j" "length (mk_img s (IBLOCK i mk_sb)) = BSIZE"
  shows "returns (kseq (winode i x) (rinode j) s) = returns (rinode j s)"
proof (cases "IBLOCK i mk_sb = IBLOCK j mk_sb")
  case True
  then have "i div IPB = j div IPB" by (simp add: IBLOCK_def)
  then have ne: "i mod IPB \<noteq> j mod IPB" using assms(1) div_mult_mod_eq [of i IPB] div_mult_mod_eq [of j IPB] by metis
  have b: "i mod 8 < 8" "j mod 8 < 8" by simp_all
  have "decode_dinode (splice (mk_img s (IBLOCK i mk_sb)) (64 * (i mod IPB)) (encode_dinode x)) (64 * (j mod IPB)) =
      decode_dinode (mk_img s (IBLOCK i mk_sb)) (64 * (j mod IPB))"
    using ne assms(2) b by (intro decode_splice_other) (auto simp: length_encode fs_consts)
  then show ?thesis
    using True by (simp add: winode_def rinode_def wsect_def rsect_def kbind_run kseq_run kmod_run Let_def)
next
  case False
  then show ?thesis
    by (simp add: winode_def rinode_def wsect_def rsect_def kbind_run kseq_run kmod_run Let_def)
qed

text \<open>The kernel's test of a bit of the map, \<^verbatim>\<open>bp->data[bi/8] & m\<close>, finds the blocks in use.\<close>

lemma mk_bitmap_bit:
  assumes "used \<le> BSIZE * 8" "b < BSIZE * 8"
  shows "length (mk_bitmap used) = BSIZE \<and> (bit (mk_bitmap used ! (b div 8)) (b mod 8) \<longleftrightarrow> b < used)"
  using assms(1)
proof (induction used)
  case 0
  then show ?case using assms(2) by (simp add: mk_bitmap_def)
next
  case (Suc u)
  have s: "mk_bitmap (Suc u) = (mk_bitmap u)[u div 8 := mk_bitmap u ! (u div 8) OR push_bit (u mod 8) 1]"
    by (simp add: mk_bitmap_def)
  have ih: "length (mk_bitmap u) = BSIZE" "bit (mk_bitmap u ! (b div 8)) (b mod 8) \<longleftrightarrow> b < u"
    using Suc by simp_all
  have "bit (push_bit (u mod 8) 1 :: uchar) (b mod 8) \<longleftrightarrow> u mod 8 = b mod 8"
    by (auto simp: bit_simps)
  moreover have "u = b \<longleftrightarrow> u div 8 = b div 8 \<and> u mod 8 = b mod 8" by (metis div_mult_mod_eq)
  moreover have "b div 8 < BSIZE" using assms(2) by (simp add: BSIZE_def)
  ultimately show ?case using ih s
    by (cases "u div 8 = b div 8") (auto simp: bit_or_iff nth_list_update)
qed

end
